(* ===== verification/XcbPrelude.thy ===== *)
theory XcbPrelude
  imports Main "HOL-Library.Word" "HOL-Library.Monad_Syntax"
begin

text \<open>
  Shared vocabulary of the development: the machine integer types of the C sources, the
  little-endian layout of 16 and 32 bit fields (the host the model describes is little-endian),
  the named collections of facts the components add to, and generic lemmas on lists, options
  and words.

  Results of C functions that may fail to return are options: \<open>None\<close> stands for a call that
  does not return to its caller (a failed \<open>assert\<close>, a memory access outside an object, a
  wait that nobody ends), \<open>Some\<close> for an ordinary return.
\<close>

unbundle bit_operations_syntax

type_synonym byte = "8 word"
type_synonym u16 = "16 word"
type_synonym u32 = "32 word"
type_synonym u64 = "64 word"

named_theorems seq_simps \<open>sequence number comparisons read as integer facts\<close>
named_theorems io_defs \<open>definitions of the system call model\<close>
named_theorems frame_simps \<open>fields an operation leaves alone\<close>

section \<open>Byte layout\<close>

definition le16 :: "byte \<Rightarrow> byte \<Rightarrow> u16" where
  "le16 b0 b1 = word_of_nat (unat b0 + 256 * unat b1)"

definition le32 :: "byte \<Rightarrow> byte \<Rightarrow> byte \<Rightarrow> byte \<Rightarrow> u32" where
  "le32 b0 b1 b2 b3 =
     word_of_nat (unat b0 + 256 * unat b1 + 65536 * unat b2 + 16777216 * unat b3)"

definition bytes16 :: "u16 \<Rightarrow> byte list" where
  "bytes16 x = [word_of_nat (unat x), word_of_nat (unat x div 256)]"

definition bytes32 :: "u32 \<Rightarrow> byte list" where
  "bytes32 x = [word_of_nat (unat x), word_of_nat (unat x div 256),
     word_of_nat (unat x div 65536), word_of_nat (unat x div 16777216)]"

lemma length_bytes16 [simp]: "length (bytes16 x) = 2"
  by (simp add: bytes16_def)

lemma length_bytes32 [simp]: "length (bytes32 x) = 4"
  by (simp add: bytes32_def)

lemma unat_byte_of_nat: "unat (word_of_nat n :: byte) = n mod 256"
  by (simp add: unat_of_nat)

lemma unat_byte_of_word: "unat (ucast x :: byte) = unat x mod 256"
  by (simp add: unsigned_ucast_eq take_bit_eq_mod)

lemma unat_bound: "unat (x :: 'a :: len word) < 2 ^ LENGTH('a)"
  by (rule unsigned_less)

lemma unat_bound16: "unat (x :: u16) < 65536"
  using unat_bound [of x] by simp

lemma unat_bound32: "unat (x :: u32) < 4294967296"
  using unat_bound [of x] by simp

lemma digits256:
  "n < 4294967296 \<Longrightarrow>
     n mod 256 + 256 * (n div 256 mod 256) + 65536 * (n div 65536 mod 256)
       + 16777216 * (n div 16777216 mod 256) = (n :: nat)"
proof -
  assume n: "n < 4294967296"
  have d: "n div 65536 = n div 256 div 256" "n div 16777216 = n div 65536 div 256"
    by (simp_all add: div_mult2_eq [symmetric])
  have "n div 16777216 mod 256 = n div 16777216"
    using n by simp
  moreover have "n = n mod 256 + 256 * (n div 256)"
    "n div 256 = n div 256 mod 256 + 256 * (n div 65536)"
    "n div 65536 = n div 65536 mod 256 + 256 * (n div 16777216)"
    unfolding d by simp_all
  ultimately show ?thesis by linarith
qed

lemma le16_bytes16: "bytes16 x = [a, b] \<Longrightarrow> le16 a b = x"
proof -
  assume ab: "bytes16 x = [a, b]"
  have bound: "unat x < 65536"
    by (rule unat_bound16)
  from ab have "unat a = unat x mod 256" and "unat b = unat x div 256 mod 256"
    by (auto simp: bytes16_def unat_byte_of_nat unat_byte_of_word)
  with bound have "unat a + 256 * unat b = unat x"
    by (simp add: mod_mult2_eq [of _ 256 256, symmetric])
  then show ?thesis
    by (simp add: le16_def)
qed

lemma le32_bytes32: "bytes32 x = [a, b, c, d] \<Longrightarrow> le32 a b c d = x"
proof -
  assume abcd: "bytes32 x = [a, b, c, d]"
  have bound: "unat x < 4294967296"
    by (rule unat_bound32)
  from abcd have *: "unat a = unat x mod 256" "unat b = unat x div 256 mod 256"
      "unat c = unat x div 65536 mod 256" "unat d = unat x div 16777216 mod 256"
    by (auto simp: bytes32_def unat_byte_of_nat unat_byte_of_word)
  have "unat a + 256 * unat b + 65536 * unat c + 16777216 * unat d = unat x"
    unfolding * using bound digits256 [of "unat x"] by simp
  then show ?thesis
    by (simp add: le32_def)
qed

section \<open>Generic lemmas\<close>

lemma sint_small: "unat (x :: u32) < 2147483648 \<Longrightarrow> sint x = int (unat x)"
proof -
  assume "unat x < 2147483648"
  then have "int (unat x) < 2147483648" by linarith
  then have "uint x < 2147483648" by simp
  then have "signed_take_bit 31 (uint x) = uint x" by (intro signed_take_bit_int_eq_self) (simp_all add: order_trans [OF _ unsigned_greater_eq])
  then show ?thesis by (simp add: sint_uint)
qed

lemma bind_eq_Some_conv2:
  "Option.bind m f = Some y \<longleftrightarrow> (\<exists>x. m = Some x \<and> f x = Some y)"
  by (cases m) auto

lemma take_append_drop_eq:
  "n \<le> length xs \<Longrightarrow> take n (xs @ ys) @ drop n (xs @ ys) = xs @ ys"
  by simp

lemma concat_drop_while_nil: "concat (dropWhile (\<lambda>x. x = []) xs) = concat xs"
  by (induction xs) auto

lemma map_fst_filter_neq:
  "k \<notin> fst ` set xs \<Longrightarrow> filter (\<lambda>p. fst p = k) xs = []"
  by (auto simp: filter_empty_conv)

end
