(* ===== verification/XcbList.thy ===== *)
theory XcbList
  imports XcbPrelude
begin

text \<open>
  The list of void pointers of \<open>src/src/xcb_list.c\<close>: a singly linked list of heap nodes with a
  head pointer and a pointer to the slot that holds the terminating null. The model keeps
  the pointers: a node lives at an address of a partial heap, and a \<open>node **\<close> is a \<open>slot\<close>,
  either the \<open>head\<close> field of the map or the \<open>next\<close> field of a node. The abstract
  specification is an association list (\<open>al_put\<close>, \<open>al_remove\<close>); the locale \<open>reply_map\<close> states
  the contract the reading side relies on, and it is interpreted on the pointer
  implementation and on the association list.
\<close>

section \<open>The data structure\<close>

type_synonym addr = nat

record 'd node =
  nxt :: "addr option"
  key :: u32
  data :: 'd

datatype slot = HeadSlot | NextSlot addr

record 'd xcb_map =
  head :: "addr option"
  tail :: slot
  nodes :: "addr \<rightharpoonup> 'd node"

text \<open>Reading and writing through a \<open>node **\<close>; reading through a dangling one has no value.\<close>

definition read_slot :: "'d xcb_map \<Rightarrow> slot \<Rightarrow> addr option option" where
  "read_slot m sl = (case sl of HeadSlot \<Rightarrow> Some (head m)
     | NextSlot a \<Rightarrow> map_option nxt (nodes m a))"

definition write_slot :: "'d xcb_map \<Rightarrow> slot \<Rightarrow> addr option \<Rightarrow> 'd xcb_map option" where
  "write_slot m sl v = (case sl of HeadSlot \<Rightarrow> Some (m\<lparr>head := v\<rparr>)
     | NextSlot a \<Rightarrow> (case nodes m a of None \<Rightarrow> None
         | Some n \<Rightarrow> Some (m\<lparr>nodes := (nodes m)(a \<mapsto> n\<lparr>nxt := v\<rparr>)\<rparr>)))"

section \<open>The operations\<close>

text \<open>
  \<open>_xcb_map_new\<close>: the argument says whether \<open>malloc\<close> finds room for the map itself. The
  heap holds no node of this map yet.
\<close>

definition xcb_map_new :: "bool \<Rightarrow> 'd xcb_map option" where
  "xcb_map_new ok = (if ok then Some \<lparr>head = None, tail = HeadSlot, nodes = Map.empty\<rparr> else None)"

text \<open>
  \<open>_xcb_map_put\<close>: \<open>cur\<close> is the result of \<open>malloc\<close>, an address or null. The returned integer
  is 0 when the allocation failed.
\<close>

definition xcb_map_put ::
    "addr option \<Rightarrow> u32 \<Rightarrow> 'd \<Rightarrow> 'd xcb_map \<Rightarrow> (int \<times> 'd xcb_map) option" where
  "xcb_map_put cur k d m = (case cur of None \<Rightarrow> Some (0, m)
     | Some a \<Rightarrow>
         do {
           let m = m\<lparr>nodes := (nodes m)(a \<mapsto> \<lparr>nxt = None, key = k, data = d\<rparr>)\<rparr>;
           m \<leftarrow> write_slot m (tail m) (Some a);
           Some (1, m\<lparr>tail := NextSlot a\<rparr>)
         })"

text \<open>The \<open>for\<close> loop of \<open>_xcb_map_remove\<close>, from the slot \<open>cur\<close> on.\<close>

partial_function (option) map_remove_from ::
    "slot \<Rightarrow> u32 \<Rightarrow> 'd xcb_map \<Rightarrow> ('d option \<times> 'd xcb_map) option" where
  "map_remove_from cur k m =
     Option.bind (read_slot m cur) (\<lambda>p.
       case p of None \<Rightarrow> Some (None, m)
       | Some a \<Rightarrow>
           Option.bind (nodes m a) (\<lambda>n.
             if key n = k then
               Option.bind (write_slot m cur (nxt n)) (\<lambda>m1.
                 let m2 = (if nxt n = None then m1\<lparr>tail := cur\<rparr> else m1)
                 in Some (Some (data n), m2\<lparr>nodes := (nodes m2)(a := None)\<rparr>))
             else map_remove_from (NextSlot a) k m))"

definition xcb_map_remove :: "u32 \<Rightarrow> 'd xcb_map \<Rightarrow> ('d option \<times> 'd xcb_map) option" where
  "xcb_map_remove k m = map_remove_from HeadSlot k m"

text \<open>
  \<open>_xcb_map_delete\<close>: the result is the list of data pointers handed to \<open>do_free\<close> in order
  and the heap after the nodes are freed.
\<close>

partial_function (option) map_delete_loop ::
    "bool \<Rightarrow> 'd list \<Rightarrow> 'd xcb_map \<Rightarrow> ('d list \<times> 'd xcb_map) option" where
  "map_delete_loop do_free freed m =
     (case head m of None \<Rightarrow> Some (freed, m)
      | Some a \<Rightarrow>
          Option.bind (nodes m a) (\<lambda>n.
            map_delete_loop do_free (if do_free then freed @ [data n] else freed)
              (m\<lparr>head := nxt n, nodes := (nodes m)(a := None)\<rparr>)))"

definition xcb_map_delete ::
    "'d xcb_map option \<Rightarrow> bool \<Rightarrow> ('d list \<times> (addr \<rightharpoonup> 'd node)) option" where
  "xcb_map_delete list do_free = (case list of None \<Rightarrow> Some ([], Map.empty)
     | Some m \<Rightarrow> do { (freed, m) \<leftarrow> map_delete_loop do_free [] m; Some (freed, nodes m) })"

section \<open>The abstract specification\<close>

text \<open>An association list in insertion order; removal takes the oldest entry of a key.\<close>

definition al_put :: "u32 \<Rightarrow> 'd \<Rightarrow> (u32 \<times> 'd) list \<Rightarrow> (u32 \<times> 'd) list" where
  "al_put k d xs = xs @ [(k, d)]"

fun al_remove :: "u32 \<Rightarrow> (u32 \<times> 'd) list \<Rightarrow> 'd option \<times> (u32 \<times> 'd) list" where
  "al_remove k [] = (None, [])"
| "al_remove k ((k', d) # xs) =
     (if k' = k then (Some d, xs) else (let (r, ys) = al_remove k xs in (r, (k', d) # ys)))"

lemma al_remove_absent: "k \<notin> fst ` set xs \<Longrightarrow> al_remove k xs = (None, xs)"
  by (induction xs) (auto split: if_splits)

lemma al_remove_append_absent:
  "k \<notin> fst ` set xs \<Longrightarrow>
     al_remove k (xs @ ys) = (fst (al_remove k ys), xs @ snd (al_remove k ys))"
  by (induction xs) (auto split: prod.splits)

lemma al_remove_append_present:
  "k \<in> fst ` set xs \<Longrightarrow>
     al_remove k (xs @ ys) = (fst (al_remove k xs), snd (al_remove k xs) @ ys)"
  by (induction xs) (force split: prod.splits)+

lemma al_remove_None_iff: "fst (al_remove k xs) = None \<longleftrightarrow> k \<notin> fst ` set xs"
  by (induction k xs rule: al_remove.induct) (force split: prod.splits)+

lemma al_remove_other:
  "k' \<noteq> k \<Longrightarrow>
     filter (\<lambda>p. fst p = k') (snd (al_remove k xs)) = filter (\<lambda>p. fst p = k') xs"
  by (induction k xs rule: al_remove.induct) (auto split: prod.splits)

lemma al_remove_same:
  "map snd (filter (\<lambda>p. fst p = k) (snd (al_remove k xs))) =
     tl (map snd (filter (\<lambda>p. fst p = k) xs))"
  by (induction k xs rule: al_remove.induct) (auto split: prod.splits)

lemma al_remove_fst:
  "fst (al_remove k xs) =
     (case map snd (filter (\<lambda>p. fst p = k) xs) of [] \<Rightarrow> None | d # _ \<Rightarrow> Some d)"
  by (induction k xs rule: al_remove.induct) (auto split: prod.splits list.splits)

lemma set_al_remove: "set (snd (al_remove k xs)) \<subseteq> set xs"
  by (induction k xs rule: al_remove.induct) (auto split: prod.splits)

lemma distinct_al_remove:
  "distinct (map fst xs) \<Longrightarrow> distinct (map fst (snd (al_remove k xs)))"
proof (induction k xs rule: al_remove.induct)
  case (2 k k' d xs)
  then show ?case
    using set_al_remove [of k xs] by (fastforce split: prod.splits)
qed simp

lemma al_remove_distinct_notin:
  "distinct (map fst xs) \<Longrightarrow> k \<notin> fst ` set (snd (al_remove k xs))"
proof (induction k xs rule: al_remove.induct)
  case (2 k k' d xs)
  show ?case
  proof (cases "k' = k")
    case True
    with "2.prems" show ?thesis by simp
  next
    case False
    with "2.IH" "2.prems" have "k \<notin> fst ` set (snd (al_remove k xs))" by simp
    with False show ?thesis by (cases "al_remove k xs") simp
  qed
qed simp

section \<open>The representation relation\<close>

text \<open>
  \<open>path h sl xs\<close>: from the pointer value \<open>p\<close> the heap spells the entries \<open>xs\<close> (address,
  key, data) and ends in null. \<open>rep m xs\<close> adds that no node occurs twice and that the
  tail pointer is the slot of the terminating null.
\<close>

fun path :: "(addr \<rightharpoonup> 'd node) \<Rightarrow> addr option \<Rightarrow> (addr \<times> u32 \<times> 'd) list \<Rightarrow> bool" where
  "path h p [] \<longleftrightarrow> p = None"
| "path h p ((a, k, d) # xs) \<longleftrightarrow>
     p = Some a \<and> (\<exists>n. h a = Some n \<and> key n = k \<and> data n = d \<and> path h (nxt n) xs)"

definition last_slot :: "slot \<Rightarrow> (addr \<times> u32 \<times> 'd) list \<Rightarrow> slot" where
  "last_slot sl xs = (if xs = [] then sl else NextSlot (fst (last xs)))"

definition repa :: "'d xcb_map \<Rightarrow> (addr \<times> u32 \<times> 'd) list \<Rightarrow> bool" where
  "repa m xs \<longleftrightarrow> path (nodes m) (head m) xs \<and> distinct (map fst xs)
     \<and> tail m = last_slot HeadSlot xs \<and> dom (nodes m) = fst ` set xs"

definition rep :: "'d xcb_map \<Rightarrow> (u32 \<times> 'd) list \<Rightarrow> bool" where
  "rep m xs \<longleftrightarrow> (\<exists>as. repa m as \<and> xs = map snd as)"

lemma path_dom: "path h p xs \<Longrightarrow> fst ` set xs \<subseteq> dom h"
proof (induction xs arbitrary: p)
  case (Cons x xs)
  then show ?case by (cases x) fastforce
qed simp

lemma path_cong:
  "path h p xs \<Longrightarrow> (\<And>a. a \<in> fst ` set xs \<Longrightarrow> h' a = h a) \<Longrightarrow> path h' p xs"
  by (induction xs arbitrary: p) auto

lemma path_upd: "a \<notin> fst ` set xs \<Longrightarrow> path (h(a := v)) p xs = path h p xs"
  by (induction xs arbitrary: p) auto

lemma last_slot_Nil [simp]: "last_slot sl [] = sl"
  by (simp add: last_slot_def)

lemma last_slot_Cons: "last_slot sl ((a, x) # xs) = last_slot (NextSlot a) xs"
  by (auto simp: last_slot_def)

lemma last_slot_snoc [simp]: "last_slot sl (xs @ [(a, x)]) = NextSlot a"
  by (simp add: last_slot_def)

lemma path_relink_mid:
  assumes "path h p (xs @ [(b, kb, db)] @ zs)" and "distinct (map fst xs @ [b])"
    and "h b = Some n" and "h' b = Some (n\<lparr>nxt := q\<rparr>)" and "path h' q ys"
    and "\<And>c. c \<in> fst ` set xs \<Longrightarrow> h' c = h c"
  shows "path h' p (xs @ (b, kb, db) # ys)"
  using assms
proof (induction xs arbitrary: p)
  case Nil
  then show ?case by auto
next
  case (Cons x xs)
  obtain c kc dc where x: "x = (c, kc, dc)" by (cases x)
  from Cons.prems(1) x obtain nc where nc: "h c = Some nc" "key nc = kc" "data nc = dc"
      "p = Some c" and rest: "path h (nxt nc) (xs @ [(b, kb, db)] @ zs)"
    by auto
  have "path h' (nxt nc) (xs @ (b, kb, db) # ys)"
    using Cons.IH [OF rest] Cons.prems x by auto
  moreover have "h' c = Some nc"
    using Cons.prems(6) [of c] nc(1) x by simp
  ultimately show ?case
    using nc x by simp
qed

section \<open>The implementation refines the specification\<close>

lemma rep_new: "xcb_map_new True = Some m \<Longrightarrow> rep m []"
  by (auto simp: xcb_map_new_def rep_def repa_def)

lemma repa_put:
  assumes "repa m xs" and "a \<notin> dom (nodes m)"
  shows "\<exists>m'. xcb_map_put (Some a) k d m = Some (1, m') \<and> repa m' (xs @ [(a, k, d)])"
proof (cases xs rule: rev_cases)
  case Nil
  with assms show ?thesis
    by (auto simp: xcb_map_put_def repa_def write_slot_def last_slot_def)
next
  case (snoc ys y)
  obtain b kb db where y: "y = (b, kb, db)" by (cases y)
  from assms(1) snoc y have p: "path (nodes m) (head m) (ys @ [(b, kb, db)])"
    and dist: "distinct (map fst ys @ [b])" and tl: "tail m = NextSlot b"
    and dm: "dom (nodes m) = insert b (fst ` set ys)"
    by (auto simp: repa_def)
  from dm obtain n where n: "nodes m b = Some n" by blast
  have na: "a \<noteq> b" "a \<notin> fst ` set ys" using assms(2) dm by auto
  let ?h = "(nodes m)(a \<mapsto> \<lparr>nxt = None, key = k, data = d\<rparr>, b \<mapsto> n\<lparr>nxt := Some a\<rparr>)"
  have "path ?h (head m) (ys @ (b, kb, db) # [(a, k, d)])"
    by (rule path_relink_mid [where h = "nodes m" and zs = "[]"]) (use p n na dist in auto)
  moreover have "xcb_map_put (Some a) k d m = Some (1, m\<lparr>nodes := ?h, tail := NextSlot a\<rparr>)"
    using tl n na by (simp add: xcb_map_put_def write_slot_def)
  moreover have "dom ?h = fst ` set (xs @ [(a, k, d)])"
    using dm snoc y by auto
  ultimately show ?thesis
    using snoc y dist na by (auto simp: repa_def last_slot_def)
qed

lemma repa_put_failed: "xcb_map_put None k d m = Some (0, m)"
  by (simp add: xcb_map_put_def)

text \<open>
  The removal loop, started at any slot of the list: the suffix from that slot loses its
  first entry with the key, and the slots before it stay as they are.
\<close>

lemma path_mid:
  "path h p (xs @ (a, k, d) # ys) \<Longrightarrow> \<exists>n. h a = Some n \<and> key n = k \<and> data n = d \<and> path h (nxt n) ys"
  by (induction xs arbitrary: p) auto

lemma path_start: "path h p xs \<Longrightarrow> p = (case xs of [] \<Rightarrow> None | x # _ \<Rightarrow> Some (fst x))"
  by (cases xs) auto

lemma read_slot_last:
  assumes "repa m (xs @ ys)"
  shows "read_slot m (last_slot HeadSlot xs) = Some (case ys of [] \<Rightarrow> None | y # _ \<Rightarrow> Some (fst y))"
proof (cases xs rule: rev_cases)
  case Nil
  with assms have "path (nodes m) (head m) ys" by (simp add: repa_def)
  then have "head m = (case ys of [] \<Rightarrow> None | y # _ \<Rightarrow> Some (fst y))"
    by (rule path_start)
  with Nil show ?thesis by (simp add: read_slot_def)
next
  case (snoc zs z)
  obtain a k d where z: "z = (a, k, d)" by (cases z)
  from assms snoc z have "path (nodes m) (head m) (zs @ (a, k, d) # ys)"
    by (simp add: repa_def)
  from path_mid [OF this] obtain n where n: "nodes m a = Some n" and "path (nodes m) (nxt n) ys"
    by blast
  from this(2) have "nxt n = (case ys of [] \<Rightarrow> None | y # _ \<Rightarrow> Some (fst y))"
    by (rule path_start)
  then show ?thesis
    using snoc z n by (simp add: read_slot_def)
qed


lemma repa_next:
  assumes "repa m (xs @ (a, k, d) # ys)"
  obtains n where "nodes m a = Some n" and "key n = k" and "data n = d"
    and "nxt n = (case ys of [] \<Rightarrow> None | y # _ \<Rightarrow> Some (fst y))" and "path (nodes m) (nxt n) ys"
proof -
  from assms have "path (nodes m) (head m) (xs @ (a, k, d) # ys)"
    by (simp add: repa_def)
  from path_mid [OF this] obtain n where
    "nodes m a = Some n" "key n = k" "data n = d" and p: "path (nodes m) (nxt n) ys"
    by blast
  moreover from p have "nxt n = (case ys of [] \<Rightarrow> None | y # _ \<Rightarrow> Some (fst y))"
    by (rule path_start)
  ultimately show thesis using that by blast
qed

text \<open>Unlinking the node after a slot: the code's assignment through \<open>cur\<close>, then \<open>free\<close>.\<close>

lemma repa_unlink:
  assumes r: "repa m (xs @ (a, k, d) # ys)" and n: "nodes m a = Some n"
  shows "\<exists>m1. write_slot m (last_slot HeadSlot xs) (nxt n) = Some m1
     \<and> repa ((if nxt n = None then m1\<lparr>tail := last_slot HeadSlot xs\<rparr> else m1)
               \<lparr>nodes := (nodes m1)(a := None)\<rparr>) (xs @ ys)"
proof -
  from r obtain n' where n': "nodes m a = Some n'"
      "nxt n' = (case ys of [] \<Rightarrow> None | y # _ \<Rightarrow> Some (fst y))" "path (nodes m) (nxt n') ys"
    by (rule repa_next)
  with n have nx: "nxt n = (case ys of [] \<Rightarrow> None | y # _ \<Rightarrow> Some (fst y))"
    and py: "path (nodes m) (nxt n) ys" by auto
  from r have p: "path (nodes m) (head m) (xs @ (a, k, d) # ys)"
    and dist: "distinct (map fst (xs @ (a, k, d) # ys))"
    and tl: "tail m = last_slot HeadSlot (xs @ (a, k, d) # ys)"
    and dm: "dom (nodes m) = insert a (fst ` set (xs @ ys))"
    by (auto simp: repa_def)
  have ays: "a \<notin> fst ` set ys" and axs: "a \<notin> fst ` set xs"
    using dist by auto
  have tl_ys: "ys \<noteq> [] \<Longrightarrow> tail m = last_slot HeadSlot (xs @ ys)"
    using tl by (simp add: last_slot_def)
  show ?thesis
  proof (cases xs rule: rev_cases)
    case Nil
    have "path ((nodes m)(a := None)) (nxt n) ys"
      using py ays by (simp add: path_upd)
    then show ?thesis
      using Nil dist dm nx tl_ys ays
      by (cases ys) (auto simp: write_slot_def repa_def last_slot_def)
  next
    case (snoc zs z)
    obtain b kb db where z: "z = (b, kb, db)" by (cases z)
    from dm snoc z obtain nb where nb: "nodes m b = Some nb" by auto
    have ab: "a \<noteq> b" using axs snoc z by auto
    let ?h = "(nodes m)(b \<mapsto> nb\<lparr>nxt := nxt n\<rparr>, a := None)"
    have bzs: "b \<notin> fst ` set zs" "b \<notin> fst ` set ys" and azs: "a \<notin> fst ` set zs"
      using dist snoc z axs by auto
    have "path ?h (nxt n) ys"
      using py ays bzs by (simp add: path_upd)
    moreover have "path (nodes m) (head m) (zs @ [(b, kb, db)] @ (a, k, d) # ys)"
      using p snoc z by simp
    ultimately have pth: "path ?h (head m) (zs @ (b, kb, db) # ys)"
      by (intro path_relink_mid [where h = "nodes m"]) (use nb ab dist snoc z azs bzs in auto)
    have "write_slot m (last_slot HeadSlot xs) (nxt n) =
            Some (m\<lparr>nodes := (nodes m)(b \<mapsto> nb\<lparr>nxt := nxt n\<rparr>)\<rparr>)"
      using snoc z nb by (simp add: write_slot_def)
    then show ?thesis
      using snoc z pth dist dm nx tl_ys ab
      by (cases ys) (auto simp: repa_def last_slot_def)
  qed
qed

text \<open>The loop itself, by induction on the entries still ahead of the slot.\<close>

lemma map_remove_from_repa:
  assumes "repa m (xs @ ys)"
  shows "\<exists>m' zs. map_remove_from (last_slot HeadSlot xs) k m = Some (fst (al_remove k (map snd ys)), m')
     \<and> repa m' (xs @ zs) \<and> map snd zs = snd (al_remove k (map snd ys))"
  using assms
proof (induction ys arbitrary: xs)
  case Nil
  then have "read_slot m (last_slot HeadSlot xs) = Some None"
    using read_slot_last [of m xs "[]"] by simp
  with Nil show ?case
    by (subst map_remove_from.simps) auto
next
  case (Cons y ys)
  obtain a ky d where y: "y = (a, ky, d)" by (cases y)
  from Cons.prems y have r: "repa m (xs @ (a, ky, d) # ys)" by simp
  then have rs: "read_slot m (last_slot HeadSlot xs) = Some (Some a)"
    using read_slot_last [OF r] by simp
  from r obtain n where n: "nodes m a = Some n" "key n = ky" "data n = d"
    by (rule repa_next)
  show ?case
  proof (cases "ky = k")
    case True
    obtain m1 where m1: "write_slot m (last_slot HeadSlot xs) (nxt n) = Some m1"
      and r1: "repa ((if nxt n = None then m1\<lparr>tail := last_slot HeadSlot xs\<rparr> else m1)
               \<lparr>nodes := (nodes m1)(a := None)\<rparr>) (xs @ ys)"
      using repa_unlink [OF r n(1)] by blast
    have "map_remove_from (last_slot HeadSlot xs) k m = Some (Some d,
       (if nxt n = None then m1\<lparr>tail := last_slot HeadSlot xs\<rparr> else m1)
               \<lparr>nodes := (nodes m1)(a := None)\<rparr>)"
      by (subst map_remove_from.simps) (auto simp: rs n m1 True Let_def)
    with r1 y True show ?thesis by auto
  next
    case False
    have "repa m ((xs @ [(a, ky, d)]) @ ys)" using r by simp
    from Cons.IH [OF this] obtain m' zs where
      step: "map_remove_from (NextSlot a) k m = Some (fst (al_remove k (map snd ys)), m')"
      and r': "repa m' (xs @ (a, ky, d) # zs)" and zs: "map snd zs = snd (al_remove k (map snd ys))"
      by auto
    have "map_remove_from (last_slot HeadSlot xs) k m = Some (fst (al_remove k (map snd ys)), m')"
      by (subst map_remove_from.simps) (simp add: rs n False step)
    moreover have "al_remove k (map snd (y # ys)) =
        (fst (al_remove k (map snd ys)), (ky, d) # snd (al_remove k (map snd ys)))"
      using y False by (simp split: prod.split)
    ultimately show ?thesis
      using r' zs by (intro exI [of _ m'] exI [of _ "(a, ky, d) # zs"]) simp
  qed
qed

lemma rep_remove:
  assumes "rep m xs"
  shows "\<exists>m'. xcb_map_remove k m = Some (fst (al_remove k xs), m') \<and> rep m' (snd (al_remove k xs))"
proof -
  from assms obtain as where r: "repa m ([] @ as)" and xs: "xs = map snd as"
    by (auto simp: rep_def)
  from map_remove_from_repa [OF r, of k] obtain m' zs where
    "map_remove_from HeadSlot k m = Some (fst (al_remove k xs), m')"
    and "repa m' zs" and "map snd zs = snd (al_remove k xs)"
    using xs by auto
  then show ?thesis
    unfolding xcb_map_remove_def rep_def by metis
qed

lemma rep_put:
  assumes "rep m xs" and "a \<notin> dom (nodes m)"
  shows "\<exists>m'. xcb_map_put (Some a) k d m = Some (1, m') \<and> rep m' (al_put k d xs)"
proof -
  from assms(1) obtain as where r: "repa m as" and xs: "xs = map snd as"
    by (auto simp: rep_def)
  from repa_put [OF r assms(2), of k d] xs show ?thesis
    by (fastforce simp: rep_def al_put_def)
qed

text \<open>Deletion visits every node once, in order, and leaves no node allocated.\<close>

lemma map_delete_loop_path:
  assumes "path (nodes m) (head m) xs" and "distinct (map fst xs)"
  shows "\<exists>m'. map_delete_loop df fr m = Some (if df then fr @ map (snd \<circ> snd) xs else fr, m')
     \<and> nodes m' = (\<lambda>a. if a \<in> fst ` set xs then None else nodes m a)"
  using assms
proof (induction xs arbitrary: m fr)
  case Nil
  then show ?case by (subst map_delete_loop.simps) auto
next
  case (Cons x xs)
  obtain a k d where x: "x = (a, k, d)" by (cases x)
  from Cons.prems(1) x obtain n where n: "head m = Some a" "nodes m a = Some n" "data n = d"
    and p: "path (nodes m) (nxt n) xs" by auto
  let ?m = "m\<lparr>head := nxt n, nodes := (nodes m)(a := None)\<rparr>"
  have "path (nodes ?m) (head ?m) xs" "distinct (map fst xs)"
    using p Cons.prems(2) x by (simp_all add: path_upd)
  from Cons.IH [OF this, of "if df then fr @ [d] else fr"] obtain m' where
    "map_delete_loop df (if df then fr @ [d] else fr) ?m =
       Some (if df then (fr @ [d]) @ map (snd \<circ> snd) xs else fr, m')"
    "nodes m' = (\<lambda>b. if b \<in> fst ` set xs then None else nodes ?m b)"
    by (auto split: if_splits)
  then show ?case
    using n x by (subst map_delete_loop.simps) (auto simp: fun_eq_iff)
qed

lemma rep_delete:
  assumes "rep m xs"
  shows "xcb_map_delete (Some m) True = Some (map snd xs, Map.empty)"
proof -
  from assms obtain as where r: "repa m as" and xs: "xs = map snd as"
    by (auto simp: rep_def)
  from r have "path (nodes m) (head m) as" and "distinct (map fst as)"
    and dm: "dom (nodes m) = fst ` set as"
    by (auto simp: repa_def)
  from map_delete_loop_path [OF this(1,2), of True "[]"] obtain m' where
    "map_delete_loop True [] m = Some (map (snd \<circ> snd) as, m')"
    "nodes m' = (\<lambda>a. if a \<in> fst ` set as then None else nodes m a)"
    by auto
  moreover have "(\<lambda>a. if a \<in> fst ` set as then None else nodes m a) = Map.empty"
    using dm by (auto simp: fun_eq_iff dom_def)
  ultimately show ?thesis
    using xs by (simp add: xcb_map_delete_def)
qed

section \<open>The interface its client sees\<close>

text \<open>
  \<open>reply_map\<close> is the contract of \<open>_xcb_map_put\<close> and \<open>_xcb_map_remove\<close>: with an allocation that
  \<open>fits\<close>, a put appends an entry; a remove returns and drops the oldest entry of the key.
\<close>

locale reply_map =
  fixes repr :: "'m \<Rightarrow> (u32 \<times> 'd) list \<Rightarrow> bool"
    and fits :: "'a \<Rightarrow> 'm \<Rightarrow> bool"
    and put :: "'a \<Rightarrow> u32 \<Rightarrow> 'd \<Rightarrow> 'm \<Rightarrow> (int \<times> 'm) option"
    and remove :: "u32 \<Rightarrow> 'm \<Rightarrow> ('d option \<times> 'm) option"
  assumes put_law: "repr m xs \<Longrightarrow> fits a m \<Longrightarrow>
      \<exists>m'. put a k d m = Some (1, m') \<and> repr m' (al_put k d xs)"
    and remove_law: "repr m xs \<Longrightarrow>
      \<exists>m'. remove k m = Some (fst (al_remove k xs), m') \<and> repr m' (snd (al_remove k xs))"
begin

lemma put_then_remove:
  assumes "repr m xs" and "fits a m" and "k \<notin> fst ` set xs"
  shows "\<exists>m1 m2. put a k d m = Some (1, m1) \<and> remove k m1 = Some (Some d, m2) \<and> repr m2 xs"
proof -
  from put_law [OF assms(1,2)] obtain m1 where m1: "put a k d m = Some (1, m1)"
    and r1: "repr m1 (al_put k d xs)" by blast
  from assms(3) have "al_remove k (al_put k d xs) = (Some d, xs)"
    by (simp add: al_put_def al_remove_append_absent)
  with remove_law [OF r1, of k] m1 show ?thesis by auto
qed

end

text \<open>A client's run of puts and removes, with the values the removes return.\<close>

datatype 'd map_op = Put u32 'd | Remove u32

fun map_run :: "('m \<Rightarrow> 'a) \<Rightarrow> ('a \<Rightarrow> u32 \<Rightarrow> 'd \<Rightarrow> 'm \<Rightarrow> (int \<times> 'm) option) \<Rightarrow>
    (u32 \<Rightarrow> 'm \<Rightarrow> ('d option \<times> 'm) option) \<Rightarrow> 'd map_op list \<Rightarrow> 'm \<Rightarrow> ('d option list \<times> 'm) option" where
  "map_run alloc put remove [] m = Some ([], m)"
| "map_run alloc put remove (Put k d # ops) m =
     Option.bind (put (alloc m) k d m) (\<lambda>(_, m). map_run alloc put remove ops m)"
| "map_run alloc put remove (Remove k # ops) m =
     Option.bind (remove k m) (\<lambda>(r, m).
       Option.bind (map_run alloc put remove ops m) (\<lambda>(rs, m). Some (r # rs, m)))"

text \<open>What the run returns on the specification.\<close>

fun al_run :: "'d map_op list \<Rightarrow> (u32 \<times> 'd) list \<Rightarrow> 'd option list \<times> (u32 \<times> 'd) list" where
  "al_run [] xs = ([], xs)"
| "al_run (Put k d # ops) xs = al_run ops (al_put k d xs)"
| "al_run (Remove k # ops) xs =
     (let (r, ys) = al_remove k xs; (rs, zs) = al_run ops ys in (r # rs, zs))"

locale reply_map_alloc = reply_map +
  fixes alloc
  assumes alloc_fits: "repr m xs \<Longrightarrow> fits (alloc m) m"
begin

lemma run_refines:
  "repr m xs \<Longrightarrow>
     \<exists>m'. map_run alloc put remove ops m = Some (fst (al_run ops xs), m') \<and> repr m' (snd (al_run ops xs))"
proof (induction ops arbitrary: m xs)
  case Nil
  then show ?case by simp
next
  case (Cons op ops)
  show ?case
  proof (cases op)
    case (Put k d)
    from put_law [OF Cons.prems alloc_fits [OF Cons.prems], of k d] Cons.IH show ?thesis
      by (fastforce simp: Put)
  next
    case (Remove k)
    from remove_law [OF Cons.prems, of k] obtain m1 where
      m1: "remove k m = Some (fst (al_remove k xs), m1)" and r1: "repr m1 (snd (al_remove k xs))"
      by blast
    from Cons.IH [OF r1] obtain m2 where
      "map_run alloc put remove ops m1 = Some (fst (al_run ops (snd (al_remove k xs))), m2)"
      "repr m2 (snd (al_run ops (snd (al_remove k xs))))"
      by blast
    with m1 show ?thesis
      by (cases "al_remove k xs"; cases "al_run ops (snd (al_remove k xs))") (simp add: Remove)
  qed
qed

end

text \<open>The pointer implementation provides the contract.\<close>

definition node_fits :: "addr option \<Rightarrow> 'd xcb_map \<Rightarrow> bool" where
  "node_fits cur m = (case cur of None \<Rightarrow> False | Some a \<Rightarrow> nodes m a = None)"

interpretation hm: reply_map rep node_fits xcb_map_put xcb_map_remove
proof
  fix m :: "'d xcb_map" and xs a k d
  assume "rep m xs" and "node_fits a m"
  then show "\<exists>m'. xcb_map_put a k d m = Some (1, m') \<and> rep m' (al_put k d xs)"
    by (cases a) (auto simp: node_fits_def dom_def intro: rep_put)
next
  fix m :: "'d xcb_map" and xs k
  assume "rep m xs"
  then show "\<exists>m'. xcb_map_remove k m = Some (fst (al_remove k xs), m') \<and> rep m' (snd (al_remove k xs))"
    by (rule rep_remove)
qed

text \<open>
  An allocator that never runs out: the least free address. Only finitely many addresses are
  taken, since they are the nodes of the list.
\<close>

definition first_free :: "'d xcb_map \<Rightarrow> addr option" where
  "first_free m = Some (LEAST a. nodes m a = None)"

lemma rep_finite: "rep m xs \<Longrightarrow> finite (dom (nodes m))"
  by (auto simp: rep_def repa_def)

lemma first_free_fits: "rep m xs \<Longrightarrow> node_fits (first_free m) m"
proof -
  assume "rep m xs"
  then have "finite (dom (nodes m))" by (rule rep_finite)
  then obtain a where "a \<notin> dom (nodes m)"
    using ex_new_if_finite infinite_UNIV_nat by blast
  then have "nodes m a = None" by auto
  then have "nodes m (LEAST a. nodes m a = None) = None" by (rule LeastI)
  then show ?thesis by (simp add: node_fits_def first_free_def)
qed

interpretation hma: reply_map_alloc rep node_fits xcb_map_put xcb_map_remove first_free
  by unfold_locales (rule first_free_fits)

text \<open>
  The reading side keeps the map at the level of the specification; the two functions below
  are what its calls do there, with \<open>ok\<close> the outcome of the allocation.
\<close>

definition al_map_put :: "bool \<Rightarrow> u32 \<Rightarrow> 'd \<Rightarrow> (u32 \<times> 'd) list \<Rightarrow> (int \<times> (u32 \<times> 'd) list) option" where
  "al_map_put ok k d xs = Some (if ok then (1, al_put k d xs) else (0, xs))"

definition al_map_remove :: "u32 \<Rightarrow> (u32 \<times> 'd) list \<Rightarrow> ('d option \<times> (u32 \<times> 'd) list) option" where
  "al_map_remove k xs = Some (al_remove k xs)"

interpretation am: reply_map "(=)" "\<lambda>ok _. ok" al_map_put al_map_remove
  by unfold_locales (auto simp: al_map_put_def al_map_remove_def)

interpretation ama: reply_map_alloc "(=)" "\<lambda>ok _. ok" al_map_put al_map_remove "\<lambda>_. True"
  by unfold_locales auto

section \<open>Properties\<close>

text \<open>
  C20: Refinement of the pointer list. Any sequence of \<open>_xcb_map_put\<close> and \<open>_xcb_map_remove\<close>
  calls on a list that represents the association list \<open>xs\<close> runs without touching a dangling
  pointer, returns exactly what the association list returns (each remove the oldest entry of
  its key, null when there is none), and ends in a well-formed list (tail pointer included)
  that represents the resulting association list.
\<close>

theorem map_ops_refine:
  assumes "rep m xs"
  shows "\<exists>m'. map_run first_free xcb_map_put xcb_map_remove ops m = Some (fst (al_run ops xs), m')
     \<and> rep m' (snd (al_run ops xs))"
  using assms by (rule hma.run_refines)

theorem map_ops_refine_witness:
  "\<exists>m m'. xcb_map_new True = Some m \<and>
     map_run first_free xcb_map_put xcb_map_remove
       [Put 7 ''a'', Put 8 ''b'', Put 7 ''c'', Remove 7, Remove 8, Remove 9, Put 9 ''d'', Remove 7] m
       = Some ([Some ''a'', Some ''b'', None, Some ''c''], m') \<and> rep m' [(9, ''d'')]"
proof -
  let ?m = "\<lparr>head = None, tail = HeadSlot, nodes = Map.empty\<rparr> :: string xcb_map"
  let ?ops = "[Put 7 ''a'', Put 8 ''b'', Put 7 ''c'', Remove 7, Remove 8, Remove 9, Put 9 ''d'', Remove 7]"
  have new: "xcb_map_new True = Some ?m" by (simp add: xcb_map_new_def)
  have "al_run ?ops [] = ([Some ''a'', Some ''b'', None, Some ''c''], [(9, ''d'')])"
    by (simp add: al_put_def)
  with map_ops_refine [OF rep_new [OF new], of ?ops] new show ?thesis by auto
qed

text \<open>
  C21: \<open>_xcb_map_delete\<close> hands every stored data pointer to \<open>do_free\<close> exactly once, oldest first,
  and frees every node: nothing of the list stays allocated.
\<close>

theorem map_delete_frees_all:
  assumes "rep m xs"
  shows "xcb_map_delete (Some m) True = Some (map snd xs, Map.empty)"
  using assms by (rule rep_delete)

theorem map_delete_frees_all_witness:
  "\<exists>m. rep m [(3, ''x'')] \<and> xcb_map_delete (Some m) True = Some ([''x''], Map.empty)"
proof -
  let ?m = "\<lparr>head = Some 0, tail = NextSlot 0,
     nodes = [0 \<mapsto> \<lparr>nxt = None, key = 3, data = ''x''\<rparr>]\<rparr> :: string xcb_map"
  have "repa ?m [(0, 3, ''x'')]" by (simp add: repa_def last_slot_def)
  then have r: "rep ?m [(3, ''x'')]" by (auto simp: rep_def)
  from map_delete_frees_all [OF r] r show ?thesis by auto
qed

end
