(* ===== verification/XcbSeq.thy ===== *)
theory XcbSeq
  imports XcbPrelude
begin

text \<open>
  The macros of \<open>src/src/xcbint.h\<close> and \<open>src/src/xcb.h\<close> on sequence numbers and padding, and the
  two places where a short sequence number is widened again: the 16 bits of a packet header
  (in \<open>read_packet\<close>) and the 32 bits of a cookie (in \<open>xcb_wait_for_reply\<close> and
  \<open>discard_reply\<close>). Comparisons are modular: they read the difference as a signed number, so
  they agree with the order of the unbounded request counter as long as the two numbers are
  less than half the range apart.
\<close>

section \<open>Definitions\<close>

definition XCB_PAD :: "'a :: len word \<Rightarrow> 'a word" where
  "XCB_PAD i = (- i) AND 3"

definition XCB_TYPE_PAD :: "nat \<Rightarrow> 'a :: len word \<Rightarrow> 'a word" where
  "XCB_TYPE_PAD sizeof_T i = (- i) AND (if sizeof_T > 4 then 3 else word_of_nat sizeof_T - 1)"

definition XCB_SEQUENCE_COMPARE :: "u64 \<Rightarrow> (int \<Rightarrow> int \<Rightarrow> bool) \<Rightarrow> u64 \<Rightarrow> bool" where
  "XCB_SEQUENCE_COMPARE a cmp b = cmp (sint (a - b)) 0"

text \<open>
  The operands are cast to \<open>int\<close> first, so a 64 bit counter is cut to its low half; the
  difference wraps at 32 bits.
\<close>

definition XCB_SEQUENCE_COMPARE_32 ::
    "'a :: len word \<Rightarrow> (int \<Rightarrow> int \<Rightarrow> bool) \<Rightarrow> 'b :: len word \<Rightarrow> bool" where
  "XCB_SEQUENCE_COMPARE_32 a cmp b = cmp (sint ((ucast a :: u32) - (ucast b :: u32))) 0"

text \<open>The full sequence number of a packet, from the last one read and the 16 bits it carries.\<close>

definition widen_sequence :: "u64 \<Rightarrow> u16 \<Rightarrow> u64" where
  "widen_sequence lastread sequence =
     (let request_read = (lastread AND 0xffffffffffff0000) OR ucast sequence
      in if XCB_SEQUENCE_COMPARE request_read (<) lastread then request_read + 0x10000
         else request_read)"

text \<open>The full sequence number of a request, from the last one sent and the 32 bits of a cookie.\<close>

definition widen_request :: "u64 \<Rightarrow> u32 \<Rightarrow> u64" where
  "widen_request out_request request =
     (let widened_request = (out_request AND 0xffffffff00000000) OR ucast request
      in if widened_request > out_request then widened_request - 0x100000000
         else widened_request)"

section \<open>Comparisons as integer facts\<close>

lemma sint_diff_near:
  fixes a b :: "'a :: len word"
  assumes "- (2 ^ (LENGTH('a) - 1)) \<le> d" and "d < 2 ^ (LENGTH('a) - 1)"
    and "a - b = word_of_int d"
  shows "sint (a - b) = d"
proof -
  have "sint (word_of_int d :: 'a word) = signed_take_bit (LENGTH('a) - 1) d"
    by (simp add: signed_of_int)
  also have "\<dots> = d"
    using assms(1,2) by (simp add: signed_take_bit_int_eq_self)
  finally show ?thesis using assms(3) by simp
qed

lemma sint_diff_uint:
  fixes a b :: "'a :: len word"
  assumes "uint a - uint b < 2 ^ (LENGTH('a) - 1)"
    and "- (2 ^ (LENGTH('a) - 1)) \<le> uint a - uint b"
  shows "sint (a - b) = uint a - uint b"
  using assms(2,1) by (rule sint_diff_near) simp

text \<open>Counters below half the range compare as the natural numbers they hold.\<close>

definition low_half :: "u64 \<Rightarrow> bool" where
  "low_half x \<longleftrightarrow> unat x < 2 ^ 63"

lemma low_half_uint: "low_half x \<Longrightarrow> uint x < 2 ^ 63"
  unfolding low_half_def by (metis of_nat_less_iff of_nat_numeral of_nat_power uint_nat)

lemma sint_diff_low_half:
  assumes "low_half a" and "low_half b"
  shows "sint (a - b) = uint a - uint b"
proof -
  have "0 \<le> uint a" "0 \<le> uint b" by simp_all
  with low_half_uint [OF assms(1)] low_half_uint [OF assms(2)]
  have "uint a - uint b < 2 ^ 63" "- (2 ^ 63) \<le> uint a - uint b" by linarith+
  then show ?thesis by (intro sint_diff_uint) simp_all
qed

lemma seq_less [seq_simps]:
  "low_half a \<Longrightarrow> low_half b \<Longrightarrow> XCB_SEQUENCE_COMPARE a (<) b \<longleftrightarrow> a < b"
  by (simp add: XCB_SEQUENCE_COMPARE_def sint_diff_low_half word_less_def)

lemma seq_le [seq_simps]:
  "low_half a \<Longrightarrow> low_half b \<Longrightarrow> XCB_SEQUENCE_COMPARE a (\<le>) b \<longleftrightarrow> a \<le> b"
  by (simp add: XCB_SEQUENCE_COMPARE_def sint_diff_low_half word_le_def)

lemma seq_greater [seq_simps]:
  "low_half a \<Longrightarrow> low_half b \<Longrightarrow> XCB_SEQUENCE_COMPARE a (>) b \<longleftrightarrow> b < a"
  by (simp add: XCB_SEQUENCE_COMPARE_def sint_diff_low_half word_less_def)

lemma seq_ge [seq_simps]:
  "low_half a \<Longrightarrow> low_half b \<Longrightarrow> XCB_SEQUENCE_COMPARE a (\<ge>) b \<longleftrightarrow> b \<le> a"
  by (simp add: XCB_SEQUENCE_COMPARE_def sint_diff_low_half word_le_def)

lemma seq_le_refl [simp]: "XCB_SEQUENCE_COMPARE a (\<le>) a"
  by (simp add: XCB_SEQUENCE_COMPARE_def)

lemma seq_less_irrefl [simp]: "\<not> XCB_SEQUENCE_COMPARE a (<) a"
  by (simp add: XCB_SEQUENCE_COMPARE_def)

lemma seq_ge_refl [simp]: "XCB_SEQUENCE_COMPARE a (\<ge>) a"
  by (simp add: XCB_SEQUENCE_COMPARE_def)

lemma sint_eq_0: "sint (w :: 'a :: len word) = 0 \<longleftrightarrow> w = 0"
  by (metis sint_0 scast_eq scast_id word_of_int_0)

lemma seq32_eq [seq_simps]:
  "XCB_SEQUENCE_COMPARE_32 a (=) b \<longleftrightarrow> (ucast a :: u32) = ucast b"
  by (simp add: XCB_SEQUENCE_COMPARE_32_def sint_eq_0)

lemma seq32_less_irrefl: "(ucast a :: u32) = ucast b \<Longrightarrow> \<not> XCB_SEQUENCE_COMPARE_32 a (<) b"
  by (simp add: XCB_SEQUENCE_COMPARE_32_def)

lemma seq32_le_refl: "(ucast a :: u32) = ucast b \<Longrightarrow> XCB_SEQUENCE_COMPARE_32 a (\<le>) b"
  by (simp add: XCB_SEQUENCE_COMPARE_32_def)

lemma seq32_le_iff:
  "XCB_SEQUENCE_COMPARE_32 a (\<le>) b \<longleftrightarrow>
     XCB_SEQUENCE_COMPARE_32 a (<) b \<or> (ucast a :: u32) = ucast b"
  by (auto simp: XCB_SEQUENCE_COMPARE_32_def le_less sint_eq_0)

text \<open>Counters less than \<open>2 ^ 31\<close> apart compare as numbers although only the low halves are looked at.\<close>

definition near32 :: "u64 \<Rightarrow> u64 \<Rightarrow> bool" where
  "near32 a b \<longleftrightarrow> unat a < unat b + 2 ^ 31 \<and> unat b < unat a + 2 ^ 31"

lemma sint_diff_near32:
  assumes "near32 a b"
  shows "sint ((ucast a :: u32) - ucast b) = uint a - uint b"
proof -
  have ua: "uint a = int (unat a)" "uint b = int (unat b)" by simp_all
  have "unat a < unat b + 2147483648" "unat b < unat a + 2147483648"
    using assms by (simp_all add: near32_def)
  then have "uint a - uint b < 2147483648" "- 2147483648 \<le> uint a - uint b"
    unfolding ua by linarith+
  moreover have "(ucast a :: u32) - ucast b = word_of_int (uint a - uint b)"
    by (simp only: ucast_eq of_int_diff)
  ultimately show ?thesis by (intro sint_diff_near) simp_all
qed

lemma ucast32_id: "(ucast (x :: u32) :: u32) = x"
  by (simp add: ucast_eq)

lemma seq32_greater_near:
  "near32 a b \<Longrightarrow> XCB_SEQUENCE_COMPARE_32 a (>) (ucast b :: u32) \<longleftrightarrow> b < a"
  by (simp add: XCB_SEQUENCE_COMPARE_32_def ucast32_id sint_diff_near32 word_less_def)

lemma seq32_eq_near:
  assumes "near32 a b"
  shows "XCB_SEQUENCE_COMPARE_32 a (=) (ucast b :: u32) \<longleftrightarrow> a = b"
  using assms
  by (auto simp: XCB_SEQUENCE_COMPARE_32_def ucast32_id sint_diff_near32 dest: unsigned_word_eqI)

lemma seq32_less_near:
  "near32 a b \<Longrightarrow> XCB_SEQUENCE_COMPARE_32 (ucast a :: u32) (<) b \<longleftrightarrow> a < b"
  by (simp add: XCB_SEQUENCE_COMPARE_32_def ucast32_id sint_diff_near32 word_less_def)

section \<open>High part and low part of a counter\<close>

lemma nat_or_low: "y < 2 ^ n \<Longrightarrow> (push_bit n q) OR y = push_bit n q + (y :: nat)"
proof -
  assume "y < 2 ^ n"
  then have y: "take_bit n y = y" by (simp add: take_bit_nat_eq_self)
  have "push_bit n q AND take_bit n y = 0"
    by (rule bit_eqI) (auto simp: bit_simps)
  then show ?thesis
    using disjunctive_add_eq_or [of "push_bit n q" "take_bit n y"] y by simp
qed

lemma and_not_mask_eq: "x AND NOT (mask n) = push_bit n (drop_bit n (x :: 'a :: len word))"
  by (rule bit_eqI) (auto simp: bit_simps)

lemma unat_high_or_low:
  fixes x y :: "'a :: len word"
  assumes "unat y < 2 ^ n" and "n < LENGTH('a)"
  shows "unat ((x AND NOT (mask n)) OR y) = unat x div 2 ^ n * 2 ^ n + unat y"
proof -
  have "unat (x AND NOT (mask n)) = push_bit n (drop_bit n (unat x))"
  proof -
    have "push_bit n (drop_bit n (unat x)) \<le> unat x"
      by (simp add: push_bit_eq_mult drop_bit_eq_div)
    also have "unat x < 2 ^ LENGTH('a)" by (rule unat_bound)
    finally have "take_bit LENGTH('a) (push_bit n (drop_bit n (unat x))) =
        push_bit n (drop_bit n (unat x))"
      by (rule take_bit_nat_eq_self)
    then show ?thesis
      by (simp add: and_not_mask_eq unsigned_push_bit_eq unat_drop_bit_eq)
  qed
  then show ?thesis
    using nat_or_low [OF assms(1), of "drop_bit n (unat x)"]
    by (simp add: unsigned_or_eq push_bit_eq_mult drop_bit_eq_div)
qed

lemma mask16_const: "(0xffffffffffff0000 :: u64) = NOT (mask 16)"
  by (simp add: mask_eq_exp_minus_1)

lemma mask32_const: "(0xffffffff00000000 :: u64) = NOT (mask 32)"
  by (simp add: mask_eq_exp_minus_1)

lemma unat_ucast16: "unat (ucast (s :: u16) :: u64) = unat s"
  using unat_bound16 [of s] by (simp add: unsigned_ucast_eq take_bit_nat_eq_self)

lemma unat_ucast32: "unat (ucast (s :: u32) :: u64) = unat s"
  using unat_bound32 [of s] by (simp add: unsigned_ucast_eq take_bit_nat_eq_self)

lemma unat_low16: "unat (ucast (x :: u64) :: u16) = unat x mod 65536"
  by (simp add: unsigned_ucast_eq take_bit_eq_mod)

lemma unat_low32: "unat (ucast (x :: u64) :: u32) = unat x mod 4294967296"
  by (simp add: unsigned_ucast_eq take_bit_eq_mod)

lemma unat_high16:
  "unat ((x AND 0xffffffffffff0000) OR ucast (s :: u16) :: u64) = unat x div 65536 * 65536 + unat s"
  using unat_high_or_low [of "ucast s :: u64" 16 x] unat_bound16 [of s]
  by (simp add: mask16_const unat_ucast16)

lemma unat_high32:
  "unat ((x AND 0xffffffff00000000) OR ucast (s :: u32) :: u64) =
     unat x div 4294967296 * 4294967296 + unat s"
  using unat_high_or_low [of "ucast s :: u64" 32 x] unat_bound32 [of s]
  by (simp add: mask32_const unat_ucast32)

section \<open>Widening recovers the counter\<close>

lemma unat_eqI: "unat (a :: 'a :: len word) = unat b \<Longrightarrow> a = b"
  by (simp add: word_unat_eq_iff)

lemma widen_request_eq:
  assumes "req \<le> out" and "unat out - unat req < 2 ^ 32"
  shows "widen_request out (ucast req) = req"
proof -
  define hi lo r0 where "hi = unat out div 4294967296" and "lo = unat out mod 4294967296"
    and "r0 = unat req mod 4294967296"
  define w where "w = (out AND 0xffffffff00000000) OR (ucast (ucast req :: u32) :: u64)"
  have uw: "unat w = hi * 4294967296 + r0"
    unfolding w_def hi_def r0_def by (simp only: unat_high32 unat_low32)
  have uo: "unat out = hi * 4294967296 + lo"
    unfolding hi_def lo_def by simp
  have lt: "lo < 4294967296" "r0 < 4294967296" unfolding lo_def r0_def by simp_all
  have le: "unat req \<le> unat out" using assms(1) by (simp add: word_le_nat_alt)
  have ur: "unat req = unat req div 4294967296 * 4294967296 + r0"
    unfolding r0_def by simp
  have near: "unat out < unat req + 4294967296" using assms(2) le by simp
  have eq: "widen_request out (ucast req) = (if w > out then w - 0x100000000 else w)"
    by (simp add: widen_request_def w_def Let_def)
  show ?thesis
  proof (cases "r0 \<le> lo")
    case True
    have "unat req div 4294967296 = hi"
      using True ur uo lt le near by linarith
    then have "unat req = unat w" using ur uw by simp
    then have "req = w" by (rule unat_eqI)
    with eq assms(1) show ?thesis by auto
  next
    case False
    have d: "unat req div 4294967296 + 1 = hi"
      using False ur uo lt le near by linarith
    have gt: "w > out"
      using False uw uo by (simp add: word_less_nat_alt)
    have "unat (0x100000000 :: u64) = 4294967296" by simp
    then have "unat (w - 0x100000000) = unat w - 4294967296"
      using uw d by (subst unat_sub) (simp_all add: word_le_nat_alt)
    also have "\<dots> = unat req" using ur uw d by simp
    finally have "w - 0x100000000 = req" by (rule unat_eqI)
    with eq gt show ?thesis by simp
  qed
qed

lemma widen_sequence_eq:
  assumes "lastread \<le> t" and "unat t - unat lastread < 2 ^ 16" and "unat lastread + 65536 < 2 ^ 63"
  shows "widen_sequence lastread (ucast t) = t"
proof -
  define hi lo t0 where "hi = unat lastread div 65536" and "lo = unat lastread mod 65536"
    and "t0 = unat t mod 65536"
  define w where "w = (lastread AND 0xffffffffffff0000) OR (ucast (ucast t :: u16) :: u64)"
  have uw: "unat w = hi * 65536 + t0"
    unfolding w_def hi_def t0_def by (simp only: unat_high16 unat_low16)
  have ul: "unat lastread = hi * 65536 + lo"
    unfolding hi_def lo_def by simp
  have lt: "lo < 65536" "t0 < 65536" unfolding lo_def t0_def by simp_all
  have le: "unat lastread \<le> unat t" using assms(1) by (simp add: word_le_nat_alt)
  have ut: "unat t = unat t div 65536 * 65536 + t0"
    unfolding t0_def by simp
  have near: "unat t < unat lastread + 65536" using assms(2) le by simp
  have halves: "low_half w" "low_half lastread"
    using uw ul lt assms(3) by (auto simp: low_half_def)
  have eq: "widen_sequence lastread (ucast t) = (if w < lastread then w + 0x10000 else w)"
    using halves by (simp add: widen_sequence_def w_def Let_def seq_less)
  show ?thesis
  proof (cases "lo \<le> t0")
    case True
    have "unat t div 65536 = hi" using True ut ul lt le near by linarith
    then have "unat t = unat w" using ut uw by simp
    then have "t = w" by (rule unat_eqI)
    with eq assms(1) show ?thesis by auto
  next
    case False
    have d: "unat t div 65536 = hi + 1" using False ut ul lt le near by linarith
    have less: "w < lastread" using False uw ul by (simp add: word_less_nat_alt)
    have "unat (w + 0x10000) = unat w + 65536"
      using uw ut d near assms(3) by (subst unat_add_lem [THEN iffD1]) simp_all
    also have "\<dots> = unat t" using ut uw d by simp
    finally have "w + 0x10000 = t" by (rule unat_eqI)
    with eq less show ?thesis by simp
  qed
qed

text \<open>The low half of the result is always the number in the header.\<close>

lemma widen_sequence_low: "ucast (widen_sequence lastread s) = (s :: u16)"
proof -
  let ?w = "(lastread AND 0xffffffffffff0000) OR ucast s :: u64"
  have mod: "unat ?w mod 65536 = unat s"
    unfolding unat_high16 using unat_bound16 [of s] by (simp add: mod_mult_self3)
  have "unat (?w + 0x10000) mod 65536 = (unat ?w + 65536) mod 2 ^ 64 mod 65536" by (simp add: unat_word_ariths)
  also have "\<dots> = unat ?w mod 65536" by (simp add: mod_mod_cancel)
  finally have "unat (?w + 0x10000) mod 65536 = unat s" using mod by simp
  with mod have "unat (ucast (widen_sequence lastread s) :: u16) = unat s"
    by (simp add: unat_low16 widen_sequence_def Let_def)
  then show ?thesis by (rule unat_eqI)
qed

lemma low16_low32: "(ucast (ucast (x :: u64) :: u32) :: u16) = ucast x"
  by (rule bit_word_eqI) (simp add: bit_simps)

text \<open>Whatever the header says, the counter never moves back and moves less than \<open>2 ^ 16\<close>.\<close>

lemma widen_sequence_progress:
  assumes "unat lastread + 65536 < 2 ^ 63"
  shows "lastread \<le> widen_sequence lastread s" and "unat (widen_sequence lastread s) < unat lastread + 65536"
    and "ucast (widen_sequence lastread s) = s"
proof -
  define hi lo where "hi = unat lastread div 65536" and "lo = unat lastread mod 65536"
  define t where "t = (if lo \<le> unat s then hi * 65536 + unat s else (hi + 1) * 65536 + unat s)"
  have ul: "unat lastread = hi * 65536 + lo" "lo < 65536"
    unfolding hi_def lo_def by simp_all
  have tb: "unat lastread \<le> t" "t < unat lastread + 65536"
    using ul unat_bound16 [of s] by (auto simp: t_def)
  have ut: "unat (word_of_nat t :: u64) = t"
    using tb(2) assms by (simp add: unat_of_nat)
  have "(q * 65536 + unat s) mod 65536 = unat s" for q
    using unat_bound16 [of s] by (simp only: mod_mult_self3 mod_less)
  then have "t mod 65536 = unat s"
    by (simp only: t_def simp_thms split: if_split)
  then have "unat (ucast (word_of_nat t :: u64) :: u16) = unat s"
    unfolding unat_low16 ut .
  then have s: "ucast (word_of_nat t :: u64) = s" by (rule unat_eqI)
  have "widen_sequence lastread (ucast (word_of_nat t :: u64)) = word_of_nat t"
    using tb ut assms by (intro widen_sequence_eq) (auto simp: word_le_nat_alt)
  with s ut tb show "lastread \<le> widen_sequence lastread s"
    and "unat (widen_sequence lastread s) < unat lastread + 65536"
    and "ucast (widen_sequence lastread s) = s"
    by (simp_all add: word_le_nat_alt)
qed

section \<open>Properties\<close>

text \<open>
  C13: Widening of packet sequence numbers. If the server answers request \<open>t\<close>, less than
  \<open>2 ^ 16\<close> requests after the last one read, then the 16 bits of \<open>t\<close> in the packet header are
  enough: the computed 64 bit sequence number is \<open>t\<close> itself.
\<close>

theorem widen_sequence_correct:
  assumes "lastread \<le> t" and "unat t - unat lastread < 2 ^ 16" and "unat lastread + 65536 < 2 ^ 63"
  shows "widen_sequence lastread (ucast t) = t"
  using assms by (rule widen_sequence_eq)

theorem widen_sequence_correct_witness:
  "widen_sequence 0x1fffe (ucast (0x20003 :: u64)) = 0x20003"
  by (rule widen_sequence_correct) simp_all

text \<open>
  C14: Widening of cookies. A request number that has been sent, less than \<open>2 ^ 32\<close> requests ago,
  is recovered from its low 32 bits, also across a wrap of the low half.
\<close>

theorem widen_request_correct:
  assumes "req \<le> out" and "unat out - unat req < 2 ^ 32"
  shows "widen_request out (ucast req) = req"
  using assms by (rule widen_request_eq)

theorem widen_request_correct_witness:
  "widen_request 0x100000005 (ucast (0xfffffff0 :: u64)) = 0xfffffff0"
  by (rule widen_request_correct) simp_all

lemma unat_XCB_PAD: "int (unat (XCB_PAD (i :: u32))) = (- int (unat i)) mod 4"
proof -
  have "XCB_PAD i = take_bit 2 (- i)"
    by (simp add: XCB_PAD_def take_bit_eq_mask mask_eq_exp_minus_1)
  then have "uint (XCB_PAD i) = take_bit 2 (uint (- i))"
    by (simp add: unsigned_take_bit_eq)
  also have "\<dots> = uint (- i) mod 4" by (simp add: take_bit_eq_mod)
  also have "uint (- i) = (- uint i) mod 2 ^ 32" by (simp add: uint_word_ariths)
  also have "\<dots> mod 4 = (- uint i) mod 4" by (simp add: mod_mod_cancel)
  finally show ?thesis by simp
qed

text \<open>
  The padding macro. \<open>XCB_PAD(i)\<close> is the number of bytes, at most three, that bring a length
  up to a multiple of four.
\<close>

theorem XCB_PAD_correct:
  "unat (XCB_PAD (i :: u32)) < 4 \<and> 4 dvd unat i + unat (XCB_PAD i)"
proof -
  have "int (unat (XCB_PAD i)) = (- int (unat i)) mod 4" by (rule unat_XCB_PAD)
  then have "unat (XCB_PAD i) < 4" and "(int (unat i) + int (unat (XCB_PAD i))) mod 4 = 0"
    by presburger+
  then show ?thesis by presburger
qed

end
