(* ===== verification/XcbTypes.thy ===== *)
theory XcbTypes
  imports XcbList XcbSeq
begin

text \<open>
  The data of a connection, from \<open>src/src/xcbint.h\<close>, \<open>src/src/xcbext.h\<close>, \<open>src/src/xcb.h\<close> and the
  local structures of \<open>src/src/xcb_in.c\<close> and \<open>src/src/xcb_ext.c\<close>, and the model of the operating
  system the connection talks to.

  A linked list with head and tail pointer (events, pending replies, current replies) is a
  HOL list; the byte buffers \<open>queue[0 .. queue_len)\<close> are byte lists. A union with its tag is
  a datatype where the tag selects the member; where both members are the same 32 bits they are
  one field. Mutexes are not fields: a function runs with the locks the code takes, and the
  points where it lets go of \<open>iolock\<close> are explicit (\<open>os_yield\<close>, \<open>pthread_cond_wait\<close>).
\<close>

section \<open>Enumerations and flags\<close>

datatype workarounds =
    WORKAROUND_NONE
  | WORKAROUND_GLX_GET_FB_CONFIGS_BUG
  | WORKAROUND_EXTERNAL_SOCKET_OWNER

datatype lazy_reply_tag = LAZY_NONE | LAZY_COOKIE | LAZY_FORCED

text \<open>The values of the enumeration: not asked, asked, answered.\<close>

fun tag_value :: "lazy_reply_tag \<Rightarrow> nat" where
  "tag_value LAZY_NONE = 0"
| "tag_value LAZY_COOKIE = 1"
| "tag_value LAZY_FORCED = 2"

instantiation lazy_reply_tag :: linorder
begin

definition less_eq_lazy_reply_tag :: "lazy_reply_tag \<Rightarrow> lazy_reply_tag \<Rightarrow> bool" where
  "a \<le> b \<longleftrightarrow> tag_value a \<le> tag_value b"

definition less_lazy_reply_tag :: "lazy_reply_tag \<Rightarrow> lazy_reply_tag \<Rightarrow> bool" where
  "a < b \<longleftrightarrow> tag_value a < tag_value b"

instance
proof
  fix a b c :: lazy_reply_tag
  show "a < b \<longleftrightarrow> a \<le> b \<and> \<not> b \<le> a" by (auto simp: less_eq_lazy_reply_tag_def less_lazy_reply_tag_def)
  show "a \<le> a" by (simp add: less_eq_lazy_reply_tag_def)
  show "a \<le> c" if "a \<le> b" "b \<le> c" using that by (simp add: less_eq_lazy_reply_tag_def)
  show "a = b" if "a \<le> b" "b \<le> a" using that by (cases a; cases b) (simp_all add: less_eq_lazy_reply_tag_def)
  show "a \<le> b \<or> b \<le> a" by (auto simp: less_eq_lazy_reply_tag_def)
qed

end

lemma tag_order [simp]: "LAZY_NONE \<le> t" "t \<le> LAZY_FORCED" "LAZY_FORCED \<le> t \<longleftrightarrow> t = LAZY_FORCED" "t \<le> LAZY_NONE \<longleftrightarrow> t = LAZY_NONE"
  by (cases t; simp add: less_eq_lazy_reply_tag_def)+

definition XCB_REQUEST_CHECKED :: u32 where "XCB_REQUEST_CHECKED = 1"

definition XCB_REQUEST_RAW :: u32 where "XCB_REQUEST_RAW = 2"

definition XCB_REQUEST_DISCARD_REPLY :: u32 where "XCB_REQUEST_DISCARD_REPLY = 4"

definition has_flag :: "u32 \<Rightarrow> u32 \<Rightarrow> bool" where
  "has_flag flags f \<longleftrightarrow> flags AND f \<noteq> 0"

definition XCB_ERROR :: byte where "XCB_ERROR = 0"

definition XCB_REPLY :: byte where "XCB_REPLY = 1"

definition XCB_XGE_EVENT :: byte where "XCB_XGE_EVENT = 35"

definition XCB_KEYMAP_NOTIFY :: byte where "XCB_KEYMAP_NOTIFY = 11"

lemmas packet_consts = XCB_ERROR_def XCB_REPLY_def XCB_XGE_EVENT_def XCB_KEYMAP_NOTIFY_def

lemmas flag_consts = XCB_REQUEST_CHECKED_def XCB_REQUEST_RAW_def XCB_REQUEST_DISCARD_REPLY_def
  has_flag_def

definition XCB_QUEUE_BUFFER_SIZE :: nat where "XCB_QUEUE_BUFFER_SIZE = 16384"

text \<open>The size of the input buffer, \<open>char queue[4096]\<close> of \<open>_xcb_in\<close>.\<close>

definition IN_QUEUE_SIZE :: nat where "IN_QUEUE_SIZE = 4096"

section \<open>Packets from the server\<close>

text \<open>
  The common prefix of every packet, \<open>xcb_generic_reply_t\<close>. A buffer handed to the application
  is the bytes of the packet, for events and errors the \<open>full_sequence\<close> word that follows them,
  and for XGE events the bytes after that.
\<close>

record xcb_generic_reply_t =
  response_type :: byte
  sequence :: u16
  rep_length :: u32

record packet =
  contents :: "byte list"
  full_sequence :: "u32 option"
  xge_data :: "byte list"

definition get_genrep :: "byte list \<Rightarrow> xcb_generic_reply_t" where
  "get_genrep q = \<lparr>response_type = q ! 0, sequence = le16 (q ! 2) (q ! 3),
     rep_length = le32 (q ! 4) (q ! 5) (q ! 6) (q ! 7)\<rparr>"

record pending_reply =
  first_request :: u64
  last_request :: u64
  workaround :: workarounds
  pend_flags :: u32

text \<open>
  A waiting reader: \<open>rd_cond\<close> stands for the address of its condition variable, which lives in
  the stack frame of the waiting call and so also identifies the list node.
\<close>

record reader_list =
  rd_request :: u32
  rd_cond :: nat

datatype cond = EventCond | OutCond | SocketCond | ReaderCond nat

section \<open>The connection\<close>

record xcb_in_t =
  reading :: int
  in_queue :: "byte list"
  request_expected :: u64
  request_read :: u64
  request_completed :: u64
  current_reply :: "packet list"
  replies :: "(u32 \<times> packet list) list"
  events :: "packet list"
  readers :: "reader_list list"
  pending_replies :: "pending_reply list"

record xcb_out_t =
  writing :: int
  return_socket :: "nat option"
  socket_closure :: nat
  socket_moving :: bool
  out_queue :: "byte list"
  out_request :: u64
  request_written :: u64
  maximum_request_length_tag :: lazy_reply_tag
  maximum_request_length :: u32

record xcb_xid_t =
  xid_last :: u32
  xid_base :: u32
  xid_max :: u32
  xid_inc :: u32

text \<open>
  The reply to QueryExtension, in the three members the sources use; \<open>lazyreply\<close> is the tagged
  union of the extension cache.
\<close>

record xcb_query_extension_reply_t =
  present :: bool
  major_opcode :: byte
  first_event :: byte

datatype lazyreply = Lazy_None | Lazy_Cookie u32 | Lazy_Forced "xcb_query_extension_reply_t option"

text \<open>The setup data, in the members the sources use.\<close>

record xcb_setup_t =
  setup_status :: byte
  setup_length :: u16
  resource_id_base :: u32
  resource_id_mask :: u32
  setup_maximum_request_length :: u16

record xcb_connection_t =
  has_error :: bool
  c_setup :: "xcb_setup_t option"
  fd :: int
  c_in :: xcb_in_t
  c_out :: xcb_out_t
  extensions :: "lazyreply list"
  c_xid :: xcb_xid_t

section \<open>The operating system\<close>

text \<open>
  What the next system calls return, in order. \<open>recv\<close> and \<open>writev\<close> transfer at most what the
  call asks for; a \<open>recv\<close> that takes part of a chunk leaves the rest. When the script of
  \<open>recv\<close> is used up the peer has closed the connection; when that of \<open>poll\<close> is used up, \<open>poll\<close>
  fails; \<open>writev\<close> then reports an error. Allocations (\<open>os_mallocs\<close>) and the initialisation of
  mutexes and condition variables (\<open>os_inits\<close>) succeed unless the script says otherwise.
  \<open>os_others\<close> is what other threads do to the connection at the next points where this thread
  lets go of \<open>iolock\<close>. \<open>os_wire\<close> are the bytes the kernel has taken for the server, and
  \<open>os_signals\<close> the condition variables signalled or broadcast so far. The last two fields are the
  static variable \<open>next_global_id\<close> of \<open>xcb_ext.c\<close> and the member \<open>global_id\<close> of every
  \<open>xcb_extension_t\<close>, by its address; no entry has been used where it is 0.
\<close>

datatype recv_result = RData "byte list" | RAgain | RError

datatype writev_result = WAccept nat | WAgain | WError

datatype poll_result = PollOk u16 | PollIntr | PollFail

record os =
  os_mallocs :: "bool list"
  os_inits :: "bool list"
  os_recvs :: "recv_result list"
  os_writevs :: "writev_result list"
  os_polls :: "poll_result list"
  os_others :: "(xcb_connection_t \<Rightarrow> xcb_connection_t) list"
  os_wire :: "byte list"
  os_signals :: "cond list"
  os_next_cond :: nat
  os_callbacks :: "(nat \<times> nat) list"
  os_next_global_id :: nat
  os_global_id :: "nat \<Rightarrow> nat"

definition malloc_ok :: "os \<Rightarrow> bool \<times> os" where
  "malloc_ok w = (case os_mallocs w of [] \<Rightarrow> (True, w) | b # bs \<Rightarrow> (b, w\<lparr>os_mallocs := bs\<rparr>))"

text \<open>\<open>pthread_mutex_init\<close> and \<open>pthread_cond_init\<close>: does the next one succeed.\<close>

definition pthread_init_ok :: "os \<Rightarrow> bool \<times> os" where
  "pthread_init_ok w = (case os_inits w of [] \<Rightarrow> (True, w) | b # bs \<Rightarrow> (b, w\<lparr>os_inits := bs\<rparr>))"

text \<open>No allocation of half the address space or more succeeds.\<close>

definition malloc_size :: "u64 \<Rightarrow> os \<Rightarrow> bool \<times> os" where
  "malloc_size sz w = (if unat sz < 2 ^ 63 then malloc_ok w else (False, w))"

definition os_signal :: "cond \<Rightarrow> os \<Rightarrow> os" where
  "os_signal cnd w = w\<lparr>os_signals := os_signals w @ [cnd]\<rparr>"

text \<open>
  Letting go of the lock: another thread may have changed the connection. A wait on a
  condition variable returns only when another thread ends it.
\<close>

definition os_yield :: "xcb_connection_t \<Rightarrow> os \<Rightarrow> xcb_connection_t \<times> os" where
  "os_yield c w = (case os_others w of [] \<Rightarrow> (c, w) | f # fs \<Rightarrow> (f c, w\<lparr>os_others := fs\<rparr>))"

definition pthread_cond_wait ::
    "xcb_connection_t \<Rightarrow> os \<Rightarrow> (xcb_connection_t \<times> os) option" where
  "pthread_cond_wait c w = (case os_others w of [] \<Rightarrow> None
     | f # fs \<Rightarrow> Some (f c, w\<lparr>os_others := fs\<rparr>))"

text \<open>\<open>poll\<close> in a loop that repeats the call when a signal interrupts it.\<close>

fun poll_retry :: "poll_result list \<Rightarrow> poll_result \<times> poll_result list" where
  "poll_retry [] = (PollFail, [])"
| "poll_retry (PollIntr # ps) = poll_retry ps"
| "poll_retry (p # ps) = (p, ps)"

text \<open>
  \<open>recv\<close> of at most \<open>room\<close> bytes: some data, 0 (the peer closed the connection, or no byte was
  asked for), or -1 with \<open>EAGAIN\<close> or another error.
\<close>

datatype recv_outcome = Got "byte list" | Closed | Again | Failed

fun os_recv :: "nat \<Rightarrow> recv_result list \<Rightarrow> recv_outcome \<times> recv_result list" where
  "os_recv room [] = (Closed, [])"
| "os_recv room (RAgain # rs) = (Again, rs)"
| "os_recv room (RError # rs) = (Failed, rs)"
| "os_recv room (RData bs # rs) =
     (if room = 0 then (Closed, RData bs # rs)
      else if bs = [] then (Closed, rs)
      else if length bs \<le> room then (Got bs, rs)
      else (Got (take room bs), RData (drop room bs) # rs))"

lemmas os_defs [io_defs] = malloc_ok_def pthread_init_ok_def malloc_size_def os_signal_def os_yield_def
  pthread_cond_wait_def

text \<open>The bytes still to come from the server: what a script of \<open>recv\<close> results delivers.\<close>

fun recv_bytes :: "recv_result list \<Rightarrow> byte list" where
  "recv_bytes [] = []"
| "recv_bytes (RData bs # rs) = bs @ recv_bytes rs"
| "recv_bytes (_ # rs) = recv_bytes rs"

lemma os_recv_Got:
  "os_recv room rs = (Got bs, rs') \<Longrightarrow>
     bs \<noteq> [] \<and> length bs \<le> room \<and> recv_bytes rs = bs @ recv_bytes rs'"
  by (induction room rs rule: os_recv.induct) (auto split: if_splits)

lemma malloc_ok_frame [frame_simps]:
  "malloc_ok w = (b, w') \<Longrightarrow> os_recvs w' = os_recvs w \<and> os_polls w' = os_polls w
     \<and> os_wire w' = os_wire w \<and> os_others w' = os_others w \<and> os_signals w' = os_signals w
     \<and> os_writevs w' = os_writevs w"
  by (auto simp: malloc_ok_def split: list.splits)

lemma malloc_none: "os_mallocs w = [] \<Longrightarrow> malloc_ok w = (True, w)"
  by (simp add: malloc_ok_def)

section \<open>Extensions and generated functions\<close>

record xcb_extension_t =
  ext_name :: string
  ext_addr :: nat

record xcb_xc_misc_get_xid_range_reply_t =
  start_id :: u32
  range_count :: u32

text \<open>
  The functions the library calls that are generated from the protocol description and are not
  part of the sources: \<open>xcb_query_extension\<close>, \<open>xcb_big_requests_enable\<close>,
  \<open>xcb_xc_misc_get_xid_range\<close> and \<open>xcb_get_input_focus\<close> with their reply functions. A reply
  function gets a null pointer for the error except \<open>xcb_get_input_focus_reply\<close>, whose second
  result is the error. They are parameters of the model.
\<close>

record generated =
  xcb_query_extension :: "string \<Rightarrow> xcb_connection_t \<Rightarrow> os \<Rightarrow> (u32 \<times> xcb_connection_t \<times> os) option"
  xcb_query_extension_reply :: "u32 \<Rightarrow> xcb_connection_t \<Rightarrow> os \<Rightarrow>
    (xcb_query_extension_reply_t option \<times> xcb_connection_t \<times> os) option"
  xcb_big_requests_enable :: "xcb_connection_t \<Rightarrow> os \<Rightarrow> (u32 \<times> xcb_connection_t \<times> os) option"
  xcb_big_requests_enable_reply :: "u32 \<Rightarrow> xcb_connection_t \<Rightarrow> os \<Rightarrow>
    (u32 option \<times> xcb_connection_t \<times> os) option"
  xcb_xc_misc_get_xid_range :: "xcb_connection_t \<Rightarrow> os \<Rightarrow> (u32 \<times> xcb_connection_t \<times> os) option"
  xcb_xc_misc_get_xid_range_reply :: "u32 \<Rightarrow> xcb_connection_t \<Rightarrow> os \<Rightarrow>
    (xcb_xc_misc_get_xid_range_reply_t option \<times> xcb_connection_t \<times> os) option"
  xcb_get_input_focus :: "xcb_connection_t \<Rightarrow> os \<Rightarrow> (u32 \<times> xcb_connection_t \<times> os) option"
  xcb_get_input_focus_reply :: "u32 \<Rightarrow> xcb_connection_t \<Rightarrow> os \<Rightarrow>
    ((packet option \<times> packet option) \<times> xcb_connection_t \<times> os) option"
  xcb_big_requests_id :: xcb_extension_t
  xcb_xc_misc_id :: xcb_extension_t

section \<open>A fresh connection and a quiet system\<close>

text \<open>The connection as \<open>calloc\<close> returns it, and a system in which nothing happens.\<close>

definition zero_in :: xcb_in_t where
  "zero_in = \<lparr>reading = 0, in_queue = [], request_expected = 0, request_read = 0,
     request_completed = 0, current_reply = [], replies = [], events = [], readers = [],
     pending_replies = []\<rparr>"

definition zero_out :: xcb_out_t where
  "zero_out = \<lparr>writing = 0, return_socket = None, socket_closure = 0, socket_moving = False,
     out_queue = [], out_request = 0, request_written = 0,
     maximum_request_length_tag = LAZY_NONE, maximum_request_length = 0\<rparr>"

definition zero_conn :: xcb_connection_t where
  "zero_conn = \<lparr>has_error = False, c_setup = None, fd = 0, c_in = zero_in, c_out = zero_out,
     extensions = [], c_xid = \<lparr>xid_last = 0, xid_base = 0, xid_max = 0, xid_inc = 0\<rparr>\<rparr>"

definition quiet_os :: os where
  "quiet_os = \<lparr>os_mallocs = [], os_inits = [], os_recvs = [], os_writevs = [], os_polls = [],
     os_others = [], os_wire = [], os_signals = [], os_next_cond = 0, os_callbacks = [],
     os_next_global_id = 0, os_global_id = (\<lambda>_. 0)\<rparr>"

lemmas zero_defs = zero_conn_def zero_in_def zero_out_def quiet_os_def

text \<open>The first 32 bytes of a packet with the given header and nothing else in it.\<close>

definition packet32 :: "byte \<Rightarrow> u16 \<Rightarrow> u32 \<Rightarrow> byte list" where
  "packet32 ty s len = [ty, 0] @ bytes16 s @ bytes32 len @ replicate 24 0"

lemma length_packet32 [simp]: "length (packet32 ty s len) = 32"
  by (simp add: packet32_def)

lemma get_genrep_packet32 [simp]:
  "get_genrep (packet32 ty s len @ rest) = \<lparr>response_type = ty, sequence = s, rep_length = len\<rparr>"
  using le16_bytes16 [of s] le32_bytes32 [of len]
  by (simp add: get_genrep_def packet32_def bytes16_def bytes32_def)

lemma get_genrep_packet32_only [simp]:
  "get_genrep (packet32 ty s len) = \<lparr>response_type = ty, sequence = s, rep_length = len\<rparr>"
  using get_genrep_packet32 [of ty s len "[]"] by simp

text \<open>
  Generated functions of a server that has every extension and answers at once, for concrete
  instances of statements about arbitrary ones.
\<close>

definition sample_gen :: generated where
  "sample_gen = \<lparr>xcb_query_extension = (\<lambda>_ c w. Some (7, c, w)),
     xcb_query_extension_reply =
       (\<lambda>_ c w. Some (Some \<lparr>present = True, major_opcode = 128, first_event = 64\<rparr>, c, w)),
     xcb_big_requests_enable = (\<lambda>c w. Some (8, c, w)),
     xcb_big_requests_enable_reply = (\<lambda>_ c w. Some (Some 4194303, c, w)),
     xcb_xc_misc_get_xid_range = (\<lambda>c w. Some (9, c, w)),
     xcb_xc_misc_get_xid_range_reply =
       (\<lambda>_ c w. Some (Some \<lparr>start_id = 1280, range_count = 16\<rparr>, c, w)),
     xcb_get_input_focus = (\<lambda>c w. Some (10, c, w)),
     xcb_get_input_focus_reply = (\<lambda>_ c w. Some ((None, None), c, w)),
     xcb_big_requests_id = \<lparr>ext_name = ''BIG-REQUESTS'', ext_addr = 1\<rparr>,
     xcb_xc_misc_id = \<lparr>ext_name = ''XC-MISC'', ext_addr = 2\<rparr>\<rparr>"

end
