(* ===== verification/XcbIn.thy ===== *)
theory XcbIn
  imports XcbTypes
begin

text \<open>
  The reading side of a connection, \<open>src/src/xcb_in.c\<close>: splitting the byte stream into packets,
  numbering them, sorting them into the reply lists and the event queue, and taking replies and
  events out again. The calls that block are in \<open>XcbWait\<close>.

  The abstract specification is a mailbox per request, \<open>mailbox c k\<close>: the replies and checked
  errors for the request with (32 bit) number \<open>k\<close> in order of arrival, wherever the code keeps
  them. \<open>read_packet\<close> appends to one mailbox, \<open>poll_for_reply\<close> takes the head of one, and
  \<open>discard_reply\<close> empties one.
\<close>

section \<open>Reading bytes\<close>

definition xcb_conn_shutdown :: "xcb_connection_t \<Rightarrow> xcb_connection_t" where
  "xcb_conn_shutdown c = c\<lparr>has_error := True\<rparr>"

text \<open>
  \<open>read_block\<close> reads \<open>need\<close> more bytes, waiting with \<open>poll\<close> when there are none. The result is
  the return value (positive when all bytes arrived, otherwise what \<open>recv\<close> or \<open>poll\<close> returned)
  and the bytes read.
\<close>

fun read_block :: "nat \<Rightarrow> recv_result list \<Rightarrow> poll_result list \<Rightarrow>
    int \<times> byte list \<times> recv_result list \<times> poll_result list" where
  "read_block need [] ps = (if need = 0 then (1, [], [], ps) else (0, [], [], ps))"
| "read_block need (r # rs) ps =
     (if need = 0 then (1, [], r # rs, ps)
      else case r of
        RData bs \<Rightarrow>
          (if bs = [] then (0, [], rs, ps)
           else if length bs \<le> need then
             (let (ret, more, rs, ps) = read_block (need - length bs) rs ps
              in (ret, bs @ more, rs, ps))
           else (1, take need bs, RData (drop need bs) # rs, ps))
      | RAgain \<Rightarrow>
          (case poll_retry ps of
             (PollOk _, ps) \<Rightarrow> read_block need rs ps
           | (_, ps) \<Rightarrow> (-1, [], rs, ps))
      | RError \<Rightarrow> (-1, [], rs, ps))"

text \<open>
  \<open>_xcb_in_read_block\<close>: \<open>len\<close> bytes, first from the queue, then from the socket. A negative
  length reaches \<open>memcpy\<close> as a huge one, so the call has no result then.
\<close>

definition xcb_in_read_block :: "int \<Rightarrow> xcb_connection_t \<Rightarrow> os \<Rightarrow>
    (int \<times> byte list \<times> xcb_connection_t \<times> os) option" where
  "xcb_in_read_block len c w =
     (let queue = in_queue (c_in c);
          done = (if len < int (length queue) then len else int (length queue))
      in if done < 0 then None
         else
           let buf = take (nat done) queue;
               c = c\<lparr>c_in := (c_in c)\<lparr>in_queue := drop (nat done) queue\<rparr>\<rparr>
           in if len > done then
                let (ret, more, rs, ps) = read_block (nat (len - done)) (os_recvs w) (os_polls w);
                    w = w\<lparr>os_recvs := rs, os_polls := ps\<rparr>
                in if ret \<le> 0 then Some (ret, buf @ more, xcb_conn_shutdown c, w)
                   else Some (len, buf @ more, c, w)
              else Some (len, buf, c, w))"

section \<open>Sorting one packet\<close>

text \<open>The loop over the readers: signal the one waiting for this request.\<close>

fun signal_reader :: "u64 \<Rightarrow> reader_list list \<Rightarrow> os \<Rightarrow> os" where
  "signal_reader rr [] w = w"
| "signal_reader rr (rd # rds) w =
     (if XCB_SEQUENCE_COMPARE_32 (rd_request rd) (\<le>) rr then
        if XCB_SEQUENCE_COMPARE_32 (rd_request rd) (=) rr
        then os_signal (ReaderCond (rd_cond rd)) w
        else signal_reader rr rds w
      else w)"

text \<open>The loop that drops the pending replies no packet can belong to any more.\<close>

fun drop_completed :: "u64 \<Rightarrow> pending_reply list \<Rightarrow> pending_reply list" where
  "drop_completed completed [] = []"
| "drop_completed completed (p # ps) =
     (if workaround p \<noteq> WORKAROUND_EXTERNAL_SOCKET_OWNER
         \<and> XCB_SEQUENCE_COMPARE (last_request p) (\<le>) completed
      then drop_completed completed ps else p # ps)"

text \<open>
  The first part of \<open>read_packet\<close>: the sequence number of the packet, and what it says about
  the requests before it. The replies of the request read so far move to the map; the result of
  \<open>_xcb_map_put\<close> is ignored.
\<close>

definition track_sequence ::
    "xcb_generic_reply_t \<Rightarrow> xcb_connection_t \<Rightarrow> os \<Rightarrow> xcb_connection_t \<times> os" where
  "track_sequence genrep c w =
     (if (response_type genrep AND 0x7f) \<noteq> XCB_KEYMAP_NOTIFY then
        let i = c_in c;
            lastread = request_read i;
            rr = widen_sequence lastread (sequence genrep);
            i = i\<lparr>request_read := rr\<rparr>;
            i = (if XCB_SEQUENCE_COMPARE rr (>) (request_expected i)
                 then i\<lparr>request_expected := rr\<rparr> else i);
            (i, w) =
              (if rr \<noteq> lastread then
                 let (i, w) =
                   (if current_reply i \<noteq> [] then
                      let (ok, w) = malloc_ok w;
                          m = (if ok then al_put (ucast lastread) (current_reply i) (replies i)
                               else replies i)
                      in (i\<lparr>replies := m, current_reply := []\<rparr>, w)
                    else (i, w))
                 in (i\<lparr>request_completed := rr - 1\<rparr>, w)
               else (i, w));
            i = i\<lparr>pending_replies := drop_completed (request_completed i) (pending_replies i)\<rparr>;
            i = (if response_type genrep = XCB_ERROR then i\<lparr>request_completed := rr\<rparr> else i)
        in (c\<lparr>c_in := i\<rparr>, w)
      else (c, w))"

text \<open>The pending reply at the head of the list, if the current request belongs to it.\<close>

definition current_pend :: "xcb_in_t \<Rightarrow> pending_reply option" where
  "current_pend i = (case pending_replies i of [] \<Rightarrow> None
     | pend # _ \<Rightarrow>
         (if XCB_SEQUENCE_COMPARE (first_request pend) (\<le>) (request_read i)
             \<and> (workaround pend = WORKAROUND_EXTERNAL_SOCKET_OWNER
                \<or> XCB_SEQUENCE_COMPARE (request_read i) (\<le>) (last_request pend))
          then Some pend else None))"

text \<open>
  The lengths, as the 32 bit integers of the code: the length of the packet proper and the
  extra length of an XGE event. The multiplication by four wraps.
\<close>

definition packet_length :: "xcb_generic_reply_t \<Rightarrow> pending_reply option \<Rightarrow> byte list \<Rightarrow> u32" where
  "packet_length genrep pend q =
     (if response_type genrep = XCB_REPLY then
        (let len = (case pend of
               Some p \<Rightarrow>
                 (if workaround p = WORKAROUND_GLX_GET_FB_CONFIGS_BUG
                  then le32 (q ! 8) (q ! 9) (q ! 10) (q ! 11) * le32 (q ! 12) (q ! 13) (q ! 14) (q ! 15) * 2
                  else rep_length genrep)
             | None \<Rightarrow> rep_length genrep)
         in 32 + len * 4)
      else 32)"

definition xge_length :: "xcb_generic_reply_t \<Rightarrow> u32" where
  "xge_length genrep =
     (if response_type genrep = XCB_XGE_EVENT then rep_length genrep * 4 else 0)"

text \<open>The end of \<open>read_packet\<close>: a reply or checked error, or an event or unchecked error.\<close>

definition deliver_reply :: "packet \<Rightarrow> xcb_connection_t \<Rightarrow> os \<Rightarrow> bool \<times> xcb_connection_t \<times> os" where
  "deliver_reply buf c w =
     (let (ok, w) = malloc_ok w
      in if \<not> ok then (False, xcb_conn_shutdown c, w)
         else (True, c\<lparr>c_in := (c_in c)\<lparr>current_reply := current_reply (c_in c) @ [buf]\<rparr>\<rparr>,
               signal_reader (request_read (c_in c)) (readers (c_in c)) w))"

definition deliver_event :: "packet \<Rightarrow> xcb_connection_t \<Rightarrow> os \<Rightarrow> bool \<times> xcb_connection_t \<times> os" where
  "deliver_event buf c w =
     (let (ok, w) = malloc_ok w
      in if \<not> ok then (False, xcb_conn_shutdown c, w)
         else (True, c\<lparr>c_in := (c_in c)\<lparr>events := events (c_in c) @ [buf]\<rparr>\<rparr>,
               os_signal EventCond w))"

text \<open>
  Where a packet goes: thrown away, to the mailbox of its request, or to the event queue. The
  pending reply only matters for errors and replies.
\<close>

datatype route = Dropped | ToReply | ToEvent

definition packet_pend :: "xcb_generic_reply_t \<Rightarrow> xcb_in_t \<Rightarrow> pending_reply option" where
  "packet_pend g i = (if response_type g = XCB_ERROR \<or> response_type g = XCB_REPLY
     then current_pend i else None)"

definition pend_has :: "u32 \<Rightarrow> pending_reply option \<Rightarrow> bool" where
  "pend_has f pend = (case pend of None \<Rightarrow> False | Some p \<Rightarrow> has_flag (pend_flags p) f)"

definition packet_route :: "xcb_generic_reply_t \<Rightarrow> pending_reply option \<Rightarrow> route" where
  "packet_route g pend =
     (if pend_has XCB_REQUEST_DISCARD_REPLY pend then Dropped
      else if response_type g = XCB_REPLY
        \<or> response_type g = XCB_ERROR \<and> pend_has XCB_REQUEST_CHECKED pend then ToReply
      else ToEvent)"

definition make_packet :: "xcb_generic_reply_t \<Rightarrow> u64 \<Rightarrow> byte list \<Rightarrow> byte list \<Rightarrow> packet" where
  "make_packet g rr buf ext = \<lparr>contents = buf,
     full_sequence = (if response_type g \<noteq> XCB_REPLY then Some (ucast rr) else None),
     xge_data = ext\<rparr>"

definition read_packet ::
    "xcb_connection_t \<Rightarrow> os \<Rightarrow> (bool \<times> xcb_connection_t \<times> os) option" where
  "read_packet c w =
     (if length (in_queue (c_in c)) < 32 then Some (False, c, w)
      else
        let q = in_queue (c_in c);
            genrep = get_genrep q;
            (c, w) = track_sequence genrep c w;
            pend = packet_pend genrep (c_in c);
            len = packet_length genrep pend q;
            eventlength = xge_length genrep;
            (ok, w) = malloc_size (scast (len + eventlength)
                        + (if response_type genrep = XCB_REPLY then 0 else 4)) w
        in if \<not> ok then Some (False, xcb_conn_shutdown c, w)
           else do {
             (ret, buf, c, w) \<leftarrow> xcb_in_read_block (sint len) c w;
             if ret \<le> 0 then Some (False, c, w)
             else do {
               (ret, ext, c, w) \<leftarrow> (if eventlength \<noteq> 0 then xcb_in_read_block (sint eventlength) c w
                                   else Some (1, [], c, w));
               if ret \<le> 0 then Some (False, c, w)
               else
                 let pkt = make_packet genrep (request_read (c_in c)) buf ext
                 in case packet_route genrep pend of
                      Dropped \<Rightarrow> Some (True, c, w)
                    | ToReply \<Rightarrow> Some (deliver_reply pkt c w)
                    | ToEvent \<Rightarrow> Some (deliver_event pkt c w)
             }
           })"

section \<open>Taking out events and replies\<close>

definition get_event :: "xcb_connection_t \<Rightarrow> packet option \<times> xcb_connection_t" where
  "get_event c = (case events (c_in c) of [] \<Rightarrow> (None, c)
     | cur # rest \<Rightarrow> (Some cur, c\<lparr>c_in := (c_in c)\<lparr>events := rest\<rparr>\<rparr>))"

text \<open>
  \<open>poll_for_reply\<close>: the result is 0 (would block, the outputs are left alone) or 1 with the
  contents of \<open>*reply\<close> and \<open>*error\<close>; \<open>want_error\<close> says whether the caller passed an \<open>error\<close>
  pointer. An error that nobody wants is freed. A list of which the head is taken goes back into
  the map; again the result of \<open>_xcb_map_put\<close> is ignored.
\<close>

definition reply_head :: "u32 \<Rightarrow> xcb_connection_t \<Rightarrow> os \<Rightarrow>
    (packet option \<times> xcb_connection_t \<times> os) option" where
  "reply_head request c w =
     (if request = 0 then Some (None, c, w)
      else if XCB_SEQUENCE_COMPARE_32 request (<) (request_read (c_in c)) then
        case al_remove request (replies (c_in c)) of
          (None, m) \<Rightarrow> Some (None, c\<lparr>c_in := (c_in c)\<lparr>replies := m\<rparr>\<rparr>, w)
        | (Some [], m) \<Rightarrow> Some (None, c\<lparr>c_in := (c_in c)\<lparr>replies := m\<rparr>\<rparr>, w)
        | (Some (h # rest), m) \<Rightarrow>
            (let (ok, w) = (if rest \<noteq> [] then malloc_ok w else (False, w))
             in Some (Some h,
                  c\<lparr>c_in := (c_in c)\<lparr>replies := (if ok then al_put request rest m else m)\<rparr>\<rparr>, w))
      else if XCB_SEQUENCE_COMPARE_32 request (=) (request_read (c_in c))
              \<and> current_reply (c_in c) \<noteq> [] then
        Some (Some (hd (current_reply (c_in c))),
              c\<lparr>c_in := (c_in c)\<lparr>current_reply := tl (current_reply (c_in c))\<rparr>\<rparr>, w)
      else if XCB_SEQUENCE_COMPARE_32 request (=) (request_completed (c_in c)) then
        Some (None, c, w)
      else None)"

record poll_result_t =
  pr_reply :: "packet option"
  pr_error :: "packet option"

definition split_reply :: "packet option \<Rightarrow> bool \<Rightarrow> poll_result_t" where
  "split_reply h want_error = (case h of
       None \<Rightarrow> \<lparr>pr_reply = None, pr_error = None\<rparr>
     | Some p \<Rightarrow> (if contents p ! 0 = XCB_ERROR
                  then \<lparr>pr_reply = None, pr_error = (if want_error then Some p else None)\<rparr>
                  else \<lparr>pr_reply = Some p, pr_error = None\<rparr>))"

definition poll_for_reply :: "u32 \<Rightarrow> bool \<Rightarrow> xcb_connection_t \<Rightarrow> os \<Rightarrow>
    poll_result_t option \<times> xcb_connection_t \<times> os" where
  "poll_for_reply request want_error c w = (case reply_head request c w of
       None \<Rightarrow> (None, c, w)
     | Some (h, c, w) \<Rightarrow> (Some (split_reply h want_error), c, w))"

definition xcb_poll_for_reply :: "u32 \<Rightarrow> bool \<Rightarrow> xcb_connection_t \<Rightarrow> os \<Rightarrow>
    poll_result_t option \<times> xcb_connection_t \<times> os" where
  "xcb_poll_for_reply request want_error c w =
     (if has_error c then (Some \<lparr>pr_reply = None, pr_error = None\<rparr>, c, w)
      else poll_for_reply request want_error c w)"

section \<open>Discarding replies\<close>

text \<open>
  \<open>insert_pending_discard\<close> at a place of the list of pending replies, given as the entries
  before and after it.
\<close>

definition insert_pending_discard ::
    "pending_reply list \<Rightarrow> pending_reply list \<Rightarrow> u64 \<Rightarrow> xcb_connection_t \<Rightarrow> os \<Rightarrow> xcb_connection_t \<times> os" where
  "insert_pending_discard before after seq c w =
     (let (ok, w) = malloc_ok w
      in if \<not> ok then (xcb_conn_shutdown c, w)
         else
           let pend = \<lparr>first_request = seq, last_request = seq, workaround = WORKAROUND_NONE,
                       pend_flags = XCB_REQUEST_DISCARD_REPLY\<rparr>
           in (c\<lparr>c_in := (c_in c)\<lparr>pending_replies := before @ pend # after\<rparr>\<rparr>, w))"

definition mark_discard :: "pending_reply \<Rightarrow> pending_reply" where
  "mark_discard p = p\<lparr>pend_flags := pend_flags p OR XCB_REQUEST_DISCARD_REPLY\<rparr>"

text \<open>Where the walk over the pending replies stops: past the request, at it, or at the end.\<close>

fun discard_walk :: "u32 \<Rightarrow> pending_reply list \<Rightarrow> pending_reply list \<times> pending_reply list" where
  "discard_walk request [] = ([], [])"
| "discard_walk request (p # ps) =
     (if XCB_SEQUENCE_COMPARE_32 (first_request p) (>) request
         \<or> XCB_SEQUENCE_COMPARE_32 (first_request p) (=) request
      then ([], p # ps)
      else (let (before, after) = discard_walk request ps in (p # before, after)))"

definition discard_reply :: "u32 \<Rightarrow> xcb_connection_t \<Rightarrow> os \<Rightarrow> xcb_connection_t \<times> os" where
  "discard_reply request c w =
     (let i = c_in c
      in if XCB_SEQUENCE_COMPARE_32 request (<) (request_read i) then
           (c\<lparr>c_in := i\<lparr>replies := snd (al_remove request (replies i))\<rparr>\<rparr>, w)
         else if XCB_SEQUENCE_COMPARE_32 request (=) (request_read i) \<and> current_reply i \<noteq> [] then
           (let i = i\<lparr>current_reply := []\<rparr>
            in case current_pend i of
                 Some pend \<Rightarrow>
                   (c\<lparr>c_in := i\<lparr>pending_replies := mark_discard pend # tl (pending_replies i)\<rparr>\<rparr>, w)
               | None \<Rightarrow>
                   insert_pending_discard [] (pending_replies i) (request_read i) (c\<lparr>c_in := i\<rparr>) w)
         else
           case discard_walk request (pending_replies i) of
             (before, p # after) \<Rightarrow>
               (if XCB_SEQUENCE_COMPARE_32 (first_request p) (=) request then
                  (c\<lparr>c_in := i\<lparr>pending_replies := before @ mark_discard p # after\<rparr>\<rparr>, w)
                else insert_pending_discard before (p # after)
                       (widen_request (out_request (c_out c)) request) c w)
           | (before, []) \<Rightarrow>
               insert_pending_discard before []
                 (widen_request (out_request (c_out c)) request) c w)"

definition xcb_discard_reply :: "u32 \<Rightarrow> xcb_connection_t \<Rightarrow> os \<Rightarrow> xcb_connection_t \<times> os" where
  "xcb_discard_reply seq c w =
     (if has_error c then (c, w)
      else if seq = 0 then (c, w)
      else discard_reply seq c w)"

section \<open>Private interface\<close>

definition xcb_in_init :: "xcb_in_t \<Rightarrow> os \<Rightarrow> bool \<times> xcb_in_t \<times> os" where
  "xcb_in_init i w =
     (let (ok, w) = pthread_init_ok w
      in if \<not> ok then (False, i, w)
         else
           let i = i\<lparr>reading := 0, in_queue := [], request_read := 0, request_completed := 0\<rparr>;
               (ok, w) = malloc_ok w
           in if \<not> ok then (False, i, w) else (True, i\<lparr>replies := []\<rparr>, w))"

text \<open>The buffers \<open>free_reply_list\<close> and \<open>_xcb_in_destroy\<close> hand to \<open>free\<close>, in order.\<close>

fun free_reply_list :: "packet list \<Rightarrow> packet list" where
  "free_reply_list [] = []"
| "free_reply_list (cur # rest) = cur # free_reply_list rest"

definition xcb_in_destroy :: "xcb_in_t \<Rightarrow> packet list \<times> xcb_in_t" where
  "xcb_in_destroy i =
     (free_reply_list (current_reply i)
        @ concat (map (free_reply_list \<circ> snd) (replies i)) @ events i,
      i\<lparr>events := [], pending_replies := []\<rparr>)"

definition xcb_in_wake_up_next_reader :: "xcb_connection_t \<Rightarrow> os \<Rightarrow> os" where
  "xcb_in_wake_up_next_reader c w = (case readers (c_in c) of
       rd # _ \<Rightarrow> os_signal (ReaderCond (rd_cond rd)) w
     | [] \<Rightarrow> os_signal EventCond w)"

definition xcb_in_expect_reply :: "u64 \<Rightarrow> workarounds \<Rightarrow> u32 \<Rightarrow> xcb_connection_t \<Rightarrow> os \<Rightarrow>
    (bool \<times> xcb_connection_t \<times> os) option" where
  "xcb_in_expect_reply request wa flags c w =
     (let (ok, w) = malloc_ok w
      in if \<not> (wa \<noteq> WORKAROUND_NONE \<or> flags \<noteq> 0) then None
         else if \<not> ok then Some (False, xcb_conn_shutdown c, w)
         else
           let pend = \<lparr>first_request = request, last_request = request, workaround = wa,
                       pend_flags = flags\<rparr>
           in Some (True, c\<lparr>c_in := (c_in c)
                \<lparr>pending_replies := pending_replies (c_in c) @ [pend]\<rparr>\<rparr>, w))"

definition xcb_in_replies_done :: "xcb_connection_t \<Rightarrow> xcb_connection_t" where
  "xcb_in_replies_done c =
     (let ps = pending_replies (c_in c)
      in if ps \<noteq> [] \<and> workaround (last ps) = WORKAROUND_EXTERNAL_SOCKET_OWNER then
           c\<lparr>c_in := (c_in c)\<lparr>pending_replies := butlast ps @
               [(last ps)\<lparr>last_request := out_request (c_out c), workaround := WORKAROUND_NONE\<rparr>]\<rparr>\<rparr>
         else c)"

section \<open>Basic facts about the operations\<close>

lemma read_block_spec:
  "read_block need rs ps = (ret, bs, rs', ps') \<Longrightarrow>
     recv_bytes rs = bs @ recv_bytes rs' \<and> (ret > 0 \<longrightarrow> length bs = need)
     \<and> length rs' \<le> length rs"
proof (induction need rs ps arbitrary: ret bs rs' ps' rule: read_block.induct)
  case (2 need r rs ps)
  show ?case
  proof (cases "need = 0")
    case True
    with "2.prems" show ?thesis by auto
  next
    case False
    show ?thesis
    proof (cases r)
      case (RData d)
      show ?thesis
      proof (cases "d \<noteq> [] \<and> length d \<le> need")
        case True
        obtain ret1 more rs1 ps1 where
          rec: "read_block (need - length d) rs ps = (ret1, more, rs1, ps1)"
          by (metis prod_cases4)
        from "2.IH"(1) [OF False RData _ _ rec] True
        have "recv_bytes rs = more @ recv_bytes rs1" "ret1 > 0 \<longrightarrow> length more = need - length d"
          "length rs1 \<le> length rs"
          by auto
        with True False RData rec "2.prems" show ?thesis by auto
      next
        case False
        with \<open>need \<noteq> 0\<close> RData "2.prems" show ?thesis by (auto split: if_splits)
      qed
    next
      case RAgain
      obtain p ps1 where p: "poll_retry ps = (p, ps1)" by (cases "poll_retry ps")
      with "2.IH"(2) [OF False RAgain p [symmetric]] "2.prems" False RAgain show ?thesis
        by (cases p) fastforce+
    next
      case RError
      with False "2.prems" show ?thesis by auto
    qed
  qed
qed (auto split: if_splits)

text \<open>The bytes the server has sent and nobody has looked at: in the queue, then in the socket.\<close>

definition instream :: "xcb_connection_t \<Rightarrow> os \<Rightarrow> byte list" where
  "instream c w = in_queue (c_in c) @ recv_bytes (os_recvs w)"

definition set_queue :: "byte list \<Rightarrow> xcb_connection_t \<Rightarrow> xcb_connection_t" where
  "set_queue q c = c\<lparr>c_in := (c_in c)\<lparr>in_queue := q\<rparr>\<rparr>"

lemma set_queue_frame [simp]:
  "in_queue (c_in (set_queue q c)) = q"
  "request_read (c_in (set_queue q c)) = request_read (c_in c)"
  "request_completed (c_in (set_queue q c)) = request_completed (c_in c)"
  "request_expected (c_in (set_queue q c)) = request_expected (c_in c)"
  "current_reply (c_in (set_queue q c)) = current_reply (c_in c)"
  "replies (c_in (set_queue q c)) = replies (c_in c)"
  "events (c_in (set_queue q c)) = events (c_in c)"
  "readers (c_in (set_queue q c)) = readers (c_in c)"
  "reading (c_in (set_queue q c)) = reading (c_in c)"
  "pending_replies (c_in (set_queue q c)) = pending_replies (c_in c)"
  "c_out (set_queue q c) = c_out c" "has_error (set_queue q c) = has_error c"
  "c_setup (set_queue q c) = c_setup c" "fd (set_queue q c) = fd c"
  "extensions (set_queue q c) = extensions c" "c_xid (set_queue q c) = c_xid c"
  "set_queue q (set_queue q' c) = set_queue q c"
  by (simp_all add: set_queue_def)

lemma xcb_in_read_block_total:
  "0 \<le> len \<Longrightarrow> \<exists>r. xcb_in_read_block len c w = Some r"
  by (auto simp: xcb_in_read_block_def Let_def split: prod.split)

lemma xcb_in_read_block_ok:
  assumes "xcb_in_read_block len c w = Some (ret, buf, c', w')" and "ret > 0"
  obtains rs ps where "ret = len" and "length buf = nat len"
    and "c' = set_queue (drop (nat len) (in_queue (c_in c))) c"
    and "w' = w\<lparr>os_recvs := rs, os_polls := ps\<rparr>"
    and "instream c w = buf @ instream c' w'"
proof -
  let ?q = "in_queue (c_in c)"
  obtain ret1 more rs ps where
    rb: "read_block (nat (len - int (length ?q))) (os_recvs w) (os_polls w) = (ret1, more, rs, ps)"
    by (metis prod_cases4)
  show thesis
  proof (cases "len < int (length ?q)")
    case True
    with assms have "c' = set_queue (drop (nat len) ?q) c" "w' = w" "buf = take (nat len) ?q"
      "ret = len" "0 \<le> len"
      by (auto simp: xcb_in_read_block_def Let_def set_queue_def split: if_splits)
    with True show thesis
      by (intro that [where rs = "os_recvs w" and ps = "os_polls w"])
        (auto simp: instream_def nat_le_iff take_append_drop_eq)
  next
    case False
    show thesis
    proof (cases "len = int (length ?q)")
      case True
      with assms have "c' = set_queue [] c" "w' = w" "buf = ?q" "ret = len"
        by (auto simp: xcb_in_read_block_def Let_def set_queue_def split: if_splits)
      with True show thesis
        by (intro that [where rs = "os_recvs w" and ps = "os_polls w"]) (auto simp: instream_def)
    next
      case neq: False
      with False assms rb have *: "ret1 > 0" "c' = set_queue [] c"
        "w' = w\<lparr>os_recvs := rs, os_polls := ps\<rparr>" "buf = ?q @ more" "ret = len"
        by (auto simp: xcb_in_read_block_def Let_def set_queue_def split: if_splits)
      from read_block_spec [OF rb] *(1)
      have "recv_bytes (os_recvs w) = more @ recv_bytes rs"
        "length more = nat (len - int (length ?q))" by auto
      with * False show thesis
        by (intro that [where rs = rs and ps = ps]) (auto simp: instream_def)
    qed
  qed
qed

lemma track_sequence_frame [frame_simps]:
  assumes "track_sequence g c w = (c', w')"
  shows "in_queue (c_in c') = in_queue (c_in c)" "events (c_in c') = events (c_in c)"
    "readers (c_in c') = readers (c_in c)" "reading (c_in c') = reading (c_in c)"
    "c_out c' = c_out c" "has_error c' = has_error c" "c_setup c' = c_setup c" "fd c' = fd c"
    "extensions c' = extensions c" "c_xid c' = c_xid c"
    "os_recvs w' = os_recvs w" "os_polls w' = os_polls w" "os_wire w' = os_wire w"
    "os_others w' = os_others w" "os_signals w' = os_signals w" "os_writevs w' = os_writevs w"
  using assms
  by (auto simp: track_sequence_def Let_def malloc_ok_def split: if_splits prod.splits list.splits)

section \<open>What one packet does\<close>

definition add_reply :: "packet \<Rightarrow> xcb_connection_t \<Rightarrow> xcb_connection_t" where
  "add_reply p c = c\<lparr>c_in := (c_in c)\<lparr>current_reply := current_reply (c_in c) @ [p]\<rparr>\<rparr>"

definition add_event :: "packet \<Rightarrow> xcb_connection_t \<Rightarrow> xcb_connection_t" where
  "add_event p c = c\<lparr>c_in := (c_in c)\<lparr>events := events (c_in c) @ [p]\<rparr>\<rparr>"

lemma deliver_reply_True:
  "deliver_reply p c w = (True, c', w') \<Longrightarrow>
     c' = add_reply p c \<and> (\<exists>w1. malloc_ok w = (True, w1)
       \<and> w' = signal_reader (request_read (c_in c)) (readers (c_in c)) w1)"
  by (auto simp: deliver_reply_def add_reply_def Let_def split: prod.splits if_splits)

lemma deliver_event_True:
  "deliver_event p c w = (True, c', w') \<Longrightarrow>
     c' = add_event p c \<and> (\<exists>w1. malloc_ok w = (True, w1) \<and> w' = os_signal EventCond w1)"
  by (auto simp: deliver_event_def add_event_def Let_def split: prod.splits if_splits)

lemma signal_reader_eq: "\<exists>sg. signal_reader rr rds w = w\<lparr>os_signals := sg\<rparr>"
proof (induction rds)
  case Nil
  show ?case by (rule exI [of _ "os_signals w"]) simp
next
  case (Cons rd rds)
  have "\<exists>sg. w = w\<lparr>os_signals := sg\<rparr>" by (rule exI [of _ "os_signals w"]) simp
  with Cons show ?case by (auto simp: os_signal_def)
qed

lemma signal_reader_frame [simp, frame_simps]:
  "os_recvs (signal_reader rr rds w) = os_recvs w" "os_polls (signal_reader rr rds w) = os_polls w"
  "os_mallocs (signal_reader rr rds w) = os_mallocs w" "os_wire (signal_reader rr rds w) = os_wire w"
  "os_others (signal_reader rr rds w) = os_others w" "os_writevs (signal_reader rr rds w) = os_writevs w"
  by (metis signal_reader_eq os.select_convs os.surjective os.update_convs)+

lemma os_signal_frame [simp, frame_simps]:
  "os_recvs (os_signal s w) = os_recvs w" "os_polls (os_signal s w) = os_polls w"
  "os_mallocs (os_signal s w) = os_mallocs w" "os_wire (os_signal s w) = os_wire w"
  "os_others (os_signal s w) = os_others w" "os_writevs (os_signal s w) = os_writevs w"
  by (simp_all add: os_signal_def)

lemma malloc_ok_empty: "malloc_ok w = (b, w') \<Longrightarrow> os_mallocs w = [] \<Longrightarrow> os_mallocs w' = []"
  by (auto simp: malloc_ok_def)

lemma malloc_size_frame [frame_simps]:
  "malloc_size sz w = (b, w') \<Longrightarrow> os_recvs w' = os_recvs w \<and> os_polls w' = os_polls w
     \<and> os_wire w' = os_wire w \<and> os_others w' = os_others w \<and> os_signals w' = os_signals w
     \<and> os_writevs w' = os_writevs w \<and> (os_mallocs w = [] \<longrightarrow> os_mallocs w' = [])"
  by (auto simp: malloc_size_def dest: malloc_ok_frame malloc_ok_empty split: if_splits)

lemma track_sequence_mallocs:
  "track_sequence g c w = (c', w') \<Longrightarrow> os_mallocs w = [] \<Longrightarrow> os_mallocs w' = []"
  by (auto simp: track_sequence_def Let_def malloc_ok_def split: if_splits prod.splits)

lemma add_instream [simp]:
  "instream (add_reply p c) w = instream c w" "instream (add_event p c) w = instream c w"
  by (simp_all add: instream_def add_reply_def add_event_def)

text \<open>
  A packet that was read completely: its bytes leave the front of the stream, the sequence
  bookkeeping is done, and it goes where its route says.
\<close>

lemma read_packet_True:
  assumes "read_packet c w = Some (True, c', w')" and g: "g = get_genrep (in_queue (c_in c))"
    and ts: "track_sequence g c w = (c1, w1)" and pend: "pend = packet_pend g (c_in c1)"
    and len: "len = packet_length g pend (in_queue (c_in c))"
  obtains buf ext q w2 where "32 \<le> length (in_queue (c_in c))" and "0 < sint len" and "0 \<le> sint (xge_length g)"
    and "length buf = nat (sint len)" and "length ext = nat (sint (xge_length g))"
    and "instream c w = buf @ ext @ instream c' w'"
    and "q = drop (length buf + length ext) (in_queue (c_in c))"
    and "os_mallocs w = [] \<Longrightarrow> os_mallocs w2 = []" and "os_signals w2 = os_signals w"
    and "case packet_route g pend of
           Dropped \<Rightarrow> c' = set_queue q c1 \<and> w' = w2
         | ToReply \<Rightarrow> c' = add_reply (make_packet g (request_read (c_in c1)) buf ext) (set_queue q c1)
             \<and> w' = signal_reader (request_read (c_in c1)) (readers (c_in c1)) w2
         | ToEvent \<Rightarrow> c' = add_event (make_packet g (request_read (c_in c1)) buf ext) (set_queue q c1)
             \<and> w' = os_signal EventCond w2"
proof -
  let ?sz = "scast (len + xge_length g) + (if response_type g = XCB_REPLY then 0 else 4) :: u64"
  obtain ok w2 where ml: "malloc_size ?sz w1 = (ok, w2)" by (cases "malloc_size ?sz w1")
  from assms(1) have q32: "32 \<le> length (in_queue (c_in c))"
    by (auto simp: read_packet_def split: if_splits)
  note unf = read_packet_def Let_def g [symmetric] ts pend [symmetric] len [symmetric] ml
    bind_eq_Some_conv
  from assms(1) q32 have ok by (auto simp: unf split: if_splits)
  with assms(1) q32 obtain ret1 buf c2 w3 where
    rb: "xcb_in_read_block (sint len) c1 w2 = Some (ret1, buf, c2, w3)" and r1: "ret1 > 0"
    by (auto simp: unf split: if_splits)
  from rb r1 obtain rs ps where b: "ret1 = sint len" "length buf = nat (sint len)"
    "c2 = set_queue (drop (nat (sint len)) (in_queue (c_in c1))) c1"
    "w3 = w2\<lparr>os_recvs := rs, os_polls := ps\<rparr>" "instream c1 w2 = buf @ instream c2 w3"
    by (rule xcb_in_read_block_ok)
  let ?second = "if xge_length g \<noteq> 0 then xcb_in_read_block (sint (xge_length g)) c2 w3
                 else Some (1, [], c2, w3)"
  from assms(1) q32 \<open>ok\<close> rb r1 obtain ret2 ext c3 w4 where
    rb2: "?second = Some (ret2, ext, c3, w4)" and r2: "ret2 > 0"
    and last: "(case packet_route g pend of Dropped \<Rightarrow> Some (True, c3, w4)
       | ToReply \<Rightarrow> Some (deliver_reply (make_packet g (request_read (c_in c3)) buf ext) c3 w4)
       | ToEvent \<Rightarrow> Some (deliver_event (make_packet g (request_read (c_in c3)) buf ext) c3 w4))
       = Some (True, c', w')"
    by (auto simp: unf split: if_splits)
  obtain rs' ps' where e: "0 \<le> sint (xge_length g)" "length ext = nat (sint (xge_length g))"
    "c3 = set_queue (drop (length ext) (in_queue (c_in c2))) c2"
    "w4 = w3\<lparr>os_recvs := rs', os_polls := ps'\<rparr>" "instream c2 w3 = ext @ instream c3 w4"
  proof (cases "xge_length g = 0")
    case True
    with rb2 show thesis
      by (intro that [where rs' = "os_recvs w3" and ps' = "os_polls w3"]) (auto simp: set_queue_def)
  next
    case False
    with rb2 have "xcb_in_read_block (sint (xge_length g)) c2 w3 = Some (ret2, ext, c3, w4)" by simp
    then obtain rs' ps' where "ret2 = sint (xge_length g)" "length ext = nat (sint (xge_length g))"
      "c3 = set_queue (drop (nat (sint (xge_length g))) (in_queue (c_in c2))) c2"
      "w4 = w3\<lparr>os_recvs := rs', os_polls := ps'\<rparr>" "instream c2 w3 = ext @ instream c3 w4"
      using r2 by (rule xcb_in_read_block_ok)
    with r2 show thesis by (intro that [where rs' = rs' and ps' = ps']) auto
  qed
  define q where "q = drop (length buf + length ext) (in_queue (c_in c))"
  have c3: "c3 = set_queue q c1"
    using b e track_sequence_frame(1) [OF ts] by (simp add: q_def add.commute)
  have strm: "instream c w = buf @ ext @ instream c3 w4"
    using b(5) e(5) track_sequence_frame [OF ts] malloc_size_frame [OF ml]
    by (simp add: instream_def)
  have mal: "os_mallocs w4 = []" if "os_mallocs w = []"
    using that b(4) e(4) track_sequence_mallocs [OF ts] malloc_size_frame [OF ml] by simp
  have sig: "os_signals w4 = os_signals w"
    using b(4) e(4) track_sequence_frame [OF ts] malloc_size_frame [OF ml] by simp
  have pos: "0 < sint len" using b(1) r1 by simp
  show thesis
  proof (cases "packet_route g pend")
    case Dropped
    with last have "c' = c3" "w' = w4" by auto
    with Dropped c3 show thesis
      by (intro that [of buf ext q w4]) (use q32 pos b(2) e(1,2) strm q_def mal sig in auto)
  next
    case ToReply
    with last obtain w5 where d: "c' = add_reply (make_packet g (request_read (c_in c3)) buf ext) c3"
      "malloc_ok w4 = (True, w5)"
      "w' = signal_reader (request_read (c_in c3)) (readers (c_in c3)) w5"
      by (auto dest: deliver_reply_True)
    from malloc_ok_frame [OF d(2)] have "instream c' w' = instream c3 w4"
      by (simp add: d instream_def add_reply_def)
    with ToReply c3 d malloc_ok_frame [OF d(2)] malloc_ok_empty [OF d(2)] show thesis
      by (intro that [of buf ext q w5]) (use q32 pos b(2) e(1,2) strm q_def mal sig in auto)
  next
    case ToEvent
    with last obtain w5 where d: "c' = add_event (make_packet g (request_read (c_in c3)) buf ext) c3"
      "malloc_ok w4 = (True, w5)" "w' = os_signal EventCond w5"
      by (auto dest: deliver_event_True)
    from malloc_ok_frame [OF d(2)] have "instream c' w' = instream c3 w4"
      by (simp add: d instream_def add_event_def)
    with ToEvent c3 d malloc_ok_frame [OF d(2)] malloc_ok_empty [OF d(2)] show thesis
      by (intro that [of buf ext q w5]) (use q32 pos b(2) e(1,2) strm q_def mal sig in auto)
  qed
qed

lemma read_packet_shrinks:
  assumes "read_packet c w = Some (True, c', w')"
  shows "length (in_queue (c_in c')) < length (in_queue (c_in c))"
proof -
  let ?g = "get_genrep (in_queue (c_in c))"
  obtain c1 w1 where ts: "track_sequence ?g c w = (c1, w1)" by (cases "track_sequence ?g c w")
  from assms refl ts refl refl obtain buf ext q w2 where
    "32 \<le> length (in_queue (c_in c))" "0 < sint (packet_length ?g (packet_pend ?g (c_in c1)) (in_queue (c_in c)))"
    "length buf = nat (sint (packet_length ?g (packet_pend ?g (c_in c1)) (in_queue (c_in c))))"
    "q = drop (length buf + length ext) (in_queue (c_in c))"
    "case packet_route ?g (packet_pend ?g (c_in c1)) of
           Dropped \<Rightarrow> c' = set_queue q c1 \<and> w' = w2
         | ToReply \<Rightarrow> c' = add_reply (make_packet ?g (request_read (c_in c1)) buf ext) (set_queue q c1)
             \<and> w' = signal_reader (request_read (c_in c1)) (readers (c_in c1)) w2
         | ToEvent \<Rightarrow> c' = add_event (make_packet ?g (request_read (c_in c1)) buf ext) (set_queue q c1)
             \<and> w' = os_signal EventCond w2"
    by (rule read_packet_True)
  then show ?thesis
    by (auto simp: add_reply_def add_event_def split: route.splits)
qed

section \<open>Reading all packets there are\<close>

function read_packets :: "xcb_connection_t \<Rightarrow> os \<Rightarrow> (xcb_connection_t \<times> os) option" where
  "read_packets c w = (case read_packet c w of
       None \<Rightarrow> None
     | Some (again, c', w') \<Rightarrow> if again then read_packets c' w' else Some (c', w'))"
  by pat_completeness auto
termination
  by (relation "measure (\<lambda>(c, w). length (in_queue (c_in c)))") (auto dest: read_packet_shrinks)

declare read_packets.simps [simp del]

text \<open>
  \<open>_xcb_in_read\<close>. The result 1 is kept when \<open>recv\<close> had nothing to read; the packets already in the
  queue are sorted in either case.
\<close>

definition xcb_in_read :: "xcb_connection_t \<Rightarrow> os \<Rightarrow> (bool \<times> xcb_connection_t \<times> os) option" where
  "xcb_in_read c w =
     (let queue = in_queue (c_in c);
          (n, rs) = os_recv (IN_QUEUE_SIZE - length queue) (os_recvs w);
          w = w\<lparr>os_recvs := rs\<rparr>;
          c = (case n of Got bs \<Rightarrow> set_queue (queue @ bs) c | _ \<Rightarrow> c)
      in do {
           (c, w) \<leftarrow> read_packets c w;
           if (case n of Got bs \<Rightarrow> True | Again \<Rightarrow> True | Closed \<Rightarrow> False | Failed \<Rightarrow> False)
           then Some (True, c, w)
           else Some (False, xcb_conn_shutdown c, w)
         })"

lemma read_packets_rule [consumes 1, case_names refl step]:
  assumes "read_packets c w = Some (c', w')"
    and "\<And>c w c' w'. read_packet c w = Some (False, c', w') \<Longrightarrow> P c w c' w'"
    and "\<And>c w c1 w1 c' w'. read_packet c w = Some (True, c1, w1) \<Longrightarrow>
           read_packets c1 w1 = Some (c', w') \<Longrightarrow> P c1 w1 c' w' \<Longrightarrow> P c w c' w'"
  shows "P c w c' w'"
  using assms(1)
proof (induction c w rule: read_packets.induct)
  case (1 c w)
  obtain again c1 w1 where rp: "read_packet c w = Some (again, c1, w1)"
    using "1.prems" by (auto simp: read_packets.simps [of c w] split: option.splits)
  show ?case
  proof (cases again)
    case True
    with rp "1.prems" have next_: "read_packets c1 w1 = Some (c', w')"
      by (simp add: read_packets.simps [of c w])
    with "1.IH" [OF rp] True have "P c1 w1 c' w'" by blast
    moreover from rp True have "read_packet c w = Some (True, c1, w1)" by simp
    ultimately show ?thesis using assms(3) next_ by metis
  next
    case False
    with rp "1.prems" have "c1 = c'" "w1 = w'"
      by (simp_all add: read_packets.simps [of c w])
    with rp False have "read_packet c w = Some (False, c', w')" by simp
    then show ?thesis by (rule assms(2))
  qed
qed

text \<open>
  When \<open>read_packet\<close> stops without an error, fewer than 32 bytes are left, with one exception:
  a reply whose length wraps to 0 stays at the head of the queue for ever.
\<close>

definition zero_length_reply :: "byte list \<Rightarrow> bool" where
  "zero_length_reply q \<longleftrightarrow> 32 \<le> length q \<and> response_type (get_genrep q) = XCB_REPLY
     \<and> (\<exists>pend. packet_length (get_genrep q) pend q = 0)"

lemma xcb_in_read_block_failed:
  assumes "xcb_in_read_block len c w = Some (ret, buf, c', w')" and "ret \<le> 0" and "\<not> has_error c'"
  shows "len = 0 \<and> c' = c \<and> w' = w"
proof -
  have "len \<le> 0" and "w' = w \<and> c' = set_queue (drop (nat len) (in_queue (c_in c))) c"
    and "0 \<le> len"
    using assms
    by (auto simp: xcb_in_read_block_def Let_def xcb_conn_shutdown_def set_queue_def
        split: if_splits prod.splits)
  then show ?thesis by (simp add: set_queue_def)
qed

lemma packet_length_other: "response_type g \<noteq> XCB_REPLY \<Longrightarrow> packet_length g pend q = 32"
  by (simp add: packet_length_def)

lemma read_packet_False:
  assumes "read_packet c w = Some (False, c', w')" and "\<not> has_error c'"
  shows "length (in_queue (c_in c')) < 32 \<or> zero_length_reply (in_queue (c_in c'))"
proof (cases "length (in_queue (c_in c)) < 32")
  case True
  with assms show ?thesis by (simp add: read_packet_def)
next
  case False
  let ?q = "in_queue (c_in c)"
  define g where "g = get_genrep ?q"
  obtain c1 w1 where ts: "track_sequence g c w = (c1, w1)" by (cases "track_sequence g c w")
  define pend where "pend = packet_pend g (c_in c1)"
  define len where "len = packet_length g pend ?q"
  let ?sz = "scast (len + xge_length g) + (if response_type g = XCB_REPLY then 0 else 4) :: u64"
  obtain ok w2 where ml: "malloc_size ?sz w1 = (ok, w2)" by (cases "malloc_size ?sz w1")
  note unf = read_packet_def Let_def g_def [symmetric] ts pend_def [symmetric] len_def [symmetric] ml
    bind_eq_Some_conv
  from False assms have ok by (auto simp: unf xcb_conn_shutdown_def split: if_splits)
  with False assms(1) obtain ret1 buf c2 w3 where
    rb: "xcb_in_read_block (sint len) c1 w2 = Some (ret1, buf, c2, w3)"
    by (auto simp: unf split: if_splits)
  show ?thesis
  proof (cases "ret1 \<le> 0")
    case True
    with False assms(1) \<open>ok\<close> rb have "c' = c2" by (auto simp: unf split: if_splits)
    with xcb_in_read_block_failed [OF rb True] assms(2)
    have "sint len = 0" and "in_queue (c_in c') = ?q"
      using track_sequence_frame(1) [OF ts] by auto
    then have "len = 0" by (simp add: sint_eq_0)
    then have "response_type g = XCB_REPLY"
      using packet_length_other [of g pend ?q] by (auto simp: len_def)
    with \<open>len = 0\<close> False \<open>in_queue (c_in c') = ?q\<close> show ?thesis
      by (auto simp: zero_length_reply_def g_def len_def)
  next
    case pos: False
    let ?second = "if xge_length g \<noteq> 0 then xcb_in_read_block (sint (xge_length g)) c2 w3
                   else Some (1, [], c2, w3)"
    from False assms(1) \<open>ok\<close> rb pos obtain ret2 ext c3 w4 where
      rb2: "?second = Some (ret2, ext, c3, w4)"
      by (auto simp: unf split: if_splits)
    have "\<not> ret2 \<le> 0"
    proof
      assume le: "ret2 \<le> 0"
      with rb2 have ev: "xge_length g \<noteq> 0" by auto
      with rb2 have rb3: "xcb_in_read_block (sint (xge_length g)) c2 w3 = Some (ret2, ext, c3, w4)"
        by simp
      have "c' = c3"
        using False assms(1) \<open>ok\<close> rb pos rb3 ev le by (auto simp: unf split: if_splits)
      with xcb_in_read_block_failed [OF rb3 le] assms(2) ev show False
        by (simp add: sint_eq_0)
    qed
    with False assms(1) \<open>ok\<close> rb pos rb2 have "has_error c'"
      by (auto simp: unf deliver_reply_def deliver_event_def xcb_conn_shutdown_def
          split: if_splits route.splits prod.splits)
    with assms(2) show ?thesis by simp
  qed
qed

end
