(* ===== verification/XcbMailbox.thy ===== *)
theory XcbMailbox
  imports XcbIn
begin

text \<open>
  The contract of the reading side, stated over mailboxes: every request has a queue of
  replies and checked errors, \<open>mailbox c k\<close>, spread over the map \<open>replies\<close> and the list
  \<open>current_reply\<close>. \<open>in_inv\<close> is the invariant that makes the two places one queue: the map has
  at most one list per request, never an empty one, and none for the request being read. The
  lemmas show what \<open>track_sequence\<close>, \<open>read_packet\<close>, \<open>poll_for_reply\<close> and \<open>discard_reply\<close> do to
  mailboxes; the locale \<open>reply_box\<close> is the interface the waiting side uses.
\<close>

section \<open>Mailboxes\<close>

definition map_entries :: "u32 \<Rightarrow> (u32 \<times> packet list) list \<Rightarrow> packet list" where
  "map_entries k m = concat (map snd (filter (\<lambda>p. fst p = k) m))"

definition mailbox :: "xcb_connection_t \<Rightarrow> u32 \<Rightarrow> packet list" where
  "mailbox c k = map_entries k (replies (c_in c))
     @ (if (ucast (request_read (c_in c)) :: u32) = k then current_reply (c_in c) else [])"

definition in_inv :: "xcb_connection_t \<Rightarrow> bool" where
  "in_inv c \<longleftrightarrow> distinct (map fst (replies (c_in c))) \<and> (\<forall>(k, v) \<in> set (replies (c_in c)). v \<noteq> [])
     \<and> (ucast (request_read (c_in c)) :: u32) \<notin> fst ` set (replies (c_in c))"

lemma map_entries_put: "map_entries k (al_put k' v m) = map_entries k m @ (if k' = k then v else [])"
  by (simp add: map_entries_def al_put_def)

lemma map_entries_absent: "k \<notin> fst ` set m \<Longrightarrow> map_entries k m = []"
  by (simp add: map_entries_def map_fst_filter_neq)

lemma filter_distinct_fst:
  "distinct (map fst m) \<Longrightarrow> (k, v) \<in> set m \<Longrightarrow> filter (\<lambda>p. fst p = k) m = [(k, v)]"
proof (induction m)
  case (Cons x m)
  show ?case
  proof (cases "x = (k, v)")
    case True
    with Cons.prems show ?thesis by (auto simp: map_fst_filter_neq)
  next
    case False
    with Cons.prems have "(k, v) \<in> set m" by simp
    then have "k \<in> fst ` set m" by force
    with Cons.prems have "fst x \<noteq> k" by auto
    with Cons \<open>(k, v) \<in> set m\<close> show ?thesis by simp
  qed
qed simp

lemma map_entries_distinct:
  "distinct (map fst m) \<Longrightarrow> (k, v) \<in> set m \<Longrightarrow> map_entries k m = v"
  by (simp add: map_entries_def filter_distinct_fst)

lemma map_entries_remove_other:
  "k' \<noteq> k \<Longrightarrow> map_entries k' (snd (al_remove k m)) = map_entries k' m"
  by (simp add: map_entries_def al_remove_other)

lemma al_remove_entries:
  assumes "distinct (map fst m)" and "\<forall>(k, v) \<in> set m. v \<noteq> []"
  shows "fst (al_remove k m) = (if map_entries k m = [] then None else Some (map_entries k m))"
proof (cases "k \<in> fst ` set m")
  case True
  then obtain v where kv: "(k, v) \<in> set m" by auto
  with assms have "map_entries k m = v" "v \<noteq> []"
    by (auto simp: map_entries_distinct)
  with filter_distinct_fst [OF assms(1) kv] show ?thesis
    by (simp add: al_remove_fst)
next
  case False
  then show ?thesis
    by (simp add: map_entries_absent al_remove_None_iff)
qed

lemma mailbox_cong:
  assumes "replies (c_in c') = replies (c_in c)" "request_read (c_in c') = request_read (c_in c)"
    "current_reply (c_in c') = current_reply (c_in c)"
  shows "mailbox c' = mailbox c" and "in_inv c' = in_inv c"
  using assms by (auto simp: mailbox_def in_inv_def fun_eq_iff)

lemma mailbox_set_queue [simp]: "mailbox (set_queue q c) = mailbox c" "in_inv (set_queue q c) = in_inv c"
  by (rule mailbox_cong; simp)+

lemma mailbox_add_event [simp]: "mailbox (add_event p c) = mailbox c" "in_inv (add_event p c) = in_inv c"
  by (rule mailbox_cong; simp add: add_event_def)+

lemma mailbox_shutdown [simp]:
  "mailbox (xcb_conn_shutdown c) = mailbox c" "in_inv (xcb_conn_shutdown c) = in_inv c"
  by (rule mailbox_cong; simp add: xcb_conn_shutdown_def)+

lemma mailbox_add_reply:
  assumes "in_inv c"
  shows "mailbox (add_reply p c) = (mailbox c)(ucast (request_read (c_in c)) :=
           mailbox c (ucast (request_read (c_in c))) @ [p])"
    and "in_inv (add_reply p c)"
  using assms by (auto simp: mailbox_def add_reply_def in_inv_def fun_eq_iff)

section \<open>Moving on to the next request\<close>

text \<open>
  The packet numbers the request \<open>next_seq g c\<close>; it is \<open>fresh\<close> when no unread replies of a
  request \<open>2 ^ 32\<close> numbers ago are still in the map.
\<close>

definition next_seq :: "xcb_generic_reply_t \<Rightarrow> xcb_connection_t \<Rightarrow> u64" where
  "next_seq g c = (if (response_type g AND 0x7f) \<noteq> XCB_KEYMAP_NOTIFY
     then widen_sequence (request_read (c_in c)) (sequence g) else request_read (c_in c))"

definition seq_ok :: "xcb_generic_reply_t \<Rightarrow> xcb_connection_t \<Rightarrow> bool" where
  "seq_ok g c \<longleftrightarrow> unat (request_read (c_in c)) + 65536 < 2 ^ 63
     \<and> (ucast (next_seq g c) :: u32) \<notin> fst ` set (replies (c_in c))"

lemma track_sequence_read:
  "track_sequence g c w = (c', w') \<Longrightarrow> request_read (c_in c') = next_seq g c"
  by (auto simp: track_sequence_def next_seq_def Let_def malloc_ok_def
      split: if_splits prod.splits list.splits)

lemma low32_neq:
  assumes "a \<le> b" and "a \<noteq> b" and "unat b < unat a + 4294967296"
  shows "(ucast (a :: u64) :: u32) \<noteq> ucast b"
proof
  assume "(ucast a :: u32) = ucast b"
  then have eq: "unat a mod 4294967296 = unat b mod 4294967296"
    by (metis unat_low32)
  have "unat a < unat b" using assms(1,2) by (simp add: word_le_nat_alt le_neq_implies_less word_unat_eq_iff)
  moreover from eq calculation have "4294967296 dvd unat b - unat a"
    by (metis mod_eq_dvd_iff_nat less_imp_le)
  ultimately show False using assms(3) by (auto dest: dvd_imp_le)
qed

lemma next_seq_neq:
  assumes "unat (request_read (c_in c)) + 65536 < 2 ^ 63" and "next_seq g c \<noteq> request_read (c_in c)"
  shows "(ucast (request_read (c_in c)) :: u32) \<noteq> ucast (next_seq g c)"
proof -
  from assms(2) have ns: "next_seq g c = widen_sequence (request_read (c_in c)) (sequence g)"
    by (simp add: next_seq_def split: if_splits)
  from widen_sequence_progress [OF assms(1), of "sequence g"] assms(2) show ?thesis
    unfolding ns by (intro low32_neq) (auto simp: ns)
qed

text \<open>
  When the packet belongs to another request than the last one, the replies read so far move to the map.
  Without memory for the map node they are lost: \<open>forgets\<close> is that case, \<open>kept_boxes\<close> what is left of the mailboxes.
\<close>

definition forgets :: "xcb_generic_reply_t \<Rightarrow> xcb_connection_t \<Rightarrow> os \<Rightarrow> bool" where
  "forgets g c w \<longleftrightarrow> next_seq g c \<noteq> request_read (c_in c) \<and> current_reply (c_in c) \<noteq> [] \<and> \<not> fst (malloc_ok w)"

definition kept_boxes :: "xcb_generic_reply_t \<Rightarrow> xcb_connection_t \<Rightarrow> os \<Rightarrow> u32 \<Rightarrow> packet list" where
  "kept_boxes g c w = (if forgets g c w then (mailbox c)(ucast (request_read (c_in c)) := []) else mailbox c)"

lemma kept_boxes_memory [simp]: "os_mallocs w = [] \<Longrightarrow> kept_boxes g c w = mailbox c"
  by (simp add: kept_boxes_def forgets_def malloc_ok_def)

lemma mailbox_track:
  assumes ts: "track_sequence g c w = (c', w')" and inv: "in_inv c" and ok: "seq_ok g c"
  shows "mailbox c' = kept_boxes g c w" and "in_inv c'"
proof -
  let ?i = "c_in c" and ?lr = "request_read (c_in c)"
  have i': "replies (c_in c') = (if next_seq g c \<noteq> ?lr \<and> current_reply ?i \<noteq> [] \<and> \<not> forgets g c w
        then al_put (ucast ?lr) (current_reply ?i) (replies ?i) else replies ?i)"
    "current_reply (c_in c') = (if next_seq g c \<noteq> ?lr then [] else current_reply ?i)"
    using ts by (auto simp: track_sequence_def next_seq_def forgets_def Let_def split: if_splits prod.splits)
  note rr = track_sequence_read [OF ts]
  have "mailbox c' = kept_boxes g c w \<and> in_inv c'"
  proof (cases "next_seq g c = ?lr")
    case True
    then have "kept_boxes g c w = mailbox c" by (simp add: kept_boxes_def forgets_def)
    with True i' rr inv show ?thesis
      by (metis mailbox_cong)
  next
    case False
    with ok have ne: "(ucast ?lr :: u32) \<noteq> ucast (next_seq g c)"
      by (intro next_seq_neq) (auto simp: seq_ok_def)
    have "map_entries (ucast (next_seq g c)) (replies ?i) = []" "map_entries (ucast ?lr) (replies ?i) = []"
      using ok inv by (simp_all add: map_entries_absent seq_ok_def in_inv_def)
    with False i' rr ne have "mailbox c' k = kept_boxes g c w k" for k
      by (auto simp: mailbox_def kept_boxes_def forgets_def map_entries_put)
    moreover have "in_inv c'"
      using False i' rr ne ok inv by (auto simp: in_inv_def seq_ok_def al_put_def)
    ultimately show ?thesis by (simp add: fun_eq_iff)
  qed
  then show "mailbox c' = kept_boxes g c w" and "in_inv c'" by auto
qed

section \<open>What reading a packet does to the mailboxes\<close>

text \<open>
  The abstract effect of one packet: a packet routed to its request is appended to that
  mailbox, an event to the event queue, and a discarded packet changes neither.
\<close>

lemma read_packet_boxes:
  assumes rp: "read_packet c w = Some (True, c', w')" and inv: "in_inv c"
    and g: "g = get_genrep (in_queue (c_in c))" and ok: "seq_ok g c"
    and ts: "track_sequence g c w = (c1, w1)" and pend: "pend = packet_pend g (c_in c1)"
  obtains buf ext where "in_inv c'" and "os_mallocs w = [] \<Longrightarrow> os_mallocs w' = []"
    and "request_read (c_in c') = next_seq g c"
    and "length buf = nat (sint (packet_length g pend (in_queue (c_in c))))"
    and "length ext = nat (sint (xge_length g))"
    and "instream c w = buf @ ext @ instream c' w'"
    and "case packet_route g pend of
           Dropped \<Rightarrow> mailbox c' = kept_boxes g c w \<and> events (c_in c') = events (c_in c)
         | ToReply \<Rightarrow> mailbox c' = (kept_boxes g c w)(ucast (next_seq g c) :=
               kept_boxes g c w (ucast (next_seq g c)) @ [make_packet g (next_seq g c) buf ext])
             \<and> events (c_in c') = events (c_in c)
         | ToEvent \<Rightarrow> mailbox c' = kept_boxes g c w
             \<and> events (c_in c') = events (c_in c) @ [make_packet g (next_seq g c) buf ext]"
proof -
  note rr = track_sequence_read [OF ts]
  note box = mailbox_track [OF ts inv ok]
  from rp g ts pend refl obtain buf ext q w2 where
    b: "length buf = nat (sint (packet_length g pend (in_queue (c_in c))))"
    "length ext = nat (sint (xge_length g))" "instream c w = buf @ ext @ instream c' w'"
    and m: "os_mallocs w = [] \<longrightarrow> os_mallocs w2 = []"
    and r: "case packet_route g pend of
           Dropped \<Rightarrow> c' = set_queue q c1 \<and> w' = w2
         | ToReply \<Rightarrow> c' = add_reply (make_packet g (request_read (c_in c1)) buf ext) (set_queue q c1)
             \<and> w' = signal_reader (request_read (c_in c1)) (readers (c_in c1)) w2
         | ToEvent \<Rightarrow> c' = add_event (make_packet g (request_read (c_in c1)) buf ext) (set_queue q c1)
             \<and> w' = os_signal EventCond w2"
    by (rule read_packet_True) blast
  note fr = track_sequence_frame [OF ts]
  show thesis
  proof (rule that [OF _ _ _ b])
    show "in_inv c'" using r box by (auto simp: mailbox_add_reply(2) split: route.splits)
    show "os_mallocs w' = []" if "os_mallocs w = []" using r m that by (auto split: route.splits)
    show "request_read (c_in c') = next_seq g c"
      using r rr by (auto simp: add_reply_def add_event_def split: route.splits)
    show "case packet_route g pend of
           Dropped \<Rightarrow> mailbox c' = kept_boxes g c w \<and> events (c_in c') = events (c_in c)
         | ToReply \<Rightarrow> mailbox c' = (kept_boxes g c w)(ucast (next_seq g c) :=
               kept_boxes g c w (ucast (next_seq g c)) @ [make_packet g (next_seq g c) buf ext])
             \<and> events (c_in c') = events (c_in c)
         | ToEvent \<Rightarrow> mailbox c' = kept_boxes g c w
             \<and> events (c_in c') = events (c_in c) @ [make_packet g (next_seq g c) buf ext]"
    proof (cases "packet_route g pend")
      case Dropped
      with r box fr show ?thesis by simp
    next
      case ToReply
      with r have c': "c' = add_reply (make_packet g (next_seq g c) buf ext) (set_queue q c1)"
        by (simp add: rr)
      have "mailbox c' = (kept_boxes g c w)(ucast (next_seq g c) :=
               kept_boxes g c w (ucast (next_seq g c)) @ [make_packet g (next_seq g c) buf ext])"
        unfolding c' using box by (simp add: mailbox_add_reply rr)
      with ToReply c' fr show ?thesis by (simp add: add_reply_def)
    next
      case ToEvent
      with r box fr show ?thesis by (simp add: rr) (simp add: add_event_def)
    qed
  qed
qed

text \<open>With memory for the map all other mailboxes keep their contents.\<close>

lemma read_packet_mailbox:
  assumes "read_packet c w = Some (True, c', w')" and "in_inv c" and mal: "os_mallocs w = []"
    and "g = get_genrep (in_queue (c_in c))" and "seq_ok g c"
    and "track_sequence g c w = (c1, w1)" and "pend = packet_pend g (c_in c1)"
  obtains buf ext where "in_inv c'" and "os_mallocs w' = []"
    and "request_read (c_in c') = next_seq g c"
    and "length buf = nat (sint (packet_length g pend (in_queue (c_in c))))"
    and "length ext = nat (sint (xge_length g))"
    and "instream c w = buf @ ext @ instream c' w'"
    and "case packet_route g pend of
           Dropped \<Rightarrow> mailbox c' = mailbox c \<and> events (c_in c') = events (c_in c)
         | ToReply \<Rightarrow> mailbox c' = (mailbox c)(ucast (next_seq g c) :=
               mailbox c (ucast (next_seq g c)) @ [make_packet g (next_seq g c) buf ext])
             \<and> events (c_in c') = events (c_in c)
         | ToEvent \<Rightarrow> mailbox c' = mailbox c
             \<and> events (c_in c') = events (c_in c) @ [make_packet g (next_seq g c) buf ext]"
  using read_packet_boxes [OF assms(1,2,4-7)] that mal unfolding kept_boxes_memory [OF mal] by blast

section \<open>Taking a reply\<close>

lemma reply_head_Some:
  assumes inv: "in_inv c" and mal: "os_mallocs w = []" and k: "k \<noteq> 0"
    and le: "XCB_SEQUENCE_COMPARE_32 k (\<le>) (request_read (c_in c))" and mb: "mailbox c k = p # ps"
  shows "\<exists>c'. reply_head k c w = Some (Some p, c', w) \<and> in_inv c' \<and> mailbox c' = (mailbox c)(k := ps)
     \<and> (\<exists>m r. c' = c\<lparr>c_in := (c_in c)\<lparr>replies := m, current_reply := r\<rparr>\<rparr>)"
proof (cases "XCB_SEQUENCE_COMPARE_32 k (<) (request_read (c_in c))")
  case True
  let ?m = "replies (c_in c)"
  have ne: "(ucast (request_read (c_in c)) :: u32) \<noteq> k"
    using True seq32_less_irrefl [of k "request_read (c_in c)"] by auto
  with mb have me: "map_entries k ?m = p # ps" by (simp add: mailbox_def)
  from inv have d: "distinct (map fst ?m)" "\<forall>(k, v) \<in> set ?m. v \<noteq> []" by (auto simp: in_inv_def)
  from al_remove_entries [OF d, of k] me
  obtain m' where rm: "al_remove k ?m = (Some (p # ps), m')" by (cases "al_remove k ?m") auto
  have m': "m' = snd (al_remove k ?m)" by (simp add: rm)
  let ?m2 = "if ps \<noteq> [] then al_put k ps m' else m'"
  let ?c = "c\<lparr>c_in := (c_in c)\<lparr>replies := ?m2\<rparr>\<rparr>"
  have "reply_head k c w = Some (Some p, ?c, w)"
    using k True rm mal by (simp add: reply_head_def malloc_none)
  moreover have kn: "k \<notin> fst ` set m'"
    unfolding m' by (rule al_remove_distinct_notin [OF d(1)])
  moreover have "mailbox ?c = (mailbox c)(k := ps)"
    using ne map_entries_absent [OF kn] map_entries_remove_other [of _ k ?m]
    by (auto simp: mailbox_def map_entries_put m' fun_eq_iff)
  moreover have "distinct (map fst m')" "\<forall>(k, v) \<in> set m'. v \<noteq> []"
    "(ucast (request_read (c_in c)) :: u32) \<notin> fst ` set m'"
    using inv distinct_al_remove [OF d(1), of k] set_al_remove [of k ?m] d(2)
    by (auto simp: in_inv_def m')
  then have "in_inv ?c"
    using ne kn by (cases "ps = []") (simp_all add: in_inv_def al_put_def)
  moreover have "?c = c\<lparr>c_in := (c_in c)\<lparr>replies := ?m2, current_reply := current_reply (c_in c)\<rparr>\<rparr>"
    by simp
  ultimately show ?thesis by blast
next
  case False
  with le have eq: "(ucast (request_read (c_in c)) :: u32) = k"
    by (auto simp: seq32_le_iff)
  with inv have "map_entries k (replies (c_in c)) = []"
    by (intro map_entries_absent) (auto simp: in_inv_def)
  with mb eq have cur: "current_reply (c_in c) = p # ps" by (simp add: mailbox_def)
  let ?c = "c\<lparr>c_in := (c_in c)\<lparr>current_reply := ps\<rparr>\<rparr>"
  have "reply_head k c w = Some (Some p, ?c, w)"
    using k False cur eq by (simp add: reply_head_def seq32_eq)
  moreover have "mailbox ?c = (mailbox c)(k := ps)"
    using eq \<open>map_entries k (replies (c_in c)) = []\<close> by (auto simp: mailbox_def fun_eq_iff)
  moreover have "in_inv ?c" using inv by (simp add: in_inv_def)
  moreover have "?c = c\<lparr>c_in := (c_in c)\<lparr>replies := replies (c_in c), current_reply := ps\<rparr>\<rparr>"
    by simp
  ultimately show ?thesis by blast
qed

lemma reply_head_None:
  assumes inv: "in_inv c" and lt: "XCB_SEQUENCE_COMPARE_32 k (<) (request_read (c_in c))"
    and mb: "mailbox c k = []"
  shows "reply_head k c w = Some (None, c, w)"
proof (cases "k = 0")
  case True
  then show ?thesis by (simp add: reply_head_def)
next
  case False
  from mb have me: "map_entries k (replies (c_in c)) = []" by (simp add: mailbox_def)
  from inv have "distinct (map fst (replies (c_in c)))" "\<forall>(k, v) \<in> set (replies (c_in c)). v \<noteq> []"
    by (auto simp: in_inv_def)
  from al_remove_entries [OF this, of k] me have "fst (al_remove k (replies (c_in c))) = None" by simp
  then have "al_remove k (replies (c_in c)) = (None, replies (c_in c))"
    by (simp add: al_remove_None_iff al_remove_absent)
  with False lt show ?thesis by (simp add: reply_head_def)
qed

section \<open>The interface of the waiting side\<close>

text \<open>
  \<open>reply_box\<close>: a store of replies that is polled by request number. \<open>ready\<close> says that the
  server has got as far as the request, \<open>view\<close> is how a packet is presented to the caller.
\<close>

fun poll_run :: "(u32 \<Rightarrow> 's \<Rightarrow> 'r option \<times> 's) \<Rightarrow> nat \<Rightarrow> u32 \<Rightarrow> 's \<Rightarrow> 'r option list \<times> 's" where
  "poll_run poll 0 k s = ([], s)"
| "poll_run poll (Suc n) k s = (let (r, s) = poll k s; (rs, s) = poll_run poll n k s in (r # rs, s))"

locale reply_box =
  fixes good :: "'s \<Rightarrow> bool"
    and ready :: "u32 \<Rightarrow> 's \<Rightarrow> bool"
    and box :: "'s \<Rightarrow> u32 \<Rightarrow> packet list"
    and view :: "packet \<Rightarrow> 'r"
    and poll :: "u32 \<Rightarrow> 's \<Rightarrow> 'r option \<times> 's"
  assumes poll_head: "good s \<Longrightarrow> ready k s \<Longrightarrow> box s k = p # ps \<Longrightarrow>
      \<exists>s'. poll k s = (Some (view p), s') \<and> good s' \<and> box s' = (box s)(k := ps) \<and> (\<forall>j. ready j s' = ready j s)"
begin

lemma poll_run_all:
  "good s \<Longrightarrow> ready k s \<Longrightarrow> box s k = ps @ qs \<Longrightarrow>
     \<exists>s'. poll_run poll (length ps) k s = (map (Some \<circ> view) ps, s') \<and> good s' \<and> box s' = (box s)(k := qs)"
proof (induction ps arbitrary: s)
  case Nil
  then show ?case by (auto simp: fun_eq_iff)
next
  case (Cons p ps)
  from Cons.prems have "box s k = p # (ps @ qs)" by simp
  from poll_head [OF Cons.prems(1,2) this] obtain s1 where
    s1: "poll k s = (Some (view p), s1)" "good s1" "box s1 = (box s)(k := ps @ qs)" "ready k s1"
    using Cons.prems(2) by blast
  have "box s1 k = ps @ qs" using s1(3) by simp
  from Cons.IH [OF s1(2,4) this] obtain s2 where
    "poll_run poll (length ps) k s1 = (map (Some \<circ> view) ps, s2)" "good s2" "box s2 = (box s1)(k := qs)"
    by blast
  with s1 show ?case by (auto simp: fun_eq_iff)
qed

end

text \<open>The connection provides it, through \<open>xcb_poll_for_reply\<close>.\<close>

definition conn_good :: "xcb_connection_t \<times> os \<Rightarrow> bool" where
  "conn_good s \<longleftrightarrow> in_inv (fst s) \<and> os_mallocs (snd s) = [] \<and> \<not> has_error (fst s)"

definition conn_ready :: "u32 \<Rightarrow> xcb_connection_t \<times> os \<Rightarrow> bool" where
  "conn_ready k s \<longleftrightarrow> k \<noteq> 0 \<and> XCB_SEQUENCE_COMPARE_32 k (\<le>) (request_read (c_in (fst s)))"

definition conn_poll :: "bool \<Rightarrow> u32 \<Rightarrow> xcb_connection_t \<times> os \<Rightarrow> poll_result_t option \<times> xcb_connection_t \<times> os" where
  "conn_poll want_error k s = xcb_poll_for_reply k want_error (fst s) (snd s)"

interpretation cb: reply_box conn_good conn_ready "\<lambda>s. mailbox (fst s)"
  "\<lambda>p. split_reply (Some p) want_error" "conn_poll want_error"
proof
  fix s k p ps
  assume good: "conn_good s" and ready: "conn_ready k s" and mb: "mailbox (fst s) k = p # ps"
  from good have g: "in_inv (fst s)" "os_mallocs (snd s) = []" by (auto simp: conn_good_def)
  from ready have r: "k \<noteq> 0" "XCB_SEQUENCE_COMPARE_32 k (\<le>) (request_read (c_in (fst s)))"
    by (auto simp: conn_ready_def)
  from reply_head_Some [OF g r mb] obtain c' where
    c': "reply_head k (fst s) (snd s) = Some (Some p, c', snd s)" "in_inv c'"
    "mailbox c' = (mailbox (fst s))(k := ps)"
    and eq: "\<exists>m r. c' = (fst s)\<lparr>c_in := (c_in (fst s))\<lparr>replies := m, current_reply := r\<rparr>\<rparr>"
    by blast
  from eq have "request_read (c_in c') = request_read (c_in (fst s))" "has_error c' = has_error (fst s)"
    by auto
  with c' g good show "\<exists>s'. conn_poll want_error k s = (Some (split_reply (Some p) want_error), s') \<and> conn_good s'
      \<and> mailbox (fst s') = (mailbox (fst s))(k := ps) \<and> (\<forall>j. conn_ready j s' = conn_ready j s)"
    by (intro exI [of _ "(c', snd s)"])
      (auto simp: conn_poll_def conn_good_def conn_ready_def xcb_poll_for_reply_def poll_for_reply_def)
qed

section \<open>Reading until the queue is drained\<close>

lemma read_packets_drained:
  "read_packets c w = Some (c', w') \<Longrightarrow> \<not> has_error c' \<Longrightarrow>
     length (in_queue (c_in c')) < 32 \<or> zero_length_reply (in_queue (c_in c'))"
  by (induction rule: read_packets_rule) (auto dest: read_packet_False)

section \<open>Properties\<close>

text \<open>
  Without memory replies are lost in silence: when the next packet belongs to another request and there is
  no memory for the map node, the result of \<open>_xcb_map_put\<close> is ignored, the replies of the previous
  request are in no data structure any more, and the connection is not in error.
\<close>

lemma replies_lost_without_memory:
  assumes "track_sequence g c w = (c1, w1)" and "os_mallocs w = False # ms" and "in_inv c"
    and "current_reply (c_in c) \<noteq> []" and "k = ucast (request_read (c_in c))"
    and "(response_type g AND 0x7f) \<noteq> XCB_KEYMAP_NOTIFY" and "ucast (next_seq g c) \<noteq> (k :: u32)"
  shows "mailbox c k \<noteq> [] \<and> mailbox c1 k = [] \<and> has_error c1 = has_error c"
proof -
  have n: "next_seq g c = widen_sequence (request_read (c_in c)) (sequence g)" using assms(6) by (simp add: next_seq_def)
  then have "widen_sequence (request_read (c_in c)) (sequence g) \<noteq> request_read (c_in c)" using assms(5,7) by auto
  with assms(1,2,4,6) n have "replies (c_in c1) = replies (c_in c)" "current_reply (c_in c1) = []"
    "request_read (c_in c1) = next_seq g c" "has_error c1 = has_error c"
    by (cases "XCB_SEQUENCE_COMPARE (widen_sequence (request_read (c_in c)) (sequence g)) (>) (request_expected (c_in c))";
      auto simp: track_sequence_def malloc_ok_def Let_def)+
  moreover have "map_entries k (replies (c_in c)) = []" using assms(3,5) by (simp add: in_inv_def map_entries_absent)
  ultimately show ?thesis using assms(4,5,7) by (simp add: mailbox_def)
qed

text \<open>
  C1: Sorting of packets. A packet that \<open>read_packet\<close> reads completely takes exactly its bytes off
  the front of the byte stream (queue and socket together). A reply or checked error is appended
  to the mailbox of the request whose 64 bit number the header stands for, an event or unchecked
  error to the end of the event queue, a discarded packet to neither. All other mailboxes keep
  their contents, although the replies of the previous request move to another data structure, with one
  exception: when the packet belongs to another request and the allocation for that move fails (\<open>forgets\<close>), the mailbox of
  the previous request is emptied. Request numbers are below \<open>2 ^ 63\<close>, and no replies to the request \<open>2 ^ 32\<close>
  numbers earlier wait unread (\<open>seq_ok\<close>).
\<close>

theorem read_packet_sorts:
  assumes "read_packet c w = Some (True, c', w')" and "in_inv c"
    and "g = get_genrep (in_queue (c_in c))" and "seq_ok g c"
    and "track_sequence g c w = (c1, w1)" and "pend = packet_pend g (c_in c1)"
    and "boxes = (if forgets g c w then (mailbox c)(ucast (request_read (c_in c)) := []) else mailbox c)"
  shows "in_inv c' \<and> request_read (c_in c') = next_seq g c \<and>
    (\<exists>buf ext. length buf = nat (sint (packet_length g pend (in_queue (c_in c))))
      \<and> length ext = nat (sint (xge_length g)) \<and> instream c w = buf @ ext @ instream c' w'
      \<and> (case packet_route g pend of
           Dropped \<Rightarrow> mailbox c' = boxes \<and> events (c_in c') = events (c_in c)
         | ToReply \<Rightarrow> mailbox c' = boxes(ucast (next_seq g c) :=
               boxes (ucast (next_seq g c)) @ [make_packet g (next_seq g c) buf ext])
             \<and> events (c_in c') = events (c_in c)
         | ToEvent \<Rightarrow> mailbox c' = boxes
             \<and> events (c_in c') = events (c_in c) @ [make_packet g (next_seq g c) buf ext]))"
  using assms(1-6) unfolding assms(7) kept_boxes_def [symmetric] by (rule read_packet_boxes) blast

theorem read_packet_sorts_witness:
  "\<exists>c w c'. in_queue (c_in c) = packet32 XCB_REPLY 1 0 \<and> (\<exists>w'. read_packet c w = Some (True, c', w'))
     \<and> (\<exists>buf. length buf = 32 \<and> mailbox c' 1 = [\<lparr>contents = buf, full_sequence = None, xge_data = []\<rparr>])"
proof -
  let ?c = "zero_conn\<lparr>c_in := zero_in\<lparr>in_queue := packet32 XCB_REPLY 1 0\<rparr>\<rparr>"
  let ?g = "\<lparr>response_type = XCB_REPLY, sequence = 1, rep_length = 0\<rparr>"
  let ?c1 = "?c\<lparr>c_in := (c_in ?c)\<lparr>request_read := 1, request_expected := 1\<rparr>\<rparr>"
  let ?c2 = "?c1\<lparr>c_in := (c_in ?c1)\<lparr>in_queue := [], current_reply :=
               [\<lparr>contents = packet32 XCB_REPLY 1 0, full_sequence = None, xge_data = []\<rparr>]\<rparr>\<rparr>"
  have ts: "track_sequence ?g ?c quiet_os = (?c1, quiet_os)"
    by (simp add: track_sequence_def Let_def widen_sequence_def XCB_SEQUENCE_COMPARE_def
        packet_consts zero_defs)
  have r: "read_packet ?c quiet_os = Some (True, ?c2, quiet_os)"
    by (simp add: read_packet_def Let_def track_sequence_def widen_sequence_def
        XCB_SEQUENCE_COMPARE_def packet_consts packet_pend_def current_pend_def packet_length_def
        xge_length_def malloc_size_def malloc_ok_def xcb_in_read_block_def packet_route_def
        pend_has_def flag_consts deliver_reply_def make_packet_def zero_defs)
  have i: "in_inv ?c" by (simp add: in_inv_def zero_defs)
  have ns: "next_seq ?g ?c = 1"
    by (simp add: next_seq_def widen_sequence_def XCB_SEQUENCE_COMPARE_def packet_consts zero_defs)
  have ok: "seq_ok ?g ?c" by (simp add: seq_ok_def ns) (simp add: zero_defs)
  have g: "?g = get_genrep (in_queue (c_in ?c))" by (simp add: packet_consts)
  have pend: "None = packet_pend ?g (c_in ?c1)"
    by (simp add: packet_pend_def current_pend_def zero_defs)
  have "mailbox ?c 1 = []" by (simp add: mailbox_def map_entries_def zero_defs)
  with read_packet_sorts [OF r i g ok ts pend refl]
  obtain buf where "length buf = 32"
    "mailbox ?c2 1 = [\<lparr>contents = buf, full_sequence = None, xge_data = []\<rparr>]"
    by (auto simp: packet_length_def xge_length_def packet_route_def pend_has_def ns make_packet_def
        packet_consts forgets_def zero_defs split: route.splits)
  with r show ?thesis
    by (intro exI [of _ ?c] exI [of _ quiet_os] exI [of _ ?c2]) auto
qed

end
