(* ===== verification/XcbDiscard.thy ===== *)
theory XcbDiscard
  imports XcbMailbox
begin

text \<open>
  Discarding replies (\<open>discard_reply\<close> of \<open>src/src/xcb_in.c\<close>): the replies that are there are thrown
  away, and the list of pending replies remembers to throw away those that still come.
  \<open>pend_inv\<close> is the invariant of that list while no external owner has the socket: one entry per
  request, in order of request numbers, none behind the request being read, and fewer than
  \<open>2 ^ 31\<close> requests on their way.
\<close>

section \<open>The list of pending replies\<close>

definition pend_inv :: "xcb_connection_t \<Rightarrow> bool" where
  "pend_inv c \<longleftrightarrow>
     (\<forall>p \<in> set (pending_replies (c_in c)). workaround p \<noteq> WORKAROUND_EXTERNAL_SOCKET_OWNER
        \<and> last_request p = first_request p \<and> request_read (c_in c) \<le> first_request p
        \<and> first_request p \<le> out_request (c_out c))
     \<and> sorted_wrt (\<lambda>p q. first_request p < first_request q) (pending_replies (c_in c))
     \<and> low_half (out_request (c_out c)) \<and> request_read (c_in c) \<le> out_request (c_out c)
     \<and> unat (out_request (c_out c)) < unat (request_read (c_in c)) + 2 ^ 31"

definition doomed :: "u64 \<Rightarrow> xcb_connection_t \<Rightarrow> bool" where
  "doomed K c \<longleftrightarrow> pend_inv c \<and> request_read (c_in c) \<le> K \<and> request_completed (c_in c) < K
     \<and> (\<exists>p \<in> set (pending_replies (c_in c)). first_request p = K
          \<and> has_flag (pend_flags p) XCB_REQUEST_DISCARD_REPLY)"

lemma low_half_le: "low_half b \<Longrightarrow> a \<le> b \<Longrightarrow> low_half a"
  by (simp add: low_half_def word_le_nat_alt)

lemma drop_completed_plain:
  assumes "\<forall>p \<in> set ps. workaround p \<noteq> WORKAROUND_EXTERNAL_SOCKET_OWNER
        \<and> last_request p = first_request p \<and> low_half (first_request p)"
    and "sorted_wrt (\<lambda>p q. first_request p < first_request q) ps" and "low_half d"
  shows "drop_completed d ps = filter (\<lambda>p. d < first_request p) ps"
  using assms(1,2)
proof (induction ps)
  case (Cons p ps)
  have seq: "XCB_SEQUENCE_COMPARE (last_request p) (\<le>) d \<longleftrightarrow> first_request p \<le> d"
    using Cons.prems(1) assms(3) seq_le [of "last_request p" d] by auto
  have IH: "drop_completed d ps = filter (\<lambda>p. d < first_request p) ps"
    by (rule Cons.IH) (use Cons.prems in auto)
  show ?case
  proof (cases "first_request p \<le> d")
    case True
    with IH Cons.prems(1) seq show ?thesis by (simp add: not_less)
  next
    case False
    then have lt: "d < first_request p" by simp
    with Cons.prems(2) have "\<forall>q \<in> set ps. d < first_request q" by auto
    then have "filter (\<lambda>p. d < first_request p) ps = ps" by (simp add: filter_id_conv)
    with Cons.prems lt seq show ?thesis by auto
  qed
qed simp

lemma pend_inv_plain:
  assumes "pend_inv c" and "p \<in> set (pending_replies (c_in c))"
  shows "workaround p \<noteq> WORKAROUND_EXTERNAL_SOCKET_OWNER" "last_request p = first_request p"
    "low_half (first_request p)"
  using assms low_half_le by (auto simp: pend_inv_def)

lemma pend_inv_drop:
  assumes "pend_inv c" and "low_half d"
  shows "drop_completed d (pending_replies (c_in c)) =
    filter (\<lambda>p. d < first_request p) (pending_replies (c_in c))"
  using assms pend_inv_plain [OF assms(1)] by (intro drop_completed_plain) (auto simp: pend_inv_def)

text \<open>The head of a sorted list that holds an entry for the current request is that entry.\<close>

lemma current_pend_hit:
  assumes "pend_inv c" and "p \<in> set (pending_replies (c_in c))"
    and "first_request p = request_read (c_in c)"
  shows "current_pend (c_in c) = Some p"
proof -
  obtain q qs where ps: "pending_replies (c_in c) = q # qs"
    using assms(2) by (cases "pending_replies (c_in c)") auto
  have "q = p"
  proof (rule ccontr)
    assume "q \<noteq> p"
    with assms(2) ps have "p \<in> set qs" by simp
    with assms(1) ps have "first_request q < first_request p" "request_read (c_in c) \<le> first_request q"
      by (auto simp: pend_inv_def)
    with assms(3) show False by simp
  qed
  with ps assms pend_inv_plain [OF assms(1,2)] show ?thesis
    by (simp add: current_pend_def)
qed

lemma current_pend_first:
  assumes "pend_inv c" and "current_pend (c_in c) = Some p"
  shows "first_request p = request_read (c_in c)" "p \<in> set (pending_replies (c_in c))"
    "pending_replies (c_in c) = p # tl (pending_replies (c_in c))"
proof -
  from assms(2) obtain qs where ps: "pending_replies (c_in c) = p # qs"
    and seq: "XCB_SEQUENCE_COMPARE (first_request p) (\<le>) (request_read (c_in c))"
    by (auto simp: current_pend_def split: list.splits if_splits)
  then have pin: "p \<in> set (pending_replies (c_in c))" by simp
  have "low_half (request_read (c_in c))"
    using assms(1) low_half_le by (auto simp: pend_inv_def)
  with seq pend_inv_plain(3) [OF assms(1) pin] have "first_request p \<le> request_read (c_in c)"
    by (simp add: seq_le)
  moreover have "request_read (c_in c) \<le> first_request p"
    using assms(1) pin by (auto simp: pend_inv_def)
  ultimately show "first_request p = request_read (c_in c)" by simp
  show "p \<in> set (pending_replies (c_in c))" by (rule pin)
  show "pending_replies (c_in c) = p # tl (pending_replies (c_in c))" using ps by simp
qed

section \<open>Packets for a discarded request\<close>

lemma track_sequence_pend:
  assumes "track_sequence g c w = (c', w')" and "(response_type g AND 0x7f) \<noteq> XCB_KEYMAP_NOTIFY"
  shows "pending_replies (c_in c') = drop_completed
      (if next_seq g c \<noteq> request_read (c_in c) then next_seq g c - 1 else request_completed (c_in c))
      (pending_replies (c_in c))"
    and "request_completed (c_in c') = (if response_type g = XCB_ERROR then next_seq g c
      else if next_seq g c \<noteq> request_read (c_in c) then next_seq g c - 1 else request_completed (c_in c))"
  using assms by (auto simp: track_sequence_def next_seq_def Let_def malloc_ok_def
      split: if_splits prod.splits list.splits)

lemma track_sequence_keymap:
  "(response_type g AND 0x7f) = XCB_KEYMAP_NOTIFY \<Longrightarrow> track_sequence g c w = (c, w)"
  by (simp add: track_sequence_def)

lemma next_seq_ge: "unat (request_read (c_in c)) + 65536 < 2 ^ 63 \<Longrightarrow> request_read (c_in c) \<le> next_seq g c"
  by (simp add: next_seq_def widen_sequence_progress)

lemma word_pred_less: "(0 :: 'a :: len word) < x \<Longrightarrow> x - 1 < x"
  by (metis measure_unat word_less_nat_alt word_not_simps(1))

text \<open>The bookkeeping keeps the entry of a discarded request that is still to come.\<close>

lemma doomed_track:
  assumes ts: "track_sequence g c w = (c', w')" and dm: "doomed K c"
    and room: "unat (request_read (c_in c)) + 65536 < 2 ^ 63" and le: "next_seq g c \<le> K"
  shows "pend_inv c'" and "\<exists>p \<in> set (pending_replies (c_in c')). first_request p = K
          \<and> has_flag (pend_flags p) XCB_REQUEST_DISCARD_REPLY"
    and "response_type g = XCB_ERROR \<and> next_seq g c = K \<or> request_completed (c_in c') < K"
proof -
  let ?rr = "request_read (c_in c)" and ?ns = "next_seq g c"
  from dm have inv: "pend_inv c" and compl: "request_completed (c_in c) < K"
    and ex: "\<exists>p \<in> set (pending_replies (c_in c)). first_request p = K
          \<and> has_flag (pend_flags p) XCB_REQUEST_DISCARD_REPLY"
    by (auto simp: doomed_def)
  from ex inv have kout: "K \<le> out_request (c_out c)" and lo: "low_half (out_request (c_out c))"
    by (auto simp: pend_inv_def)
  have "pend_inv c' \<and> (\<exists>p \<in> set (pending_replies (c_in c')). first_request p = K
          \<and> has_flag (pend_flags p) XCB_REQUEST_DISCARD_REPLY)
     \<and> (response_type g = XCB_ERROR \<and> ?ns = K \<or> request_completed (c_in c') < K)"
  proof (cases "(response_type g AND 0x7f) = XCB_KEYMAP_NOTIFY")
    case True
    with ts inv ex compl show ?thesis by (simp add: track_sequence_keymap)
  next
    case False
    define d where "d = (if ?ns \<noteq> ?rr then ?ns - 1 else request_completed (c_in c))"
    have ge: "?rr \<le> ?ns" by (rule next_seq_ge [OF room])
    have pos: "?ns - 1 < ?ns" if "?ns \<noteq> ?rr"
    proof (rule word_pred_less)
      have "?rr < ?ns" using ge that by simp
      then show "0 < ?ns" by (metis not_less word_zero_le order.strict_trans1)
    qed
    then have dK: "d < K" using le compl by (auto simp: d_def)
    have ld: "low_half d" using dK kout lo low_half_le [of "out_request (c_out c)" d] by simp
    have ps: "pending_replies (c_in c') = filter (\<lambda>p. d < first_request p) (pending_replies (c_in c))"
      using track_sequence_pend(1) [OF ts False] pend_inv_drop [OF inv ld] by (simp add: d_def)
    have rr': "request_read (c_in c') = ?ns" by (rule track_sequence_read [OF ts])
    have out: "c_out c' = c_out c" by (rule track_sequence_frame(5) [OF ts])
    have nsd: "?ns \<le> first_request p" if "p \<in> set (pending_replies (c_in c'))" for p
    proof (cases "?ns = ?rr")
      case True
      with that ps inv show ?thesis by (auto simp: pend_inv_def)
    next
      case False
      with that ps have "?ns - 1 < first_request p" by (simp add: d_def)
      with pos [OF False] show ?thesis
        by (metis add_diff_cancel_right' diff_add_cancel inc_le)
    qed
    have "unat ?rr \<le> unat ?ns" using ge by (simp add: word_le_nat_alt)
    then have "pend_inv c'"
      using inv nsd le kout unfolding pend_inv_def ps rr' out
      by (auto intro: sorted_wrt_filter)
    moreover have "\<exists>p \<in> set (pending_replies (c_in c')). first_request p = K
          \<and> has_flag (pend_flags p) XCB_REQUEST_DISCARD_REPLY"
      using ex dK by (auto simp: ps)
    moreover have "response_type g = XCB_ERROR \<and> ?ns = K \<or> request_completed (c_in c') < K"
      using track_sequence_pend(2) [OF ts False] dK le by (auto simp: d_def)
    ultimately show ?thesis by blast
  qed
  then show "pend_inv c'" and "\<exists>p \<in> set (pending_replies (c_in c')). first_request p = K
          \<and> has_flag (pend_flags p) XCB_REQUEST_DISCARD_REPLY"
    and "response_type g = XCB_ERROR \<and> next_seq g c = K \<or> request_completed (c_in c') < K"
    by auto
qed

lemma doomed_read_packet:
  assumes rp: "read_packet c w = Some (True, c', w')" and dm: "doomed K c" and inv: "in_inv c"
    and mal: "os_mallocs w = []" and g: "g = get_genrep (in_queue (c_in c))" and ok: "seq_ok g c"
    and le: "next_seq g c \<le> K"
  shows "in_inv c'" and "os_mallocs w' = []" and "mailbox c' (ucast K) = mailbox c (ucast K)"
    and "doomed K c' \<or> request_completed (c_in c') = K"
    and "request_read (c_in c') \<le> K"
proof -
  obtain c1 w1 where ts: "track_sequence g c w = (c1, w1)" by (cases "track_sequence g c w")
  define pend where "pend = packet_pend g (c_in c1)"
  from ok have room: "unat (request_read (c_in c)) + 65536 < 2 ^ 63" by (simp add: seq_ok_def)
  note dt = doomed_track [OF ts dm room le]
  from rp g ts pend_def refl obtain buf ext q w2 where
    r: "case packet_route g pend of
           Dropped \<Rightarrow> c' = set_queue q c1 \<and> w' = w2
         | ToReply \<Rightarrow> c' = add_reply (make_packet g (request_read (c_in c1)) buf ext) (set_queue q c1)
             \<and> w' = signal_reader (request_read (c_in c1)) (readers (c_in c1)) w2
         | ToEvent \<Rightarrow> c' = add_event (make_packet g (request_read (c_in c1)) buf ext) (set_queue q c1)
             \<and> w' = os_signal EventCond w2"
    by (rule read_packet_True) blast
  have fr: "pending_replies (c_in c') = pending_replies (c_in c1)" "c_out c' = c_out c1"
    "request_read (c_in c') = request_read (c_in c1)"
    "request_completed (c_in c') = request_completed (c_in c1)"
    using r by (auto simp: add_reply_def add_event_def split: route.splits)
  note rr = track_sequence_read [OF ts]
  show "request_read (c_in c') \<le> K" using fr rr le by simp
  show "doomed K c' \<or> request_completed (c_in c') = K"
  proof (cases "response_type g = XCB_ERROR \<and> next_seq g c = K")
    case True
    then have "(response_type g AND 0x7f) \<noteq> XCB_KEYMAP_NOTIFY" by (simp add: packet_consts)
    from track_sequence_pend(2) [OF ts this] True fr show ?thesis by simp
  next
    case False
    with dt fr rr le show ?thesis by (auto simp: doomed_def pend_inv_def)
  qed
  from rp inv mal g ok ts pend_def obtain buf ext where i': "in_inv c'" "os_mallocs w' = []"
    and box: "case packet_route g pend of
           Dropped \<Rightarrow> mailbox c' = mailbox c \<and> events (c_in c') = events (c_in c)
         | ToReply \<Rightarrow> mailbox c' = (mailbox c)(ucast (next_seq g c) :=
               mailbox c (ucast (next_seq g c)) @ [make_packet g (next_seq g c) buf ext])
             \<and> events (c_in c') = events (c_in c)
         | ToEvent \<Rightarrow> mailbox c' = mailbox c
             \<and> events (c_in c') = events (c_in c) @ [make_packet g (next_seq g c) buf ext]"
    by (rule read_packet_mailbox)
  show "in_inv c'" and "os_mallocs w' = []" using i' by auto
  show "mailbox c' (ucast K) = mailbox c (ucast K)"
  proof (cases "packet_route g pend = ToReply")
    case False
    with box show ?thesis by (auto split: route.splits)
  next
    case True
    have "next_seq g c \<noteq> K"
    proof
      assume K: "next_seq g c = K"
      from dt(2) obtain p where p: "p \<in> set (pending_replies (c_in c1))" "first_request p = K"
        "has_flag (pend_flags p) XCB_REQUEST_DISCARD_REPLY" by blast
      from p K rr have "current_pend (c_in c1) = Some p"
        by (intro current_pend_hit [OF dt(1)]) auto
      with True p(3) show False
        by (auto simp: packet_route_def pend_def packet_pend_def pend_has_def split: if_splits)
    qed
    moreover have "unat K < unat (next_seq g c) + 4294967296"
    proof -
      from dt(2) obtain p where "p \<in> set (pending_replies (c_in c1))" "first_request p = K" by blast
      with dt(1) have "unat K \<le> unat (out_request (c_out c1))"
        by (auto simp: pend_inv_def word_le_nat_alt)
      moreover have "unat (out_request (c_out c1)) < unat (next_seq g c) + 2147483648"
        using dt(1) rr by (simp add: pend_inv_def)
      ultimately show ?thesis by linarith
    qed
    ultimately have "(ucast (next_seq g c) :: u32) \<noteq> ucast K"
      using le by (intro low32_neq) auto
    with True box show ?thesis by simp
  qed
qed

section \<open>What a call of \<open>discard_reply\<close> does\<close>

lemma near_between:
  assumes "rr \<le> a" "a \<le> out" "rr \<le> b" "b \<le> out" "unat out < unat rr + 2 ^ 31"
  shows "near32 a b"
  using assms by (auto simp: near32_def word_le_nat_alt)

lemma discard_walk_sorted:
  assumes "\<forall>p \<in> set ps. near32 (first_request p) K"
    and "sorted_wrt (\<lambda>p q. first_request p < first_request q) ps"
  shows "discard_walk (ucast K) ps =
    (filter (\<lambda>p. first_request p < K) ps, filter (\<lambda>p. K \<le> first_request p) ps)"
  using assms
proof (induction ps)
  case (Cons p ps)
  have cmp: "XCB_SEQUENCE_COMPARE_32 (first_request p) (>) (ucast K :: u32) \<longleftrightarrow> K < first_request p"
    "XCB_SEQUENCE_COMPARE_32 (first_request p) (=) (ucast K :: u32) \<longleftrightarrow> first_request p = K"
    using Cons.prems(1) by (simp_all add: seq32_greater_near seq32_eq_near)
  have IH: "discard_walk (ucast K) ps =
    (filter (\<lambda>p. first_request p < K) ps, filter (\<lambda>p. K \<le> first_request p) ps)"
    by (rule Cons.IH) (use Cons.prems in auto)
  show ?case
  proof (cases "K \<le> first_request p")
    case True
    with Cons.prems(2) have "\<forall>q \<in> set ps. K < first_request q" by auto
    then have "filter (\<lambda>p. first_request p < K) ps = []" "filter (\<lambda>p. K \<le> first_request p) ps = ps"
      by (auto simp: filter_empty_conv filter_id_conv)
    with True cmp show ?thesis by auto
  next
    case False
    with cmp IH show ?thesis by auto
  qed
qed simp

lemma discard_walk_append: "discard_walk k ps = (a, b) \<Longrightarrow> ps = a @ b"
  by (induction k ps arbitrary: a b rule: discard_walk.induct) (auto split: if_splits prod.splits)

lemma has_flag_mark: "has_flag (pend_flags (mark_discard p)) XCB_REQUEST_DISCARD_REPLY"
proof -
  have "bit ((pend_flags p OR 4) AND 4 :: u32) 2" by (simp add: bit_simps)
  then have "(pend_flags p OR 4) AND 4 \<noteq> (0 :: u32)" by (metis bit_0_eq bot_apply bot_bool_def)
  then show ?thesis by (simp add: mark_discard_def flag_consts)
qed

lemma mark_discard_fields [simp]:
  "first_request (mark_discard p) = first_request p" "last_request (mark_discard p) = last_request p"
  "workaround (mark_discard p) = workaround p"
  by (simp_all add: mark_discard_def)

text \<open>Putting a discarding entry for \<open>K\<close> at its place, or marking the one that is there.\<close>

lemma doomed_insert:
  assumes "pend_inv c" and "request_read (c_in c) \<le> K" and "K \<le> out_request (c_out c)"
    and "request_completed (c_in c) < K"
    and ps: "pending_replies (c_in c) = before @ after"
    and "\<forall>p \<in> set before. first_request p < K" and "\<forall>p \<in> set after. K < first_request p"
    and "c_in c' = (c_in c)\<lparr>pending_replies := before @ p # after, current_reply := r\<rparr>"
    and "c_out c' = c_out c"
    and "first_request p = K" "last_request p = K" "workaround p \<noteq> WORKAROUND_EXTERNAL_SOCKET_OWNER"
    and "has_flag (pend_flags p) XCB_REQUEST_DISCARD_REPLY"
  shows "doomed K c'"
  using assms by (auto simp: doomed_def pend_inv_def sorted_wrt_append)

lemma doomed_mark:
  assumes "pend_inv c" and "request_completed (c_in c) < K"
    and ps: "pending_replies (c_in c) = before @ p # after" and "first_request p = K"
    and "c_in c' = (c_in c)\<lparr>pending_replies := before @ mark_discard p # after, current_reply := r\<rparr>"
    and "c_out c' = c_out c"
  shows "doomed K c'"
  using assms has_flag_mark [of p] by (auto simp: doomed_def pend_inv_def sorted_wrt_append)

lemma current_pend_cur [simp]: "current_pend (i\<lparr>current_reply := r\<rparr>) = current_pend i"
  by (simp add: current_pend_def split: list.split)

lemma current_pend_miss:
  assumes "pend_inv c" and "current_pend (c_in c) = None"
  shows "\<forall>p \<in> set (pending_replies (c_in c)). request_read (c_in c) < first_request p"
proof
  fix p assume p: "p \<in> set (pending_replies (c_in c))"
  with assms(1) have "request_read (c_in c) \<le> first_request p" by (auto simp: pend_inv_def)
  moreover have "first_request p \<noteq> request_read (c_in c)"
    using current_pend_hit [OF assms(1) p] assms(2) by auto
  ultimately show "request_read (c_in c) < first_request p" by simp
qed

lemma insert_discard_ok:
  assumes "os_mallocs w = []"
  shows "insert_pending_discard before after seq c w =
    (c\<lparr>c_in := (c_in c)\<lparr>pending_replies := before @ \<lparr>first_request = seq, last_request = seq,
        workaround = WORKAROUND_NONE, pend_flags = XCB_REQUEST_DISCARD_REPLY\<rparr> # after\<rparr>\<rparr>, w)"
  using assms by (simp add: insert_pending_discard_def malloc_none)

lemma mailbox_drop_current:
  assumes "in_inv c" and "c_in c' = (c_in c)\<lparr>pending_replies := ps, current_reply := []\<rparr>"
  shows "in_inv c'" and "mailbox c' = (mailbox c)(ucast (request_read (c_in c)) := [])"
  using assms by (auto simp: in_inv_def mailbox_def map_entries_absent fun_eq_iff)

lemma discard_flag: "has_flag XCB_REQUEST_DISCARD_REPLY XCB_REQUEST_DISCARD_REPLY"
  by (simp add: flag_consts)

text \<open>Some replies of the current request are there already.\<close>

lemma discard_reply_current:
  assumes inv: "pend_inv c" "in_inv c" and mal: "os_mallocs w = []"
    and rr: "request_read (c_in c) = K" and out: "K \<le> out_request (c_out c)"
    and compl: "request_completed (c_in c) < K" and cur: "current_reply (c_in c) \<noteq> []"
    and dr: "discard_reply (ucast K) c w = (c', w')"
  shows "doomed K c' \<and> in_inv c' \<and> w' = w \<and> mailbox c' = (mailbox c)(ucast K := [])"
proof -
  have c1: "\<not> XCB_SEQUENCE_COMPARE_32 (ucast K :: u32) (<) K"
    and c2: "XCB_SEQUENCE_COMPARE_32 (ucast K :: u32) (=) K"
    by (simp_all add: seq32_less_irrefl seq32_eq ucast32_id)
  show ?thesis
  proof (cases "current_pend (c_in c)")
    case None
    from current_pend_miss [OF inv(1) None] rr have
      after: "\<forall>p \<in> set (pending_replies (c_in c)). K < first_request p" by simp
    have c': "c' = c\<lparr>c_in := (c_in c)\<lparr>pending_replies := \<lparr>first_request = K, last_request = K,
        workaround = WORKAROUND_NONE, pend_flags = XCB_REQUEST_DISCARD_REPLY\<rparr>
        # pending_replies (c_in c), current_reply := []\<rparr>\<rparr>" and w': "w' = w"
      using dr c1 c2 cur rr None by (auto simp: discard_reply_def Let_def insert_discard_ok [OF mal])
    have "doomed K c'"
      by (rule doomed_insert [OF inv(1), where before = "[]" and after = "pending_replies (c_in c)"])
        (use c' rr out compl after discard_flag in auto)
    with mailbox_drop_current [OF inv(2), of c'] c' w' rr show ?thesis by simp
  next
    case (Some p)
    note cf = current_pend_first [OF inv(1) Some]
    have c': "c' = c\<lparr>c_in := (c_in c)\<lparr>pending_replies := mark_discard p # tl (pending_replies (c_in c)),
        current_reply := []\<rparr>\<rparr>" and w': "w' = w"
      using dr c1 c2 cur rr Some by (auto simp: discard_reply_def Let_def)
    have "doomed K c'"
      by (rule doomed_mark [OF inv(1) compl, where before = "[]" and p = p])
        (use c' cf rr in auto)
    with mailbox_drop_current [OF inv(2), of c'] c' w' rr show ?thesis by simp
  qed
qed

text \<open>Otherwise the list of pending replies is searched.\<close>

lemma discard_reply_walked:
  assumes inv: "pend_inv c" "in_inv c" and mal: "os_mallocs w = []"
    and K: "request_read (c_in c) \<le> K" "K \<le> out_request (c_out c)" "request_completed (c_in c) < K"
    and nc: "\<not> (request_read (c_in c) = K \<and> current_reply (c_in c) \<noteq> [])"
    and dr: "discard_reply (ucast K) c w = (c', w')"
  shows "doomed K c' \<and> in_inv c' \<and> w' = w \<and> mailbox c' = mailbox c"
proof -
  let ?rr = "request_read (c_in c)" and ?ps = "pending_replies (c_in c)" and ?out = "out_request (c_out c)"
  let ?lt = "filter (\<lambda>p. first_request p < K) ?ps" and ?ge = "filter (\<lambda>p. K \<le> first_request p) ?ps"
  have rng: "unat ?out < unat ?rr + 2 ^ 31" "?rr \<le> ?out" using inv(1) by (auto simp: pend_inv_def)
  have nK: "near32 K ?rr" using K rng by (intro near_between [of ?rr _ ?out]) auto
  have c1: "\<not> XCB_SEQUENCE_COMPARE_32 (ucast K :: u32) (<) ?rr"
    using seq32_less_near [OF nK] K(1) by simp
  have c2: "XCB_SEQUENCE_COMPARE_32 (ucast K :: u32) (=) ?rr \<longleftrightarrow> K = ?rr"
    using seq32_eq_near [OF nK] by (simp add: seq32_eq ucast32_id)
  have near: "\<forall>p \<in> set ?ps. near32 (first_request p) K"
    using inv(1) K rng by (auto simp: pend_inv_def intro: near_between [of ?rr _ ?out])
  have srt: "sorted_wrt (\<lambda>p q. first_request p < first_request q) ?ps"
    using inv(1) by (simp add: pend_inv_def)
  have walk: "discard_walk (ucast K) ?ps = (?lt, ?ge)" by (rule discard_walk_sorted [OF near srt])
  have split: "?ps = ?lt @ ?ge" by (rule discard_walk_append [OF walk])
  have widen: "widen_request ?out (ucast K) = K"
    using K rng by (intro widen_request_eq) (auto simp: word_le_nat_alt)
  have nc2: "(K = ?rr \<and> current_reply (c_in c) \<noteq> []) = False" using nc by auto
  note unf = discard_reply_def Let_def insert_discard_ok [OF mal] c1 c2 nc2 walk widen
  have box: "in_inv c' \<and> mailbox c' = mailbox c"
    if "c_in c' = (c_in c)\<lparr>pending_replies := ps\<rparr>" for ps
    using mailbox_cong [of c' c] that inv(2) by simp
  show ?thesis
  proof (cases "\<exists>p after. ?ge = p # after \<and> first_request p = K")
    case True
    then obtain p after where ge: "?ge = p # after" and p: "first_request p = K" by blast
    have "XCB_SEQUENCE_COMPARE_32 (first_request p) (=) (ucast K :: u32)"
      using p by (simp add: seq32_eq ucast32_id)
    with dr nc have c': "c' = c\<lparr>c_in := (c_in c)\<lparr>pending_replies := ?lt @ mark_discard p # after\<rparr>\<rparr>"
      and w': "w' = w"
      by (auto simp: unf ge)
    have "doomed K c'"
      by (rule doomed_mark [OF inv(1) K(3), where before = ?lt and p = p and after = after
            and r = "current_reply (c_in c)"])
        (use split ge p c' in auto)
    with box c' w' show ?thesis by simp
  next
    case False
    let ?pend = "\<lparr>first_request = K, last_request = K,
        workaround = WORKAROUND_NONE, pend_flags = XCB_REQUEST_DISCARD_REPLY\<rparr>"
    have gt: "\<forall>p \<in> set ?ge. K < first_request p"
    proof (cases ?ge)
      case Nil
      then show ?thesis by simp
    next
      case (Cons q qs)
      then have "q \<in> set ?ge" by simp
      then have "K \<le> first_request q" by simp
      with False Cons have "K < first_request q" by (auto simp: le_less)
      moreover have "sorted_wrt (\<lambda>p q. first_request p < first_request q) (q # qs)"
        using sorted_wrt_filter [OF srt, of "\<lambda>p. K \<le> first_request p"] Cons by simp
      ultimately show ?thesis unfolding Cons by auto
    qed
    have "c' = c\<lparr>c_in := (c_in c)\<lparr>pending_replies := ?lt @ ?pend # ?ge\<rparr>\<rparr> \<and> w' = w"
    proof (cases ?ge)
      case Nil
      with dr nc show ?thesis by (auto simp: unf)
    next
      case (Cons q qs)
      then have "q \<in> set ?ps" by (metis filter_is_subset in_mono list.set_intros(1))
      moreover have "first_request q \<noteq> K" using gt Cons by auto
      ultimately have "\<not> XCB_SEQUENCE_COMPARE_32 (first_request q) (=) (ucast K :: u32)"
        using near by (simp add: seq32_eq_near)
      with dr nc Cons show ?thesis by (auto simp: unf)
    qed
    then have c': "c' = c\<lparr>c_in := (c_in c)\<lparr>pending_replies := ?lt @ ?pend # ?ge\<rparr>\<rparr>" and w': "w' = w"
      by auto
    have "doomed K c'"
      by (rule doomed_insert [OF inv(1) K, where before = ?lt and after = ?ge
            and r = "current_reply (c_in c)" and p = ?pend])
        (use split c' gt discard_flag in auto)
    with box c' w' show ?thesis by simp
  qed
qed

section \<open>Properties\<close>

text \<open>
  The packets the server sends up to the answer to request \<open>K\<close>: each is read completely, and
  once the error for \<open>K\<close> has been read there are no further packets for it.
\<close>

inductive reads_upto :: "u64 \<Rightarrow> xcb_connection_t \<times> os \<Rightarrow> xcb_connection_t \<times> os \<Rightarrow> bool" for K where
  reads_refl: "reads_upto K s s"
| reads_step: "reads_upto K s (c, w) \<Longrightarrow> read_packet c w = Some (True, c', w') \<Longrightarrow>
    seq_ok (get_genrep (in_queue (c_in c))) c \<Longrightarrow> next_seq (get_genrep (in_queue (c_in c))) c \<le> K \<Longrightarrow>
    request_completed (c_in c) \<noteq> K \<Longrightarrow> reads_upto K s (c', w')"

lemma reads_upto_doomed:
  assumes "reads_upto K s t" and "doomed K (fst s)" and "in_inv (fst s)" and "os_mallocs (snd s) = []"
    and "mailbox (fst s) (ucast K) = []"
  shows "mailbox (fst t) (ucast K) = [] \<and> in_inv (fst t) \<and> os_mallocs (snd t) = []
     \<and> (doomed K (fst t) \<or> request_completed (c_in (fst t)) = K)"
  using assms
proof (induction rule: reads_upto.induct)
  case (reads_step s c w c' w')
  then have IH: "mailbox c (ucast K) = []" "in_inv c" "os_mallocs w = []" "doomed K c" by auto
  from doomed_read_packet [OF reads_step.hyps(2) IH(4,2,3) refl reads_step.hyps(3,4)] IH(1)
  show ?case by simp
qed simp



end
