(* ===== verification/XcbExt.thy ===== *)
theory XcbExt
  imports XcbTypes
begin

text \<open>
  The cache of extension data, \<open>src/src/xcb_ext.c\<close>. Every extension gets a process wide number when
  it is first used; the number is the (1-based) index of its entry in the array of lazy replies
  of each connection. An entry goes from \<open>Lazy_None\<close> over \<open>Lazy_Cookie\<close> (asked) to \<open>Lazy_Forced\<close>
  (answered).
\<close>

section \<open>The model\<close>

text \<open>
  \<open>get_index\<close> yields the position of the entry, or \<open>None\<close> when the array cannot grow.
\<close>

definition get_index :: "nat \<Rightarrow> xcb_connection_t \<Rightarrow> os \<Rightarrow> nat option \<times> xcb_connection_t \<times> os" where
  "get_index idx c w =
     (let sz = length (extensions c)
      in if idx > sz then
           let new_size = 2 * idx;
               (ok, w) = malloc_ok w
           in if \<not> ok then (None, c, w)
              else (Some (idx - 1),
                    c\<lparr>extensions := extensions c @ replicate (new_size - sz) Lazy_None\<rparr>, w)
         else (Some (idx - 1), c, w))"

definition set_lazyreply :: "nat \<Rightarrow> lazyreply \<Rightarrow> xcb_connection_t \<Rightarrow> xcb_connection_t" where
  "set_lazyreply i v c = c\<lparr>extensions := (extensions c)[i := v]\<rparr>"

definition assign_global_id :: "xcb_extension_t \<Rightarrow> os \<Rightarrow> os" where
  "assign_global_id ext w =
     (if os_global_id w (ext_addr ext) = 0 then
        w\<lparr>os_next_global_id := os_next_global_id w + 1,
          os_global_id := (os_global_id w)(ext_addr ext := os_next_global_id w + 1)\<rparr>
      else w)"

definition get_lazyreply :: "generated \<Rightarrow> xcb_extension_t \<Rightarrow> xcb_connection_t \<Rightarrow> os \<Rightarrow>
    (nat option \<times> xcb_connection_t \<times> os) option" where
  "get_lazyreply gen ext c w =
     (let w = assign_global_id ext w;
          (data, c, w) = get_index (os_global_id w (ext_addr ext)) c w
      in case data of
           None \<Rightarrow> Some (None, c, w)
         | Some i \<Rightarrow>
             (if extensions c ! i = Lazy_None then do {
                (cookie, c, w) \<leftarrow> xcb_query_extension gen (ext_name ext) c w;
                Some (Some i, set_lazyreply i (Lazy_Cookie cookie) c, w)
              }
              else Some (Some i, c, w)))"

text \<open>
  \<open>xcb_get_extension_data\<close>. The result is the reply in the cache; the entry is forced when it is
  read.
\<close>

definition cached_reply :: "lazyreply \<Rightarrow> xcb_query_extension_reply_t option" where
  "cached_reply v = (case v of Lazy_Forced r \<Rightarrow> r | _ \<Rightarrow> None)"

definition xcb_get_extension_data :: "generated \<Rightarrow> xcb_extension_t \<Rightarrow> xcb_connection_t \<Rightarrow> os \<Rightarrow>
    (xcb_query_extension_reply_t option \<times> xcb_connection_t \<times> os) option" where
  "xcb_get_extension_data gen ext c w =
     (if has_error c then Some (None, c, w)
      else do {
        (data, c, w) \<leftarrow> get_lazyreply gen ext c w;
        case data of
          None \<Rightarrow> Some (None, c, w)
        | Some i \<Rightarrow>
            (case extensions c ! i of
               Lazy_Cookie cookie \<Rightarrow> do {
                 (r, c, w) \<leftarrow> xcb_query_extension_reply gen cookie c w;
                 Some (r, set_lazyreply i (Lazy_Forced r) c, w)
               }
             | v \<Rightarrow> Some (cached_reply v, c, w))
      })"

definition xcb_prefetch_extension_data :: "generated \<Rightarrow> xcb_extension_t \<Rightarrow> xcb_connection_t \<Rightarrow> os \<Rightarrow>
    (xcb_connection_t \<times> os) option" where
  "xcb_prefetch_extension_data gen ext c w =
     (if has_error c then Some (c, w)
      else do {
        (_, c, w) \<leftarrow> get_lazyreply gen ext c w;
        Some (c, w)
      })"

definition xcb_ext_init :: "xcb_connection_t \<Rightarrow> os \<Rightarrow> bool \<times> xcb_connection_t \<times> os" where
  "xcb_ext_init c w = (let (ok, w) = pthread_init_ok w in (ok, c, w))"

text \<open>The replies \<open>_xcb_ext_destroy\<close> frees, in order; a null reply is passed to \<open>free\<close> too.\<close>

definition xcb_ext_destroy :: "xcb_connection_t \<Rightarrow>
    xcb_query_extension_reply_t option list \<times> xcb_connection_t" where
  "xcb_ext_destroy c =
     (concat (map (\<lambda>v. case v of Lazy_Forced r \<Rightarrow> [r] | _ \<Rightarrow> []) (rev (extensions c))),
      c\<lparr>extensions := []\<rparr>)"

section \<open>The cache invariant\<close>

text \<open>
  The numbers handed out so far are \<open>1 .. next_global_id\<close>, and no two extensions share one.
\<close>

definition ids_ok :: "os \<Rightarrow> bool" where
  "ids_ok w \<longleftrightarrow> (\<forall>a. os_global_id w a \<le> os_next_global_id w)
     \<and> (\<forall>a b. os_global_id w a = os_global_id w b \<longrightarrow> os_global_id w a \<noteq> 0 \<longrightarrow> a = b)"

lemma assign_global_id_ok:
  assumes "ids_ok w"
  shows "ids_ok (assign_global_id ext w)"
proof (cases "os_global_id w (ext_addr ext) = 0")
  case True
  let ?n = "os_next_global_id w"
  let ?f = "(os_global_id w)(ext_addr ext := ?n + 1)"
  have le: "os_global_id w a \<le> ?n" for a using assms by (simp add: ids_ok_def)
  have inj: "a = b" if "os_global_id w a = os_global_id w b" "os_global_id w a \<noteq> 0" for a b
    using that assms by (simp add: ids_ok_def)
  have "?f a \<le> ?n + 1" for a using le [of a] by simp
  moreover have "a = b" if "?f a = ?f b" "?f a \<noteq> 0" for a b
  proof (rule ccontr)
    assume "a \<noteq> b"
    then consider "a = ext_addr ext" "b \<noteq> a" | "b = ext_addr ext" "a \<noteq> b"
      | "a \<noteq> ext_addr ext" "b \<noteq> ext_addr ext" by blast
    then show False
    proof cases
      case 1
      with that(1) le [of b] show False by simp
    next
      case 2
      with that(1) le [of a] show False by simp
    next
      case 3
      with that inj [of a b] \<open>a \<noteq> b\<close> show False by simp
    qed
  qed
  ultimately have "(\<forall>a. ?f a \<le> ?n + 1) \<and> (\<forall>a b. ?f a = ?f b \<longrightarrow> ?f a \<noteq> 0 \<longrightarrow> a = b)" by blast
  moreover have "os_next_global_id (assign_global_id ext w) = ?n + 1"
    "os_global_id (assign_global_id ext w) = ?f"
    using True by (simp_all add: assign_global_id_def)
  ultimately show ?thesis unfolding ids_ok_def by metis
next
  case False
  with assms show ?thesis by (simp add: assign_global_id_def)
qed

lemma assign_global_id_frame:
  "os_global_id (assign_global_id ext w) (ext_addr ext) \<noteq> 0"
  "a \<noteq> ext_addr ext \<Longrightarrow> os_global_id (assign_global_id ext w) a = os_global_id w a"
  "os_global_id w (ext_addr ext) \<noteq> 0 \<Longrightarrow> assign_global_id ext w = w"
  "os_mallocs (assign_global_id ext w) = os_mallocs w"
  by (auto simp: assign_global_id_def)

lemma get_index_Some:
  assumes "get_index idx c w = (di, c', w')" and "idx \<noteq> 0" and "os_mallocs w = []"
  shows "di = Some (idx - 1)" and "idx - 1 < length (extensions c')" and "w' = w"
    and "idx - 1 < length (extensions c) \<Longrightarrow> c' = c" and "has_error c' = has_error c"
    and "j < length (extensions c) \<Longrightarrow> extensions c' ! j = extensions c ! j"
    and "length (extensions c) \<le> j \<Longrightarrow> j < length (extensions c') \<Longrightarrow> extensions c' ! j = Lazy_None"
    and "length (extensions c) \<le> length (extensions c')"
  using assms by (auto simp: get_index_def Let_def malloc_none nth_append split: if_splits)

section \<open>The cache as a function\<close>

text \<open>
  The abstract cache: what is known about the extension at address \<open>a\<close>. The only code outside
  the sources that runs in between sends core requests and waits for their replies; it leaves
  the cache alone (\<open>keeps_cache\<close>).
\<close>

definition ext_entry :: "xcb_connection_t \<Rightarrow> os \<Rightarrow> nat \<Rightarrow> lazyreply" where
  "ext_entry c w a = (if os_global_id w a \<noteq> 0 \<and> os_global_id w a \<le> length (extensions c)
     then extensions c ! (os_global_id w a - 1) else Lazy_None)"

definition keeps_cache :: "generated \<Rightarrow> bool" where
  "keeps_cache gen \<longleftrightarrow>
     (\<forall>name c w k c' w'. xcb_query_extension gen name c w = Some (k, c', w') \<longrightarrow>
        extensions c' = extensions c \<and> os_global_id w' = os_global_id w
        \<and> os_next_global_id w' = os_next_global_id w)
     \<and> (\<forall>k c w r c' w'. xcb_query_extension_reply gen k c w = Some (r, c', w') \<longrightarrow>
        extensions c' = extensions c \<and> os_global_id w' = os_global_id w
        \<and> os_next_global_id w' = os_next_global_id w)"

lemma ids_ok_cong:
  "os_global_id w' = os_global_id w \<Longrightarrow> os_next_global_id w' = os_next_global_id w \<Longrightarrow>
     ids_ok w' = ids_ok w"
  by (simp add: ids_ok_def)

lemma ext_entry_set:
  assumes "ids_ok w" and "os_global_id w a \<noteq> 0" and "os_global_id w a \<le> length (extensions c)"
  shows "ext_entry (set_lazyreply (os_global_id w a - 1) v c) w = (ext_entry c w)(a := v)"
proof
  fix b
  have "os_global_id w b - 1 \<noteq> os_global_id w a - 1" if "b \<noteq> a" "os_global_id w b \<noteq> 0"
    using that assms(1,2) by (metis Suc_pred' bot_nat_0.not_eq_extremum ids_ok_def)
  with assms(2,3) show "ext_entry (set_lazyreply (os_global_id w a - 1) v c) w b = ((ext_entry c w)(a := v)) b"
    by (auto simp: ext_entry_def set_lazyreply_def nth_list_update)
qed

lemma ext_entry_grow:
  assumes "get_index (os_global_id w a) c w = (di, c', w')" and "os_global_id w a \<noteq> 0" and "os_mallocs w = []"
  shows "ext_entry c' w = ext_entry c w"
proof
  fix b
  note gi = get_index_Some [OF assms]
  show "ext_entry c' w b = ext_entry c w b"
  proof (cases "os_global_id w b \<noteq> 0 \<and> os_global_id w b \<le> length (extensions c)")
    case True
    moreover from True have "os_global_id w b - 1 < length (extensions c)" by auto
    ultimately show ?thesis using gi(6) [of "os_global_id w b - 1"] gi(8) by (simp add: ext_entry_def)
  next
    case False
    with gi(7) [of "os_global_id w b - 1"] show ?thesis
      by (cases "os_global_id w b") (auto simp: ext_entry_def)
  qed
qed

text \<open>Entries whose number nobody has yet are empty.\<close>

definition cache_ok :: "xcb_connection_t \<Rightarrow> os \<Rightarrow> bool" where
  "cache_ok c w \<longleftrightarrow> ids_ok w
     \<and> (\<forall>j. os_next_global_id w \<le> j \<longrightarrow> j < length (extensions c) \<longrightarrow> extensions c ! j = Lazy_None)"

lemma ext_entry_assign:
  assumes "cache_ok c w"
  shows "ext_entry c (assign_global_id ext w) = ext_entry c w" and "cache_ok c (assign_global_id ext w)"
proof -
  show "ext_entry c (assign_global_id ext w) = ext_entry c w"
    using assms by (auto simp: fun_eq_iff ext_entry_def assign_global_id_def cache_ok_def)
  from assms show "cache_ok c (assign_global_id ext w)"
    by (simp add: cache_ok_def assign_global_id_ok) (auto simp: assign_global_id_def)
qed

lemma cache_ok_grow:
  assumes "get_index (os_global_id w a) c w = (di, c', w')" and "os_global_id w a \<noteq> 0"
    and "os_mallocs w = []" and "cache_ok c w"
  shows "cache_ok c' w"
proof -
  note gi = get_index_Some [OF assms(1-3)]
  have "extensions c' ! j = Lazy_None" if "os_next_global_id w \<le> j" "j < length (extensions c')" for j
    using that gi(6,7) [of j] assms(4) by (cases "j < length (extensions c)") (auto simp: cache_ok_def)
  with assms(4) show ?thesis by (simp add: cache_ok_def)
qed

lemma cache_ok_set:
  assumes "cache_ok c w" and "os_global_id w a \<noteq> 0"
  shows "cache_ok (set_lazyreply (os_global_id w a - 1) v c) w"
proof -
  from assms have "os_global_id w a - 1 < os_next_global_id w"
    by (metis Suc_pred' Suc_le_eq bot_nat_0.not_eq_extremum cache_ok_def ids_ok_def)
  with assms(1) show ?thesis by (auto simp: cache_ok_def set_lazyreply_def)
qed

lemma cache_cong:
  assumes "extensions c' = extensions c" and "os_global_id w' = os_global_id w"
    and "os_next_global_id w' = os_next_global_id w"
  shows "cache_ok c' w' = cache_ok c w" and "ext_entry c' w' = ext_entry c w"
  using assms by (simp_all add: cache_ok_def ids_ok_def ext_entry_def fun_eq_iff)

lemma get_lazyreply_spec:
  assumes "get_lazyreply gen ext c w = Some (d, c', w')" and "keeps_cache gen" and "cache_ok c w"
    and "os_mallocs w = []" and "a = ext_addr ext"
  shows "d = Some (os_global_id w' a - 1)" and "os_global_id w' a \<noteq> 0"
    and "os_global_id w' a \<le> length (extensions c')" and "cache_ok c' w'"
    and "ext_entry c w a = Lazy_None \<Longrightarrow> \<exists>k. ext_entry c' w' = (ext_entry c w)(a := Lazy_Cookie k)"
    and "ext_entry c w a \<noteq> Lazy_None \<Longrightarrow> c' = c \<and> w' = w"
proof -
  let ?w = "assign_global_id ext w"
  let ?id = "os_global_id ?w a"
  obtain di c1 w1 where gi: "get_index ?id c ?w = (di, c1, w1)" by (cases "get_index ?id c ?w")
  have nz: "?id \<noteq> 0" and m: "os_mallocs ?w = []"
    using assms(4,5) by (simp_all add: assign_global_id_frame)
  note idx = get_index_Some [OF gi nz m]
  have grow: "ext_entry c1 ?w = ext_entry c w"
    using ext_entry_grow [OF gi nz m] ext_entry_assign [OF assms(3)] by simp
  have ok1: "cache_ok c1 ?w" by (rule cache_ok_grow [OF gi nz m ext_entry_assign(2) [OF assms(3)]])
  have le1: "?id \<le> length (extensions c1)" using idx(2) nz by linarith
  have e: "extensions c1 ! (?id - 1) = ext_entry c w a"
    using le1 nz by (simp add: grow [symmetric] ext_entry_def)
  have eqs: "get_lazyreply gen ext c w =
      (if ext_entry c w a = Lazy_None then do {
         (cookie, c, w) \<leftarrow> xcb_query_extension gen (ext_name ext) c1 ?w;
         Some (Some (?id - 1), set_lazyreply (?id - 1) (Lazy_Cookie cookie) c, w)
       } else Some (Some (?id - 1), c1, ?w))"
    unfolding get_lazyreply_def Let_def using gi idx(1,3) e assms(5) by simp
  show "d = Some (os_global_id w' a - 1)" "os_global_id w' a \<noteq> 0"
    "os_global_id w' a \<le> length (extensions c')" "cache_ok c' w'"
    "ext_entry c w a = Lazy_None \<Longrightarrow> \<exists>k. ext_entry c' w' = (ext_entry c w)(a := Lazy_Cookie k)"
  proof -
    have "d = Some (os_global_id w' a - 1) \<and> os_global_id w' a \<noteq> 0
      \<and> os_global_id w' a \<le> length (extensions c') \<and> cache_ok c' w'
      \<and> (ext_entry c w a = Lazy_None \<longrightarrow> (\<exists>k. ext_entry c' w' = (ext_entry c w)(a := Lazy_Cookie k)))"
    proof (cases "ext_entry c w a = Lazy_None")
      case True
      with assms(1) [unfolded eqs] obtain k c2 where
        q: "xcb_query_extension gen (ext_name ext) c1 ?w = Some (k, c2, w')"
        and c': "c' = set_lazyreply (?id - 1) (Lazy_Cookie k) c2" and d: "d = Some (?id - 1)"
        by (auto simp: bind_eq_Some_conv2 simp del: One_nat_def)
      from assms(2) q have kc: "extensions c2 = extensions c1" "os_global_id w' = os_global_id ?w"
        "os_next_global_id w' = os_next_global_id ?w"
        by (auto simp: keeps_cache_def)
      from cache_cong [OF kc] ok1 grow have ok2: "cache_ok c2 w'" and g2: "ext_entry c2 w' = ext_entry c w"
        by simp_all
      have "ids_ok w'" using ok2 by (simp add: cache_ok_def)
      have "ext_entry c' w' = (ext_entry c2 w')(a := Lazy_Cookie k)"
        unfolding c' using ext_entry_set [OF \<open>ids_ok w'\<close>, of a c2 "Lazy_Cookie k"] nz le1 kc by simp
      with g2 have "\<exists>k. ext_entry c' w' = (ext_entry c w)(a := Lazy_Cookie k)" by auto
      moreover have "cache_ok c' w'"
        unfolding c' using cache_ok_set [OF ok2, of a "Lazy_Cookie k"] nz kc by simp
      moreover have "length (extensions c') = length (extensions c1)"
        using c' kc by (simp add: set_lazyreply_def)
      ultimately show ?thesis using d nz le1 kc by simp
    next
      case False
      with eqs assms(1) have "d = Some (?id - 1)" "c' = c1" "w' = ?w" by auto
      with False nz le1 ok1 show ?thesis by simp
    qed
    then show "d = Some (os_global_id w' a - 1)" "os_global_id w' a \<noteq> 0"
      "os_global_id w' a \<le> length (extensions c')" "cache_ok c' w'"
      "ext_entry c w a = Lazy_None \<Longrightarrow> \<exists>k. ext_entry c' w' = (ext_entry c w)(a := Lazy_Cookie k)"
      by blast+
  qed
  assume hit: "ext_entry c w a \<noteq> Lazy_None"
  then have id: "os_global_id w a \<noteq> 0" "os_global_id w a \<le> length (extensions c)"
    by (auto simp: ext_entry_def split: if_splits)
  with assms(5) have w: "?w = w" by (simp add: assign_global_id_frame)
  moreover have "c1 = c" using idx(4) id w by simp
  ultimately show "c' = c \<and> w' = w" using eqs assms(1) hit by simp
qed



end
