(* ===== verification/XcbXid.thy ===== *)
theory XcbXid
  imports XcbExt
begin

text \<open>
  Allocation of resource identifiers, \<open>src/src/xcb_xid.c\<close>. The server gives the client a base and a
  mask; identifiers are the base with some bits of the mask. When the initial range is used up,
  the XC-MISC extension is asked for another one.
\<close>

section \<open>The model\<close>

text \<open>
  \<open>xcb_generate_id\<close>. The failure value is \<open>-1\<close>. Reading the setup data of a connection without
  setup data, and the two assertions, are the ways not to return.
\<close>

definition set_xid :: "u32 \<Rightarrow> u32 \<Rightarrow> xcb_connection_t \<Rightarrow> xcb_connection_t" where
  "set_xid l m c = c\<lparr>c_xid := (c_xid c)\<lparr>xid_last := l, xid_max := m\<rparr>\<rparr>"

definition xcb_generate_id :: "generated \<Rightarrow> xcb_connection_t \<Rightarrow> os \<Rightarrow>
    (u32 \<times> xcb_connection_t \<times> os) option" where
  "xcb_generate_id gen c w =
     (if has_error c then Some (- 1, c, w)
      else
        let x = c_xid c
        in if xid_last x \<ge> xid_max x - xid_inc x + 1 then
             if xid_last x \<noteq> xid_max x then None
             else if xid_last x = 0 then
               (case c_setup c of
                  None \<Rightarrow> None
                | Some s \<Rightarrow>
                    let c = set_xid (xid_last x) (resource_id_mask s) c
                    in Some (xid_last (c_xid c) OR xid_base (c_xid c), c, w))
             else do {
               (xc_misc_reply, c, w) \<leftarrow> xcb_get_extension_data gen (xcb_xc_misc_id gen) c w;
               case xc_misc_reply of
                 None \<Rightarrow> Some (- 1, c, w)
               | Some _ \<Rightarrow> do {
                   (cookie, c, w) \<leftarrow> xcb_xc_misc_get_xid_range gen c w;
                   (range, c, w) \<leftarrow> xcb_xc_misc_get_xid_range_reply gen cookie c w;
                   case range of
                     None \<Rightarrow> Some (- 1, c, w)
                   | Some r \<Rightarrow>
                       (if start_id r = 0 \<and> range_count r = 1 then Some (- 1, c, w)
                        else if \<not> (range_count r > 0 \<and> start_id r > 0) then None
                        else
                          let c = set_xid (start_id r)
                                (start_id r + (range_count r - 1) * xid_inc (c_xid c)) c
                          in Some (xid_last (c_xid c) OR xid_base (c_xid c), c, w))
                 }
             }
           else
             let c = set_xid (xid_last x + xid_inc x) (xid_max x) c
             in Some (xid_last (c_xid c) OR xid_base (c_xid c), c, w))"

definition xcb_xid_init :: "xcb_connection_t \<Rightarrow> os \<Rightarrow> (bool \<times> xcb_connection_t \<times> os) option" where
  "xcb_xid_init c w =
     (let (ok, w) = pthread_init_ok w
      in if \<not> ok then Some (False, c, w)
         else case c_setup c of
             None \<Rightarrow> None
           | Some s \<Rightarrow> Some (True, c\<lparr>c_xid := \<lparr>xid_last = 0, xid_base = resource_id_base s, xid_max = 0,
               xid_inc = resource_id_mask s AND - resource_id_mask s\<rparr>\<rparr>, w))"

text \<open>Several identifiers, one after the other.\<close>

fun generate_ids :: "generated \<Rightarrow> nat \<Rightarrow> xcb_connection_t \<Rightarrow> os \<Rightarrow> (u32 list \<times> xcb_connection_t \<times> os) option" where
  "generate_ids gen 0 c w = Some ([], c, w)"
| "generate_ids gen (Suc n) c w = do {
     (i, c, w) \<leftarrow> xcb_generate_id gen c w;
     (is, c, w) \<leftarrow> generate_ids gen n c w;
     Some (i # is, c, w)
   }"

section \<open>Ranges\<close>

lemma set_xid_simps [simp]:
  "c_xid (set_xid l m c) = (c_xid c)\<lparr>xid_last := l, xid_max := m\<rparr>"
  "has_error (set_xid l m c) = has_error c" "c_setup (set_xid l m c) = c_setup c"
  "set_xid l m (set_xid l' m' c) = set_xid l m c"
  by (simp_all add: set_xid_def)

text \<open>Within a range the code counts in steps of the increment, without wrapping.\<close>

lemma unat_add_le: "unat (a :: u32) + unat b \<le> unat (m :: u32) \<Longrightarrow> unat (a + b) = unat a + unat b"
  using unat_bound32 [of m] by (simp add: unat_word_ariths)

lemma generate_id_next:
  assumes "\<not> has_error c" and "xid_inc (c_xid c) \<noteq> 0"
    and "unat (xid_last (c_xid c)) + unat (xid_inc (c_xid c)) \<le> unat (xid_max (c_xid c))"
  shows "xcb_generate_id gen c w =
    Some ((xid_last (c_xid c) + xid_inc (c_xid c)) OR xid_base (c_xid c),
          set_xid (xid_last (c_xid c) + xid_inc (c_xid c)) (xid_max (c_xid c)) c, w)"
proof -
  let ?l = "xid_last (c_xid c)" and ?i = "xid_inc (c_xid c)" and ?m = "xid_max (c_xid c)"
  have i: "0 < unat ?i" using assms(2) by (simp add: unat_gt_0)
  have "?i \<le> ?m" using assms(3) by (simp add: word_le_nat_alt)
  then have "unat (?m - ?i) = unat ?m - unat ?i" by (simp add: unat_sub)
  then have "unat (?m - ?i + 1) = unat ?m - unat ?i + 1"
    using unat_bound [of ?m] i assms(3) by (simp add: unat_word_ariths)
  then have "(?m - ?i + 1 \<le> ?l) = False" using assms(3) by (simp add: word_le_nat_alt)
  with assms(1) show ?thesis by (simp add: xcb_generate_id_def Let_def)
qed

lemma generate_ids_range:
  assumes "\<not> has_error c" and "xid_inc (c_xid c) \<noteq> 0"
    and "unat (xid_last (c_xid c)) + n * unat (xid_inc (c_xid c)) \<le> unat (xid_max (c_xid c))"
  shows "generate_ids gen n c w =
    Some (map (\<lambda>k. (xid_last (c_xid c) + of_nat (Suc k) * xid_inc (c_xid c)) OR xid_base (c_xid c)) [0..<n],
          set_xid (xid_last (c_xid c) + of_nat n * xid_inc (c_xid c)) (xid_max (c_xid c)) c, w)"
  using assms
proof (induction n arbitrary: c)
  case 0
  then show ?case by (simp add: set_xid_def)
next
  case (Suc n)
  let ?l = "xid_last (c_xid c)" and ?i = "xid_inc (c_xid c)" and ?m = "xid_max (c_xid c)"
  have le: "unat ?l + unat ?i \<le> unat ?m" using Suc.prems(3) by simp
  from Suc.prems(3) have "unat (?l + ?i) + n * unat ?i \<le> unat ?m" by (simp add: unat_add_le [OF le])
  with Suc.IH [of "set_xid (?l + ?i) ?m c"] Suc.prems
  have ih: "generate_ids gen n (set_xid (?l + ?i) ?m c) w =
    Some (map (\<lambda>k. (?l + ?i + of_nat (Suc k) * ?i) OR xid_base (c_xid c)) [0..<n],
          set_xid (?l + ?i + of_nat n * ?i) ?m c, w)"
    by simp
  let ?f = "\<lambda>k. (?l + of_nat (Suc k) * ?i) OR xid_base (c_xid c)"
  have "map ?f [0..<Suc n] = ?f 0 # map (\<lambda>k. ?f (Suc k)) [0..<n]"
    by (simp only: upt_conv_Cons map_Suc_upt [symmetric] list.map map_map o_def zero_less_Suc)
  moreover have "?f 0 = (?l + ?i) OR xid_base (c_xid c)" by simp
  moreover have "(\<lambda>k. ?f (Suc k)) = (\<lambda>k. (?l + ?i + of_nat (Suc k) * ?i) OR xid_base (c_xid c))"
    by (simp add: fun_eq_iff algebra_simps)
  ultimately have "map ?f [0..<Suc n] = ((?l + ?i) OR xid_base (c_xid c)) #
      map (\<lambda>k. (?l + ?i + of_nat (Suc k) * ?i) OR xid_base (c_xid c)) [0..<n]"
    by simp
  moreover have "?l + of_nat (Suc n) * ?i = ?l + ?i + of_nat n * ?i" by (simp add: algebra_simps)
  ultimately show ?case
    by (simp only: generate_ids.simps generate_id_next [OF Suc.prems(1,2) le] ih Option.bind.bind_lunit
        prod.case)
qed

section \<open>Properties\<close>

lemma id_in_mask:
  assumes "base AND m = 0" and "k AND m = (k :: u32)"
  shows "(base OR k) AND m = k" and "(base OR k) AND NOT m = base"
  using assms by (simp_all add: bit_eq_iff bit_simps) blast+

lemma of_nat_and_mask: "k < 2 ^ b \<Longrightarrow> (word_of_nat k :: u32) AND mask b = word_of_nat k"
  by (simp add: take_bit_eq_mask [symmetric] take_bit_of_nat take_bit_nat_eq_self)

lemma odd_and_minus: "odd x \<Longrightarrow> x AND - x = (1 :: u32)"
proof -
  assume "odd x"
  then have "bit x 0" by (simp add: bit_0)
  then have "x = (x AND NOT 1) OR 1"
    by (intro bit_eqI) (auto simp: bit_simps gr0_conv_Suc)
  also have "\<dots> = (x AND NOT 1) + 1"
    by (rule disjunctive_add_eq_or [symmetric]) (simp add: and.assoc)
  finally have "x - 1 = x AND NOT 1" by (simp only: diff_eq_eq)
  moreover have "- x = NOT (x - 1)" by (rule minus_eq_not_minus_1)
  ultimately have "- x = NOT (x AND NOT 1)" by (simp only:)
  with \<open>bit x 0\<close> show "x AND - x = 1"
    by (intro bit_eqI) (auto simp: bit_simps)
qed

lemma initial_step:
  assumes "xcb_xid_init c w = Some (True, c1, w1)" and "c_setup c = Some s" and "\<not> has_error c"
    and "resource_id_mask s = mask b" and "0 < b" and "b \<le> 32"
  shows "xcb_generate_id gen c1 w1 = Some (resource_id_base s, set_xid 0 (mask b) c1, w1)"
    and "xid_inc (c_xid c1) = 1" and "xid_base (c_xid c1) = resource_id_base s" and "\<not> has_error c1"
proof -
  have "(mask b :: u32) AND - mask b = 1"
    using assms(5) by (intro odd_and_minus) (simp add: even_mask_iff)
  with assms show "xid_inc (c_xid c1) = 1" "xid_base (c_xid c1) = resource_id_base s" "\<not> has_error c1"
    by (auto simp: xcb_xid_init_def split: if_splits prod.splits)
  then show "xcb_generate_id gen c1 w1 = Some (resource_id_base s, set_xid 0 (mask b) c1, w1)"
    using assms by (auto simp: xcb_xid_init_def xcb_generate_id_def split: if_splits prod.splits)
qed

lemma initial_ids:
  assumes "xcb_xid_init c w = Some (True, c1, w1)" and "c_setup c = Some s" and "\<not> has_error c"
    and "resource_id_mask s = mask b" and "0 < b" and "b < 32" and "n \<le> 2 ^ b"
  shows "\<exists>c2. generate_ids gen n c1 w1 =
    Some (map (\<lambda>k. resource_id_base s OR of_nat k) [0..<n], c2, w1)"
proof (cases n)
  case (Suc m)
  note first = initial_step [OF assms(1-5) less_imp_le [OF assms(6)]]
  let ?c = "set_xid 0 (mask b) c1"
  have "(2 :: nat) ^ b < 2 ^ 32" using assms(6) by (intro power_strict_increasing) auto
  then have "unat (word_of_nat (mask b) :: u32) = 2 ^ b - 1"
    by (subst unat_of_nat) (simp add: mask_eq_exp_minus_1)
  then have "unat (mask b :: u32) = 2 ^ b - 1" by (simp only: of_nat_mask_eq)
  with Suc assms(7) first(2,4) have r: "generate_ids gen m ?c w1 =
      Some (map (\<lambda>k. of_nat (Suc k) OR resource_id_base s) [0..<m], set_xid (of_nat m) (mask b) ?c, w1)"
    using generate_ids_range [of ?c m gen w1] first(3) by simp
  have "map f [0..<Suc m] = f 0 # map (\<lambda>k. f (Suc k)) [0..<m]" for f :: "nat \<Rightarrow> u32"
    by (simp only: upt_conv_Cons map_Suc_upt [symmetric] list.map map_map o_def zero_less_Suc)
  from this [of "\<lambda>k. resource_id_base s OR of_nat k"]
  have "map (\<lambda>k. resource_id_base s OR of_nat k) [0..<n] =
      resource_id_base s # map (\<lambda>k. of_nat (Suc k) OR resource_id_base s) [0..<m]"
    by (simp add: Suc or.commute)
  with first(1) r Suc show ?thesis by simp
qed simp

text \<open>
  C31: Unique identifiers. With a resource mask of \<open>b\<close> low bits and a base outside it, the first
  \<open>2 ^ b\<close> calls of \<open>xcb_generate_id\<close> succeed without asking the server and return pairwise
  different identifiers, all of them in the range the server gave to the client.
\<close>

theorem initial_ids_unique:
  assumes "xcb_xid_init c w = Some (True, c1, w1)" and "c_setup c = Some s" and "\<not> has_error c"
    and "resource_id_mask s = mask b" and "0 < b" and "b < 32" and "n \<le> 2 ^ b"
    and "resource_id_base s AND resource_id_mask s = 0"
  shows "\<exists>ids c2. generate_ids gen n c1 w1 = Some (ids, c2, w1) \<and> length ids = n \<and> distinct ids
    \<and> (\<forall>i \<in> set ids. i AND NOT (resource_id_mask s) = resource_id_base s)"
proof -
  let ?f = "\<lambda>k. resource_id_base s OR of_nat k :: u32"
  have in_mask: "?f k AND mask b = of_nat k" "?f k AND NOT (mask b) = resource_id_base s" if "k < n" for k
    using that assms(4,7,8) of_nat_and_mask [of k b] by (auto intro!: id_in_mask)
  have "inj_on ?f {0..<n}"
  proof (rule inj_onI)
    fix j k
    assume "j \<in> {0..<n}" "k \<in> {0..<n}" and eq: "?f j = ?f k"
    then have n: "j < n" "k < n" by simp_all
    have "(of_nat j :: u32) = ?f j AND mask b" using in_mask(1) [OF n(1)] by (rule sym)
    also have "\<dots> = of_nat k" unfolding eq by (rule in_mask(1) [OF n(2)])
    finally have jk: "(of_nat j :: u32) = of_nat k" .
    have "(2 :: nat) ^ b < 2 ^ 32" using assms(6) by (intro power_strict_increasing) auto
    with n assms(7) have "j < 2 ^ 32" "k < 2 ^ 32" by linarith+
    then have "unat (of_nat j :: u32) = j" "unat (of_nat k :: u32) = k"
      by (simp_all add: unat_of_nat)
    with jk show "j = k" by metis
  qed
  then have "distinct (map ?f [0..<n])" by (simp add: distinct_map)
  moreover have "\<forall>i \<in> set (map ?f [0..<n]). i AND NOT (resource_id_mask s) = resource_id_base s"
    using in_mask(2) assms(4) by auto
  ultimately show ?thesis
    using initial_ids [OF assms(1-7), of gen] by (metis length_map length_upt minus_nat.diff_0)
qed

definition sample_setup :: "u32 \<Rightarrow> xcb_setup_t" where
  "sample_setup m = \<lparr>setup_status = 1, setup_length = 0, resource_id_base = 0x400000,
     resource_id_mask = m, setup_maximum_request_length = 65535\<rparr>"

theorem initial_ids_unique_witness:
  "\<exists>c1 ids c2. xcb_xid_init (zero_conn\<lparr>c_setup := Some (sample_setup 0x1fffff)\<rparr>) quiet_os = Some (True, c1, quiet_os)
     \<and> generate_ids sample_gen 4 c1 quiet_os = Some (ids, c2, quiet_os) \<and> distinct ids \<and> length ids = 4"
proof -
  let ?c = "zero_conn\<lparr>c_setup := Some (sample_setup 0x1fffff)\<rparr>"
  obtain c1 where c1: "xcb_xid_init ?c quiet_os = Some (True, c1, quiet_os)"
    by (simp add: xcb_xid_init_def pthread_init_ok_def zero_defs)
  have s: "c_setup ?c = Some (sample_setup 0x1fffff)" "\<not> has_error ?c" by (simp_all add: zero_defs)
  have m: "resource_id_mask (sample_setup 0x1fffff) = mask 21"
    by (simp add: sample_setup_def mask_eq_exp_minus_1)
  have b: "(0 :: nat) < 21" "(21 :: nat) < 32" "4 \<le> (2 :: nat) ^ 21"
    "resource_id_base (sample_setup 0x1fffff) AND resource_id_mask (sample_setup 0x1fffff) = 0"
    by (simp_all add: sample_setup_def)
  from initial_ids_unique [OF c1 s m b] c1 show ?thesis by blast
qed

text \<open>
  C32: New ranges. When the current range is used up and the server, asked through XC-MISC, grants a range of \<open>count\<close>
  identifiers from \<open>start_id\<close> (neither is 0, and the range does not wrap), the next \<open>count\<close> calls return exactly the
  identifiers of that range, in order, with one request for all of them. The functions generated for XC-MISC leave the
  state of the allocator alone, and the increment is positive and at most the old maximum.
\<close>

theorem granted_range_used:
  assumes "\<not> has_error c" and "xid_last (c_xid c) = xid_max (c_xid c)" and "xid_max (c_xid c) \<noteq> 0"
    and "0 < xid_inc (c_xid c)" and "xid_inc (c_xid c) \<le> xid_max (c_xid c)"
    and "xcb_get_extension_data gen (xcb_xc_misc_id gen) c w = Some (Some x, c1, w1)"
    and "xcb_xc_misc_get_xid_range gen c1 w1 = Some (cookie, c2, w2)"
    and "xcb_xc_misc_get_xid_range_reply gen cookie c2 w2 = Some (Some r, c3, w3)"
    and "c_xid c3 = c_xid c" and "\<not> has_error c3" and "0 < range_count r" and "0 < start_id r"
    and "unat (start_id r) + (unat (range_count r) - 1) * unat (xid_inc (c_xid c)) < 2 ^ 32"
  shows "\<exists>c4. generate_ids gen (unat (range_count r)) c w =
    Some (map (\<lambda>k. (start_id r + of_nat k * xid_inc (c_xid c)) OR xid_base (c_xid c)) [0..<unat (range_count r)],
          c4, w3)"
proof -
  let ?i = "xid_inc (c_xid c)" and ?s = "start_id r" 
  obtain m where n: "unat (range_count r) = Suc m"
    using assms(11) by (cases "unat (range_count r)") (auto simp: word_less_nat_alt)
  let ?top = "?s + (range_count r - 1) * ?i"
  let ?c = "set_xid ?s ?top c3"
  have "m = unat (range_count r - 1)"
    using assms(11) n by (simp add: unat_minus_one word_neq_0_conv)
  then have cnt: "range_count r - 1 = of_nat m" by (simp only: of_nat_unat ucast_id)
  have "unat ?top = (unat ?s + m * unat ?i) mod 2 ^ 32"
    by (simp add: cnt unat_word_ariths unat_of_nat mod_simps)
  with assms(13) n have top: "unat ?top = unat ?s + m * unat ?i" by simp
  have "xid_max (c_xid c) - ?i + 1 \<le> xid_max (c_xid c)"
  proof -
    have "unat (xid_max (c_xid c) - ?i) + 1 \<le> unat (xid_max (c_xid c))"
      using assms(4,5) by (simp add: unat_sub word_less_nat_alt word_le_nat_alt)
    then show ?thesis
      using unat_add_le [of "xid_max (c_xid c) - ?i" 1 "xid_max (c_xid c)"]
      by (simp add: word_le_nat_alt)
  qed
  with assms have first: "xcb_generate_id gen c w = Some (?s OR xid_base (c_xid c), ?c, w3)"
    by (simp add: xcb_generate_id_def Let_def) auto
  have rest: "generate_ids gen m ?c w3 =
      Some (map (\<lambda>k. (?s + of_nat (Suc k) * ?i) OR xid_base (c_xid c)) [0..<m],
        set_xid (?s + of_nat m * ?i) ?top ?c, w3)"
    using generate_ids_range [of ?c m gen w3] assms(4,9,10) top by simp
  have "map f [0..<Suc m] = f 0 # map (\<lambda>k. f (Suc k)) [0..<m]" for f :: "nat \<Rightarrow> u32"
    by (simp only: upt_conv_Cons map_Suc_upt [symmetric] list.map map_map o_def zero_less_Suc)
  from this [of "\<lambda>k. (?s + of_nat k * ?i) OR xid_base (c_xid c)"] show ?thesis
    unfolding n using first rest by simp
qed

theorem granted_range_used_witness:
  "\<exists>c4. generate_ids sample_gen 16
      (zero_conn\<lparr>c_xid := \<lparr>xid_last = 3, xid_base = 0x400000, xid_max = 3, xid_inc = 1\<rparr>\<rparr>) quiet_os =
    Some (map (\<lambda>k. (1280 + of_nat k * 1) OR 0x400000) [0..<16], c4,
      assign_global_id (xcb_xc_misc_id sample_gen) quiet_os)"
proof -
  let ?c = "zero_conn\<lparr>c_xid := \<lparr>xid_last = 3, xid_base = 0x400000, xid_max = 3, xid_inc = 1\<rparr>\<rparr>"
  let ?w = "assign_global_id (xcb_xc_misc_id sample_gen) quiet_os"
  let ?x = "\<lparr>present = True, major_opcode = 128, first_event = 64\<rparr>"
  let ?c1 = "?c\<lparr>extensions := [Lazy_Forced (Some ?x), Lazy_None]\<rparr>"
  let ?r = "\<lparr>start_id = 1280, range_count = 16\<rparr>"
  have e: "xcb_get_extension_data sample_gen (xcb_xc_misc_id sample_gen) ?c quiet_os = Some (Some ?x, ?c1, ?w)"
    by (simp add: xcb_get_extension_data_def get_lazyreply_def get_index_def assign_global_id_def
        set_lazyreply_def malloc_ok_def sample_gen_def zero_defs numeral_2_eq_2)
  have q: "xcb_xc_misc_get_xid_range sample_gen ?c1 ?w = Some (9, ?c1, ?w)"
    "xcb_xc_misc_get_xid_range_reply sample_gen 9 ?c1 ?w = Some (Some ?r, ?c1, ?w)"
    by (simp_all add: sample_gen_def)
  show ?thesis
    using granted_range_used [OF _ _ _ _ _ e q] by (simp add: zero_defs)
qed

text \<open>
  A mask without its lowest bit: the test \<open>last >= max - inc + 1\<close> wraps for \<open>max = 0\<close>, so the
  initial range is never set up and the calls count past the mask.
\<close>

lemma high_mask_not_set_up:
  assumes "\<not> has_error c" and "xid_max (c_xid c) = 0" and "1 < xid_inc (c_xid c)"
    and "unat (xid_last (c_xid c)) + unat (xid_inc (c_xid c)) \<le> 2 ^ 32"
  shows "xcb_generate_id gen c w = Some ((xid_last (c_xid c) + xid_inc (c_xid c)) OR xid_base (c_xid c),
    set_xid (xid_last (c_xid c) + xid_inc (c_xid c)) 0 c, w)"
proof -
  let ?i = "xid_inc (c_xid c)" and ?l = "xid_last (c_xid c)"
  have "unat (1 - ?i) = 2 ^ 32 + 1 - unat ?i"
  proof -
    have i: "1 < uint ?i" "uint ?i < 2 ^ 32"
      using assms(3) unsigned_less [of ?i, where 'a = int] by (simp_all add: word_less_def)
    have "uint (1 - ?i) = (1 - uint ?i) mod 2 ^ 32" by (simp add: uint_word_ariths)
    also have "\<dots> = (1 - uint ?i + 2 ^ 32) mod 2 ^ 32" by (simp only: mod_add_self2)
    also have "\<dots> = 1 - uint ?i + 2 ^ 32"
      using i by (intro mod_pos_pos_trivial) linarith+
    finally have "int (unat (1 - ?i)) = int (2 ^ 32 + 1 - unat ?i)"
      using unat_bound32 [of ?i] by (simp add: of_nat_diff)
    then show ?thesis by (simp only: of_nat_eq_iff)
  qed
  then have "(0 - ?i + 1 \<le> ?l) = False"
    using assms(4) by (simp add: word_le_nat_alt)
  with assms(1,2) show ?thesis by (simp add: xcb_generate_id_def Let_def)
qed

text \<open>
  With the mask \<open>0x30\<close> (a contiguous mask that does not start at bit 0) the fourth
  identifier is \<open>base OR 0x40\<close>, outside the mask, without any request for a new range.
\<close>

theorem high_mask_ids_leave_range:
  "(do { (ok, c, w) \<leftarrow> xcb_xid_init (zero_conn\<lparr>c_setup := Some (sample_setup 0x30)\<rparr>) quiet_os;
        (ids, c, w) \<leftarrow> generate_ids gen 4 c w;
        Some (ok, ids) }) = Some (True, [0x400010, 0x400020, 0x400030, 0x400040])"
proof -
  have four: "generate_ids gen 4 = generate_ids gen (Suc (Suc (Suc (Suc 0))))"
    by (simp add: numeral_eq_Suc)
  show ?thesis
    by (simp add: xcb_xid_init_def pthread_init_ok_def zero_defs sample_setup_def four
        xcb_generate_id_def set_xid_def)
qed

end
