(* ===== verification/XcbConn.thy ===== *)
theory XcbConn
  imports XcbIn
begin

text \<open>
  Waiting for the server: \<open>write_vec\<close> and \<open>_xcb_conn_wait\<close> of \<open>src/src/xcb_conn.c\<close> and
  \<open>_xcb_out_send\<close> of \<open>src/src/xcb_out.c\<close>. This is the one place where the library blocks on the
  socket, and where both directions meet: a thread that wants to write also reads what the
  server sends, so that neither side waits for the other.

  The lemmas say what reading leaves alone (\<open>reads_only\<close>), that every round of waiting uses up
  an answer of \<open>poll\<close> or a step of another thread (so the loops end), and that the bytes of a
  vector reach the socket in order, each once.
\<close>

section \<open>What reading leaves alone\<close>

definition reads_only :: "xcb_connection_t \<Rightarrow> os \<Rightarrow> xcb_connection_t \<Rightarrow> os \<Rightarrow> bool" where
  "reads_only c w c' w' \<longleftrightarrow>
     c_out c' = c_out c \<and> c_setup c' = c_setup c \<and> fd c' = fd c \<and> extensions c' = extensions c
     \<and> c_xid c' = c_xid c \<and> reading (c_in c') = reading (c_in c) \<and> readers (c_in c') = readers (c_in c)
     \<and> (has_error c \<longrightarrow> has_error c') \<and> (\<exists>ev. events (c_in c') = events (c_in c) @ ev)
     \<and> os_wire w' = os_wire w \<and> os_writevs w' = os_writevs w \<and> os_others w' = os_others w
     \<and> os_callbacks w' = os_callbacks w \<and> os_next_cond w' = os_next_cond w \<and> os_inits w' = os_inits w
     \<and> os_global_id w' = os_global_id w \<and> os_next_global_id w' = os_next_global_id w
     \<and> length (os_polls w') \<le> length (os_polls w) \<and> (os_mallocs w = [] \<longrightarrow> os_mallocs w' = [])"

lemma reads_only_refl [simp]: "reads_only c w c w"
  by (simp add: reads_only_def)

lemma reads_only_trans [trans]:
  "reads_only c w c1 w1 \<Longrightarrow> reads_only c1 w1 c2 w2 \<Longrightarrow> reads_only c w c2 w2"
  unfolding reads_only_def by (elim conjE, intro conjI) (auto intro: order_trans)

lemma reads_only_shutdown [simp]: "reads_only c w (xcb_conn_shutdown c) w"
  by (simp add: reads_only_def xcb_conn_shutdown_def)

lemma reads_only_malloc: "malloc_ok w = (b, w') \<Longrightarrow> reads_only c w c w'"
  by (auto simp: reads_only_def malloc_ok_def split: list.splits)

lemma reads_only_malloc_size: "malloc_size sz w = (b, w') \<Longrightarrow> reads_only c w c w'"
  by (auto simp: malloc_size_def intro: reads_only_malloc split: if_splits)

lemma reads_only_signal [simp]: "reads_only c w c (os_signal s w)"
  by (simp add: reads_only_def os_signal_def)

lemma reads_only_signal_reader [simp]: "reads_only c w c (signal_reader rr rds w)"
proof -
  obtain sg where "signal_reader rr rds w = w\<lparr>os_signals := sg\<rparr>" using signal_reader_eq by blast
  then show ?thesis by (simp add: reads_only_def)
qed

lemma poll_retry_length: "poll_retry ps = (p, ps') \<Longrightarrow>
    length ps' \<le> length ps \<and> (p \<noteq> PollFail \<longrightarrow> length ps' < length ps)"
  by (induction ps rule: poll_retry.induct) auto

lemma read_block_polls: "read_block need rs ps = (ret, bs, rs', ps') \<Longrightarrow> length ps' \<le> length ps"
proof (induction need rs ps arbitrary: ret bs rs' ps' rule: read_block.induct)
  case (2 need r rs ps)
  show ?case
  proof (cases "need = 0")
    case False
    show ?thesis
    proof (cases r)
      case (RData d)
      obtain ret1 more rs1 ps1 where rec: "read_block (need - length d) rs ps = (ret1, more, rs1, ps1)"
        by (metis prod_cases4)
      show ?thesis
      proof (cases "d \<noteq> [] \<and> length d \<le> need")
        case True
        from "2.IH"(1) [OF False RData _ _ rec] True have "length ps1 \<le> length ps" by auto
        with True False RData rec "2.prems" show ?thesis by auto
      next
        case False
        with \<open>need \<noteq> 0\<close> RData "2.prems" show ?thesis by (auto split: if_splits)
      qed
    next
      case RAgain
      obtain p ps1 where p: "poll_retry ps = (p, ps1)" by (cases "poll_retry ps")
      note pl = poll_retry_length [OF p]
      show ?thesis
      proof (cases p)
        case (PollOk x)
        with "2.IH"(2) [OF False RAgain p [symmetric]] p False RAgain "2.prems" pl show ?thesis
          by fastforce
      qed (use pl p False RAgain "2.prems" in auto)
    next
      case RError
      with False "2.prems" show ?thesis by auto
    qed
  qed (use "2.prems" in auto)
qed (auto split: if_splits)

lemma reads_only_read_block:
  assumes "xcb_in_read_block len c w = Some (ret, buf, c', w')"
  shows "reads_only c w c' w'"
proof -
  let ?n = "nat (len - int (length (in_queue (c_in c))))"
  obtain ret1 more rs ps where
    rb: "read_block ?n (os_recvs w) (os_polls w) = (ret1, more, rs, ps)"
    by (metis prod_cases4)
  from read_block_polls [OF rb] rb assms show ?thesis
    by (auto simp: xcb_in_read_block_def Let_def reads_only_def xcb_conn_shutdown_def split: if_splits)
qed

lemma reads_only_track: "track_sequence g c w = (c', w') \<Longrightarrow> reads_only c w c' w'"
  by (auto simp: track_sequence_def Let_def reads_only_def malloc_ok_def
      split: if_splits prod.splits list.splits)

lemma reads_only_deliver:
  "deliver_reply p c w = (b, c', w') \<Longrightarrow> reads_only c w c' w'"
  "deliver_event p c w = (b, c', w') \<Longrightarrow> reads_only c w c' w'"
proof -
  obtain ok w1 where ml: "malloc_ok w = (ok, w1)" by (cases "malloc_ok w")
  have m: "reads_only c w c w1" by (rule reads_only_malloc [OF ml])
  have add: "reads_only c w1 (c\<lparr>c_in := (c_in c)\<lparr>current_reply := x\<rparr>\<rparr>) w1"
    "reads_only c w1 (c\<lparr>c_in := (c_in c)\<lparr>events := events (c_in c) @ y\<rparr>\<rparr>) w1" for x y
    by (simp_all add: reads_only_def)
  have fail: "reads_only c w (xcb_conn_shutdown c) w1"
    by (rule reads_only_trans [OF m reads_only_shutdown])
  have rep: "reads_only c w (c\<lparr>c_in := (c_in c)\<lparr>current_reply := x\<rparr>\<rparr>) (signal_reader rr rds w1)" for x rr rds
    by (rule reads_only_trans [OF m reads_only_trans [OF add(1) reads_only_signal_reader]])
  have ev: "reads_only c w (c\<lparr>c_in := (c_in c)\<lparr>events := events (c_in c) @ y\<rparr>\<rparr>) (os_signal s w1)" for y s
    by (rule reads_only_trans [OF m reads_only_trans [OF add(2) reads_only_signal]])
  show "deliver_reply p c w = (b, c', w') \<Longrightarrow> reads_only c w c' w'"
    using fail rep by (cases ok) (auto simp: deliver_reply_def ml)
  show "deliver_event p c w = (b, c', w') \<Longrightarrow> reads_only c w c' w'"
    using fail ev by (cases ok) (auto simp: deliver_event_def ml)
qed

lemma reads_only_read_packet:
  assumes "read_packet c w = Some (b, c', w')"
  shows "reads_only c w c' w'"
proof (cases "length (in_queue (c_in c)) < 32")
  case True
  with assms show ?thesis by (simp add: read_packet_def)
next
  case False
  let ?q = "in_queue (c_in c)"
  define g where "g = get_genrep ?q"
  obtain c1 w1 where ts: "track_sequence g c w = (c1, w1)" by (cases "track_sequence g c w")
  define pend where "pend = packet_pend g (c_in c1)"
  define len where "len = packet_length g pend ?q"
  let ?sz = "scast (len + xge_length g) + (if response_type g = XCB_REPLY then 0 else 4) :: u64"
  obtain ok w2 where ml: "malloc_size ?sz w1 = (ok, w2)" by (cases "malloc_size ?sz w1")
  note unf = read_packet_def Let_def g_def [symmetric] ts pend_def [symmetric] len_def [symmetric] ml
    bind_eq_Some_conv
  have r2: "reads_only c w c1 w2"
    using reads_only_track [OF ts] reads_only_malloc_size [OF ml] by (rule reads_only_trans)
  show ?thesis
  proof (cases ok)
    case False
    with assms \<open>\<not> length ?q < 32\<close> have "c' = xcb_conn_shutdown c1" "w' = w2" by (auto simp: unf)
    with r2 show ?thesis by (auto intro: reads_only_trans)
  next
    case True
    with assms False obtain ret1 buf c2 w3 where
      rb: "xcb_in_read_block (sint len) c1 w2 = Some (ret1, buf, c2, w3)"
      by (auto simp: unf)
    have r3: "reads_only c w c2 w3" using r2 reads_only_read_block [OF rb] by (rule reads_only_trans)
    show ?thesis
    proof (cases "ret1 \<le> 0")
      case True
      with assms False \<open>ok\<close> rb have "c' = c2" "w' = w3" by (auto simp: unf)
      with r3 show ?thesis by simp
    next
      case pos: False
      let ?second = "if xge_length g \<noteq> 0 then xcb_in_read_block (sint (xge_length g)) c2 w3
                     else Some (1, [], c2, w3)"
      from False assms \<open>ok\<close> rb pos obtain ret2 ext c3 w4 where
        rb2: "?second = Some (ret2, ext, c3, w4)"
        by (auto simp: unf split: if_splits)
      have "reads_only c2 w3 c3 w4"
        using rb2 reads_only_read_block by (auto split: if_splits)
      with r3 have r4: "reads_only c w c3 w4" by (rule reads_only_trans)
      from rb2 False assms \<open>ok\<close> rb pos have "reads_only c3 w4 c' w'"
        by (auto simp: unf split: if_splits route.splits dest: reads_only_deliver)
      with r4 show ?thesis by (rule reads_only_trans)
    qed
  qed
qed

lemma reads_only_read_packets: "read_packets c w = Some (c', w') \<Longrightarrow> reads_only c w c' w'"
  by (induction rule: read_packets_rule) (auto dest: reads_only_read_packet intro: reads_only_trans)

lemma reads_only_in_read:
  assumes "xcb_in_read c w = Some (b, c', w')"
  shows "reads_only c w c' w'" and "\<not> b \<Longrightarrow> has_error c'"
proof -
  obtain n rs where n: "os_recv (IN_QUEUE_SIZE - length (in_queue (c_in c))) (os_recvs w) = (n, rs)"
    by (cases "os_recv (IN_QUEUE_SIZE - length (in_queue (c_in c))) (os_recvs w)")
  let ?w = "w\<lparr>os_recvs := rs\<rparr>"
  let ?c = "case n of Got bs \<Rightarrow> set_queue (in_queue (c_in c) @ bs) c | _ \<Rightarrow> c"
  have r1: "reads_only c w ?c ?w"
    by (simp add: reads_only_def split: recv_outcome.split)
  from assms n obtain c1 where rp: "read_packets ?c ?w = Some (c1, w')"
    and c': "c' = c1 \<and> b \<or> c' = xcb_conn_shutdown c1 \<and> \<not> b"
    by (auto simp: xcb_in_read_def Let_def bind_eq_Some_conv2 split: recv_outcome.splits)
  from reads_only_trans [OF r1 reads_only_read_packets [OF rp]] c'
  show "reads_only c w c' w'" by (auto intro: reads_only_trans)
  from c' show "\<not> b \<Longrightarrow> has_error c'" by (auto simp: xcb_conn_shutdown_def)
qed

section \<open>Writing\<close>

text \<open>
  A vector of buffers is the list of what is left to write of each; the entries are shorter than
  \<open>2 ^ 31\<close> bytes. The system call takes a number of bytes from the front and never more than
  there are.
\<close>

type_synonym iovecs = "byte list list"

datatype writev_outcome = Wrote nat | WriteAgain | WriteFailed

definition os_writev :: "iovecs \<Rightarrow> os \<Rightarrow> writev_outcome \<times> os" where
  "os_writev vector w = (case os_writevs w of
       [] \<Rightarrow> (WriteFailed, w)
     | WAgain # rs \<Rightarrow> (WriteAgain, w\<lparr>os_writevs := rs\<rparr>)
     | WError # rs \<Rightarrow> (WriteFailed, w\<lparr>os_writevs := rs\<rparr>)
     | WAccept k # rs \<Rightarrow>
         (let n = min k (length (concat vector))
          in (Wrote n, w\<lparr>os_writevs := rs, os_wire := os_wire w @ take n (concat vector)\<rparr>)))"

text \<open>The loop that skips what was written; the first result is what remains of \<open>n\<close>.\<close>

fun advance :: "nat \<Rightarrow> iovecs \<Rightarrow> nat \<times> iovecs" where
  "advance n [] = (n, [])"
| "advance n (v # vs) =
     (let cur = (if length v > n then n else length v);
          v = drop cur v;
          n = n - cur
      in if v \<noteq> [] then (n, v # vs) else advance n vs)"

definition write_vec :: "iovecs \<Rightarrow> xcb_connection_t \<Rightarrow> os \<Rightarrow>
    (bool \<times> iovecs \<times> xcb_connection_t \<times> os) option" where
  "write_vec vector c w =
     (if out_queue (c_out c) \<noteq> [] then None
      else case os_writev vector w of
          (WriteAgain, w) \<Rightarrow> Some (True, vector, c, w)
        | (WriteFailed, w) \<Rightarrow> Some (False, vector, xcb_conn_shutdown c, w)
        | (Wrote n, w) \<Rightarrow>
            (if n = 0 then Some (False, vector, xcb_conn_shutdown c, w)
             else let (rest, vector) = advance n vector
                  in if rest \<noteq> 0 then None else Some (True, vector, c, w)))"

definition POLLIN :: u16 where "POLLIN = 1"

definition POLLOUT :: u16 where "POLLOUT = 4"

definition add_reading :: "int \<Rightarrow> xcb_connection_t \<Rightarrow> xcb_connection_t" where
  "add_reading d c = c\<lparr>c_in := (c_in c)\<lparr>reading := reading (c_in c) + d\<rparr>\<rparr>"

definition add_writing :: "int \<Rightarrow> xcb_connection_t \<Rightarrow> xcb_connection_t" where
  "add_writing d c = c\<lparr>c_out := (c_out c)\<lparr>writing := writing (c_out c) + d\<rparr>\<rparr>"

text \<open>
  \<open>_xcb_conn_wait\<close>, in the variant with \<open>poll\<close>. The vector is \<open>None\<close> when the caller passes null
  pointers, that is, when it only wants to read. The lock is not held during \<open>poll\<close>.
\<close>

definition conn_wait_io :: "u16 \<Rightarrow> iovecs option \<Rightarrow> xcb_connection_t \<Rightarrow> os \<Rightarrow>
    (bool \<times> iovecs option \<times> xcb_connection_t \<times> os) option" where
  "conn_wait_io revents vector c w = do {
     (ret, c, w) \<leftarrow> (if revents AND POLLIN = POLLIN then xcb_in_read c w else Some (True, c, w));
     (case vector of
        Some vec \<Rightarrow>
          (if revents AND POLLOUT = POLLOUT \<and> ret then do {
             (ret, vec, c, w) \<leftarrow> write_vec vec c w;
             Some (ret, Some vec, c, w)
           } else Some (ret, vector, c, w))
      | None \<Rightarrow> Some (ret, vector, c, w))
   }"

definition xcb_conn_wait :: "iovecs option \<Rightarrow> xcb_connection_t \<Rightarrow> os \<Rightarrow>
    (bool \<times> iovecs option \<times> xcb_connection_t \<times> os) option" where
  "xcb_conn_wait vector c w =
     (if (if vector \<noteq> None then writing (c_out c) else reading (c_in c)) \<noteq> 0 then do {
        (c, w) \<leftarrow> pthread_cond_wait c w;
        Some (True, vector, c, w)
      }
      else
        let c = add_reading 1 c;
            c = (if vector \<noteq> None then add_writing 1 c else c);
            events = (if vector \<noteq> None then POLLIN OR POLLOUT else POLLIN);
            (p, ps) = poll_retry (os_polls w);
            w = w\<lparr>os_polls := ps\<rparr>;
            (c, w) = os_yield c w
        in do {
             (ret, vector, c, w) \<leftarrow>
               (case p of
                  PollOk revents \<Rightarrow>
                    (if revents AND NOT events \<noteq> 0 then Some (False, vector, xcb_conn_shutdown c, w)
                     else conn_wait_io revents vector c w)
                | _ \<Rightarrow> Some (False, vector, xcb_conn_shutdown c, w));
             let c = (if vector \<noteq> None then add_writing (- 1) c else c);
                 c = add_reading (- 1) c
             in Some (ret, vector, c, w)
           })"

section \<open>What one round of waiting does\<close>

text \<open>The bytes of \<open>v\<close> that are not left in \<open>v'\<close> have gone to the wire, in order.\<close>

definition sent :: "os \<Rightarrow> iovecs \<Rightarrow> os \<Rightarrow> iovecs \<Rightarrow> bool" where
  "sent w v w' v' \<longleftrightarrow> (\<exists>x. os_wire w' = os_wire w @ x \<and> concat v = x @ concat v')"

lemma sent_refl [simp]: "os_wire w' = os_wire w \<Longrightarrow> sent w v w' v"
  by (simp add: sent_def)

lemma sent_trans: "sent w v w1 v1 \<Longrightarrow> sent w1 v1 w2 v2 \<Longrightarrow> sent w v w2 v2"
  by (auto simp: sent_def)

lemma sent_cong: "os_wire w1 = os_wire w \<Longrightarrow> os_wire w1' = os_wire w' \<Longrightarrow> sent w1 v w1' v' = sent w v w' v'"
  by (simp add: sent_def)

lemma sent_take: "k \<le> length (concat v) \<Longrightarrow> os_wire w' = os_wire w @ take k (concat v) \<Longrightarrow>
    concat v' = drop k (concat v) \<Longrightarrow> sent w v w' v'"
  by (simp add: sent_def)

lemma advance_spec:
  "n \<le> length (concat vs) \<Longrightarrow> advance n vs = (0, snd (advance n vs))
     \<and> concat (snd (advance n vs)) = drop n (concat vs)"
proof (induction n vs rule: advance.induct)
  case (2 n v vs)
  then show ?case by (auto simp: Let_def)
qed simp

lemma write_vec_spec:
  assumes "write_vec v c w = Some (ret, v', c', w')"
  shows "sent w v w' v'"
    and "c' = c \<and> ret \<or> c' = xcb_conn_shutdown c \<and> \<not> ret \<and> v' = v \<and> os_wire w' = os_wire w"
    and "\<exists>wr ws. w' = w\<lparr>os_writevs := ws, os_wire := wr\<rparr>" and "out_queue (c_out c) = []"
proof -
  obtain r w1 where r: "os_writev v w = (r, w1)" by (cases "os_writev v w")
  from r have "w1 = w\<lparr>os_writevs := os_writevs w1, os_wire := os_wire w1\<rparr>"
    by (auto simp: os_writev_def Let_def split: list.splits writev_result.splits)
  then have w1: "\<exists>wr ws. w1 = w\<lparr>os_writevs := ws, os_wire := wr\<rparr>" by blast
  have n: "n \<le> length (concat v) \<and> os_wire w1 = os_wire w @ take n (concat v)" if "r = Wrote n" for n
    using r that by (auto simp: os_writev_def Let_def split: list.splits writev_result.splits)
  have same: "os_wire w1 = os_wire w" if "r = WriteAgain \<or> r = WriteFailed"
    using r that by (auto simp: os_writev_def Let_def split: list.splits writev_result.splits)
  show "out_queue (c_out c) = []" using assms by (auto simp: write_vec_def split: if_splits)
  with assms r have wv: "(case r of
        WriteAgain \<Rightarrow> Some (True, v, c, w1)
      | WriteFailed \<Rightarrow> Some (False, v, xcb_conn_shutdown c, w1)
      | Wrote n \<Rightarrow> (if n = 0 then Some (False, v, xcb_conn_shutdown c, w1)
          else let (rest, v) = advance n v in if rest \<noteq> 0 then None else Some (True, v, c, w1)))
      = Some (ret, v', c', w')"
    by (simp add: write_vec_def split: writev_outcome.splits)
  then have "w' = w1" by (auto split: writev_outcome.splits if_splits prod.splits)
  with w1 show "\<exists>wr ws. w' = w\<lparr>os_writevs := ws, os_wire := wr\<rparr>" by simp
  show "c' = c \<and> ret \<or> c' = xcb_conn_shutdown c \<and> \<not> ret \<and> v' = v \<and> os_wire w' = os_wire w"
    using wv same n \<open>w' = w1\<close> by (cases r) (auto split: if_splits prod.splits)
  show "sent w v w' v'"
  proof (cases r)
    case (Wrote k)
    from n [OF Wrote] have k: "k \<le> length (concat v)" "os_wire w' = os_wire w @ take k (concat v)"
      using \<open>w' = w1\<close> by auto
    show ?thesis
    proof (cases "k = 0")
      case True
      with wv Wrote k show ?thesis by auto
    next
      case False
      with wv Wrote have "v' = snd (advance k v)" by (auto split: prod.splits if_splits)
      with advance_spec [OF k(1)] k show ?thesis by (simp add: sent_take)
    qed
  qed (use wv same \<open>w' = w1\<close> in auto)
qed

lemma add_counters [simp]:
  "has_error (add_reading d c) = has_error c" "has_error (add_writing d c) = has_error c"
  "c_out (add_reading d c) = c_out c" "c_in (add_writing d c) = c_in c"
  "events (c_in (add_reading d c)) = events (c_in c)"
  "out_queue (c_out (add_writing d c)) = out_queue (c_out c)"
  by (simp_all add: add_reading_def add_writing_def)

lemma conn_wait_io_spec:
  assumes "conn_wait_io revs vec c w = Some (ret, vec', c', w')"
  shows "vec = None \<Longrightarrow> vec' = None"
    and "vec = Some v \<Longrightarrow> \<exists>v'. vec' = Some v' \<and> sent w v w' v'"
    and "\<not> ret \<Longrightarrow> has_error c'"
    and "reads_only c w c' (w'\<lparr>os_wire := os_wire w, os_writevs := os_writevs w\<rparr>)"
proof -
  from assms obtain ret1 c1 w1 where
    rd: "(if revs AND POLLIN = POLLIN then xcb_in_read c w else Some (True, c, w)) = Some (ret1, c1, w1)"
    by (auto simp: conn_wait_io_def bind_eq_Some_conv2)
  then have r1: "reads_only c w c1 w1" and e1: "\<not> ret1 \<Longrightarrow> has_error c1"
    by (auto split: if_splits dest: reads_only_in_read)
  from r1 have wire: "os_wire w1 = os_wire w" "os_writevs w1 = os_writevs w" by (auto simp: reads_only_def)
  have keep: "reads_only c w c1 (w1\<lparr>os_wire := os_wire w, os_writevs := os_writevs w\<rparr>)"
    using r1 by (simp add: reads_only_def)
  show "vec = None \<Longrightarrow> vec' = None"
    using assms rd by (auto simp: conn_wait_io_def)
  show "vec = Some v \<Longrightarrow> \<exists>v'. vec' = Some v' \<and> sent w v w' v'"
  proof -
    assume v: "vec = Some v"
    have eq: "sent w v w' v' = sent w1 v w' v'" for v' using wire by (simp add: sent_def)
    show ?thesis
    proof (cases "revs AND POLLOUT = POLLOUT \<and> ret1")
      case True
      with assms rd v obtain v' where "vec' = Some v'" "write_vec v c1 w1 = Some (ret, v', c', w')"
        by (auto simp: conn_wait_io_def bind_eq_Some_conv2)
      with eq write_vec_spec(1) show ?thesis by blast
    next
      case False
      with assms rd v have "vec' = Some v" "w' = w1" by (auto simp: conn_wait_io_def)
      with wire show ?thesis by simp
    qed
  qed
  show "\<not> ret \<Longrightarrow> has_error c'"
    using assms rd e1
    by (auto simp: conn_wait_io_def bind_eq_Some_conv2 xcb_conn_shutdown_def dest: write_vec_spec(2)
        split: if_splits option.splits)
  show "reads_only c w c' (w'\<lparr>os_wire := os_wire w, os_writevs := os_writevs w\<rparr>)"
  proof (cases "c' = c1 \<and> w' = w1")
    case True
    with keep show ?thesis by simp
  next
    case False
    with assms rd obtain v v' where "write_vec v c1 w1 = Some (ret, v', c', w')"
      by (auto simp: conn_wait_io_def bind_eq_Some_conv2 split: if_splits option.splits)
    from write_vec_spec(2,3) [OF this] r1 show ?thesis
      by (auto simp: reads_only_def xcb_conn_shutdown_def)
  qed
qed

text \<open>
  One round: the bytes of the vector move to the wire from the front; without an error a \<open>poll\<close>
  answer or a step of another thread is used up; and when no other thread interferes, only the
  reading side of the connection changes.
\<close>

definition rounds_left :: "os \<Rightarrow> nat" where
  "rounds_left w = length (os_polls w) + length (os_others w)"

lemma os_yield_frame: "os_yield c w = (c', w') \<Longrightarrow>
    os_polls w' = os_polls w \<and> os_wire w' = os_wire w \<and> length (os_others w') \<le> length (os_others w)
    \<and> (os_others w = [] \<longrightarrow> c' = c \<and> w' = w)"
  by (auto simp: os_yield_def split: list.splits)

lemma add_counters_cancel:
  "c_out c' = c_out (add_writing 1 c) \<Longrightarrow> c_out (add_writing (- 1) c') = c_out c"
  "reading (c_in c') = reading (c_in (add_reading 1 c)) \<Longrightarrow> reading (c_in (add_reading (- 1) c')) = reading (c_in c)"
  by (simp_all add: add_writing_def add_reading_def)

lemma reads_only_counters:
  assumes "reads_only (add_reading 1 c) w c' w'"
  shows "reads_only c w (add_reading (- 1) c') w'"
  using assms by (auto simp: reads_only_def add_reading_def)

lemma reads_only_counters2:
  assumes "reads_only (add_writing 1 (add_reading 1 c)) w c' w'"
  shows "reads_only c w (add_reading (- 1) (add_writing (- 1) c')) w'"
  using assms by (auto simp: reads_only_def add_reading_def add_writing_def)

lemma conn_wait_cases:
  assumes "xcb_conn_wait vec c w = Some (ret, vec', c', w')"
  obtains (waited) "ret" "vec' = vec" "pthread_cond_wait c w = Some (c', w')"
    "(if vec \<noteq> None then writing (c_out c) else reading (c_in c)) \<noteq> 0"
  | (polled) p ps c1 w1 c2 where "(if vec \<noteq> None then writing (c_out c) else reading (c_in c)) = 0"
    "poll_retry (os_polls w) = (p, ps)"
    "os_yield (if vec \<noteq> None then add_writing 1 (add_reading 1 c) else add_reading 1 c) (w\<lparr>os_polls := ps\<rparr>) = (c1, w1)"
    "(\<exists>revents. p = PollOk revents \<and> conn_wait_io revents vec c1 w1 = Some (ret, vec', c2, w'))
     \<or> \<not> ret \<and> vec' = vec \<and> c2 = xcb_conn_shutdown c1 \<and> w' = w1"
    "c' = add_reading (- 1) (if vec' \<noteq> None then add_writing (- 1) c2 else c2)"
proof (cases "(if vec \<noteq> None then writing (c_out c) else reading (c_in c)) \<noteq> 0")
  case True
  with assms show thesis by (intro waited) (auto simp: xcb_conn_wait_def bind_eq_Some_conv2)
next
  case False
  obtain p ps where p: "poll_retry (os_polls w) = (p, ps)" by (cases "poll_retry (os_polls w)")
  let ?c = "if vec \<noteq> None then add_writing 1 (add_reading 1 c) else add_reading 1 c"
  obtain c1 w1 where y: "os_yield ?c (w\<lparr>os_polls := ps\<rparr>) = (c1, w1)"
    by (cases "os_yield ?c (w\<lparr>os_polls := ps\<rparr>)")
  let ?ev = "if vec \<noteq> None then POLLIN OR POLLOUT else POLLIN"
  let ?io = "case p of
      PollOk revents \<Rightarrow>
        (if revents AND NOT ?ev \<noteq> 0 then Some (False, vec, xcb_conn_shutdown c1, w1)
         else conn_wait_io revents vec c1 w1)
    | _ \<Rightarrow> Some (False, vec, xcb_conn_shutdown c1, w1)"
  have "xcb_conn_wait vec c w = do {
      (ret, vector, c, w) \<leftarrow> ?io;
      let c = (if vector \<noteq> None then add_writing (- 1) c else c);
          c = add_reading (- 1) c
      in Some (ret, vector, c, w) }"
    using False p y by (cases vec) (auto simp: xcb_conn_wait_def Let_def)
  with assms obtain c2 where io: "?io = Some (ret, vec', c2, w')"
    and c': "c' = add_reading (- 1) (if vec' \<noteq> None then add_writing (- 1) c2 else c2)"
    by (auto simp: bind_eq_Some_conv2 Let_def)
  from io have "(\<exists>revents. p = PollOk revents \<and> conn_wait_io revents vec c1 w1 = Some (ret, vec', c2, w'))
     \<or> \<not> ret \<and> vec' = vec \<and> c2 = xcb_conn_shutdown c1 \<and> w' = w1"
    by (auto split: poll_result.splits if_splits)
  with False p y c' show thesis by (intro polled [of p ps c1 w1 c2]) auto
qed

lemma conn_wait_spec:
  assumes "xcb_conn_wait vec c w = Some (ret, vec', c', w')"
  shows "vec = None \<Longrightarrow> vec' = None"
    and "vec = Some v \<Longrightarrow> \<exists>v'. vec' = Some v' \<and> sent w v w' v'"
    and "\<not> ret \<Longrightarrow> has_error c'"
    and "ret \<Longrightarrow> rounds_left w' < rounds_left w"
proof -
  have "(vec = None \<longrightarrow> vec' = None)
    \<and> (\<forall>v. vec = Some v \<longrightarrow> (\<exists>v'. vec' = Some v' \<and> sent w v w' v'))
    \<and> (\<not> ret \<longrightarrow> has_error c') \<and> (ret \<longrightarrow> rounds_left w' < rounds_left w)"
    using assms
  proof (cases rule: conn_wait_cases)
    case waited
    then show ?thesis
      by (auto simp: pthread_cond_wait_def rounds_left_def split: list.splits)
  next
    case (polled p ps c1 w1 c2)
    note y = os_yield_frame [OF polled(3)]
    show ?thesis
    proof (cases "\<not> ret \<and> vec' = vec \<and> c2 = xcb_conn_shutdown c1 \<and> w' = w1")
      case True
      with y polled(5) show ?thesis by (auto simp: xcb_conn_shutdown_def)
    next
      case False
      with polled(4) obtain revs where io: "p = PollOk revs" "conn_wait_io revs vec c1 w1 = Some (ret, vec', c2, w')"
        by auto
      note s = conn_wait_io_spec [OF io(2)]
      from s(4) have "length (os_polls w') \<le> length (os_polls w1)" "os_others w' = os_others w1"
        by (auto simp: reads_only_def)
      moreover have "length ps < length (os_polls w)" using poll_retry_length [OF polled(2)] io(1) by simp
      ultimately have "rounds_left w' < rounds_left w" using y by (simp add: rounds_left_def)
      moreover have "sent w v w' v' = sent w1 v w' v'" for v v' using y by (simp add: sent_def)
      ultimately show ?thesis using s(1,2,3) polled(5) by auto
    qed
  qed
  then show "vec = None \<Longrightarrow> vec' = None" "\<not> ret \<Longrightarrow> has_error c'" "ret \<Longrightarrow> rounds_left w' < rounds_left w"
    "vec = Some v \<Longrightarrow> \<exists>v'. vec' = Some v' \<and> sent w v w' v'"
    by auto
qed

lemma conn_wait_alone:
  assumes "xcb_conn_wait vec c w = Some (ret, vec', c', w')" and "os_others w = []"
  shows "reads_only c w c' (w'\<lparr>os_wire := os_wire w, os_writevs := os_writevs w\<rparr>)"
  using assms(1)
proof (cases rule: conn_wait_cases)
  case waited
  with assms(2) show ?thesis by (simp add: pthread_cond_wait_def)
next
  case (polled p ps c1 w1 c2)
  let ?c = "if vec \<noteq> None then add_writing 1 (add_reading 1 c) else add_reading 1 c"
  have y: "c1 = ?c" "w1 = w\<lparr>os_polls := ps\<rparr>" using os_yield_frame [OF polled(3)] assms(2) by auto
  have ps: "length ps \<le> length (os_polls w)" using poll_retry_length [OF polled(2)] by simp
  have r: "reads_only c1 w1 c2 (w'\<lparr>os_wire := os_wire w1, os_writevs := os_writevs w1\<rparr>)"
    using polled(4) conn_wait_io_spec(4) by (auto simp: reads_only_def xcb_conn_shutdown_def)
  with y ps have r2: "reads_only ?c w c2 (w'\<lparr>os_wire := os_wire w, os_writevs := os_writevs w\<rparr>)"
    by (auto simp: reads_only_def)
  have v: "vec' = None \<longleftrightarrow> vec = None"
    using conn_wait_spec(1,2) [OF assms(1)] by (cases vec) auto
  show ?thesis
    using r2 v polled(5) reads_only_counters reads_only_counters2 by (cases vec) auto
qed

section \<open>Sending a vector\<close>

function out_send_loop :: "iovecs \<Rightarrow> xcb_connection_t \<Rightarrow> os \<Rightarrow>
    (bool \<times> iovecs \<times> xcb_connection_t \<times> os) option" where
  "out_send_loop vector c w =
     (if vector = [] then Some (True, vector, c, w)
      else case xcb_conn_wait (Some vector) c w of
          Some (ret, Some vector', c', w') \<Rightarrow>
            (if ret then out_send_loop vector' c' w' else Some (False, vector', c', w'))
        | _ \<Rightarrow> None)"
  by pat_completeness auto
termination
  by (relation "measure (\<lambda>(v, c, w). rounds_left w)") (auto dest: conn_wait_spec(4))

declare out_send_loop.simps [simp del]

definition xcb_out_send :: "iovecs \<Rightarrow> xcb_connection_t \<Rightarrow> os \<Rightarrow> (bool \<times> xcb_connection_t \<times> os) option" where
  "xcb_out_send vector c w = do {
     (ret, vector, c, w) \<leftarrow> out_send_loop vector c w;
     let c = c\<lparr>c_out := (c_out c)\<lparr>request_written := out_request (c_out c)\<rparr>\<rparr>;
         w = os_signal OutCond w;
         w = xcb_in_wake_up_next_reader c w
     in Some (ret, c, w)
   }"

lemma out_send_loop_spec:
  assumes "out_send_loop v c w = Some (ret, v', c', w')"
  shows "sent w v w' v'" and "ret \<Longrightarrow> v' = []" and "\<not> ret \<Longrightarrow> has_error c'"
    and "os_others w = [] \<Longrightarrow> reads_only c w c' (w'\<lparr>os_wire := os_wire w, os_writevs := os_writevs w\<rparr>)"
proof -
  have "sent w v w' v' \<and> (ret \<longrightarrow> v' = []) \<and> (\<not> ret \<longrightarrow> has_error c')
    \<and> (os_others w = [] \<longrightarrow> reads_only c w c' (w'\<lparr>os_wire := os_wire w, os_writevs := os_writevs w\<rparr>))"
    using assms
  proof (induction v c w rule: out_send_loop.induct)
    case (1 v c w)
    show ?case
    proof (cases "v = []")
      case True
      with "1.prems" show ?thesis by (auto simp: out_send_loop.simps [of "[]"])
    next
      case False
      with "1.prems" obtain ret1 v1 c1 w1 where cw: "xcb_conn_wait (Some v) c w = Some (ret1, Some v1, c1, w1)"
        by (auto simp: out_send_loop.simps [of v] split: option.splits prod.splits)
      note s = conn_wait_spec(2) [OF cw refl] conn_wait_spec(3) [OF cw]
      note a = conn_wait_alone [OF cw]
      show ?thesis
      proof (cases ret1)
        case True
        with "1.prems" False cw have l: "out_send_loop v1 c1 w1 = Some (ret, v', c', w')"
          by (simp add: out_send_loop.simps [of v])
        from "1.IH" [OF False cw refl refl refl refl True l] s(1) a
        show ?thesis by (auto simp: reads_only_def intro: sent_trans)
      next
        case ret1: False
        with "1.prems" False cw have "ret = False" "v' = v1" "c' = c1" "w' = w1"
          by (auto simp: out_send_loop.simps [of v])
        with s ret1 a show ?thesis by auto
      qed
    qed
  qed
  then show "sent w v w' v'" "ret \<Longrightarrow> v' = []" "\<not> ret \<Longrightarrow> has_error c'"
    "os_others w = [] \<Longrightarrow> reads_only c w c' (w'\<lparr>os_wire := os_wire w, os_writevs := os_writevs w\<rparr>)"
    by auto
qed

lemma wake_up_frame [simp]:
  "os_wire (xcb_in_wake_up_next_reader c w) = os_wire w"
  "os_writevs (xcb_in_wake_up_next_reader c w) = os_writevs w"
  "os_others (xcb_in_wake_up_next_reader c w) = os_others w"
  "os_mallocs (xcb_in_wake_up_next_reader c w) = os_mallocs w"
  by (simp_all add: xcb_in_wake_up_next_reader_def split: list.split)

lemma reads_only_wake_up [simp]: "reads_only c w c (xcb_in_wake_up_next_reader c' w)"
  by (simp add: xcb_in_wake_up_next_reader_def split: list.split)

lemma out_send_spec:
  assumes "xcb_out_send v c w = Some (ret, c', w')"
  obtains v' where "sent w v w' v'" and "ret \<Longrightarrow> v' = []"
    and "\<not> ret \<Longrightarrow> has_error c'" and "request_written (c_out c') = out_request (c_out c')"
    and "os_others w = [] \<Longrightarrow> c_out c' = (c_out c)\<lparr>request_written := out_request (c_out c)\<rparr>
      \<and> os_others w' = [] \<and> (has_error c \<longrightarrow> has_error c') \<and> reading (c_in c') = reading (c_in c)
      \<and> readers (c_in c') = readers (c_in c) \<and> c_setup c' = c_setup c \<and> extensions c' = extensions c
      \<and> (os_mallocs w = [] \<longrightarrow> os_mallocs w' = [])"
proof -
  from assms obtain v' c1 w1 where l: "out_send_loop v c w = Some (ret, v', c1, w1)"
    and c': "c' = c1\<lparr>c_out := (c_out c1)\<lparr>request_written := out_request (c_out c1)\<rparr>\<rparr>"
    and w': "w' = xcb_in_wake_up_next_reader c' (os_signal OutCond w1)"
    by (auto simp: xcb_out_send_def bind_eq_Some_conv2 Let_def)
  note s = out_send_loop_spec [OF l]
  show thesis
  proof (rule that [of v'])
    show "os_others w = [] \<Longrightarrow> c_out c' = (c_out c)\<lparr>request_written := out_request (c_out c)\<rparr>
      \<and> os_others w' = [] \<and> (has_error c \<longrightarrow> has_error c') \<and> reading (c_in c') = reading (c_in c)
      \<and> readers (c_in c') = readers (c_in c) \<and> c_setup c' = c_setup c \<and> extensions c' = extensions c
      \<and> (os_mallocs w = [] \<longrightarrow> os_mallocs w' = [])"
      using s(4) c' w' by (simp add: reads_only_def)
    show "sent w v w' v'" using s(1) w' by (simp add: sent_def)
  qed (use s c' in auto)
qed

section \<open>Properties\<close>

text \<open>
  Sending never loses, repeats or reorders bytes. Whatever the kernel accepts per call, whatever
  other threads do meanwhile and whatever arrives from the server, when \<open>_xcb_out_send\<close> returns
  success the bytes of the vector have been written to the socket, all of them in order; when it
  returns failure a prefix has been written and the connection is in the error state.
\<close>

theorem out_send_in_order:
  assumes "xcb_out_send vector c w = Some (ret, c', w')"
  shows "\<exists>k. os_wire w' = os_wire w @ take k (concat vector)
    \<and> (ret \<longrightarrow> k = length (concat vector)) \<and> (\<not> ret \<longrightarrow> has_error c')
    \<and> request_written (c_out c') = out_request (c_out c')"
proof -
  from assms obtain v' where v': "sent w vector w' v'" "ret \<Longrightarrow> v' = []"
    "\<not> ret \<Longrightarrow> has_error c'" "request_written (c_out c') = out_request (c_out c')"
    by (rule out_send_spec) blast
  then obtain x where "os_wire w' = os_wire w @ x" "concat vector = x @ concat v'"
    by (auto simp: sent_def)
  with v' show ?thesis by (intro exI [of _ "length x"]) auto
qed

theorem out_send_in_order_witness:
  "\<exists>c' w'. xcb_out_send [[1, 2], [3]] zero_conn
      (quiet_os\<lparr>os_polls := [PollOk POLLOUT, PollOk POLLOUT], os_writevs := [WAccept 1, WAccept 9]\<rparr>) = Some (True, c', w')
    \<and> (\<exists>k. os_wire w' = take k [1, 2, 3] \<and> k = 3)"
proof -
  let ?w = "quiet_os\<lparr>os_polls := [PollOk POLLOUT, PollOk POLLOUT], os_writevs := [WAccept 1, WAccept 9]\<rparr>"
  obtain c' w' where run: "xcb_out_send [[1, 2], [3]] zero_conn ?w = Some (True, c', w')"
    by (simp add: xcb_out_send_def out_send_loop.simps xcb_conn_wait_def conn_wait_io_def write_vec_def
        os_writev_def os_yield_def add_reading_def add_writing_def POLLIN_def POLLOUT_def zero_defs Let_def)
  from out_send_in_order [OF run] run show ?thesis by (auto simp: zero_defs)
qed

section \<open>Sending makes progress\<close>

lemma advance_hd: "snd (advance n vs) \<noteq> [] \<Longrightarrow> hd (snd (advance n vs)) \<noteq> []"
  by (induction n vs rule: advance.induct) (auto simp: Let_def split: if_splits)

lemma conn_wait_writes:
  assumes "os_others w = []" and "writing (c_out c) = 0" and "out_queue (c_out c) = []"
    and "os_polls w = PollOk POLLOUT # ps" and "os_writevs w = WAccept k # ws" and "0 < k"
    and "concat v \<noteq> []" and n: "n = min k (length (concat v))"
  shows "xcb_conn_wait (Some v) c w = Some (True, Some (snd (advance n v)), c,
    w\<lparr>os_polls := ps, os_writevs := ws, os_wire := os_wire w @ take n (concat v)\<rparr>)"
proof -
  have n0: "n \<noteq> 0" using assms(6,7) n by (simp del: concat_eq_Nil_conv)
  let ?c = "add_writing 1 (add_reading 1 c)"
  let ?w = "w\<lparr>os_polls := ps\<rparr>"
  let ?w2 = "w\<lparr>os_polls := ps, os_writevs := ws, os_wire := os_wire w @ take n (concat v)\<rparr>"
  have "os_writev v ?w = (Wrote n, ?w2)"
    using assms(5) by (simp add: os_writev_def Let_def n)
  moreover obtain vs where "advance n v = (0, vs)" using advance_spec [of n v] n by auto
  moreover have "out_queue (c_out ?c) = []" using assms(3) by simp
  ultimately have "write_vec v ?c ?w = Some (True, snd (advance n v), ?c, ?w2)"
    using n0 by (simp add: write_vec_def)
  then have "conn_wait_io POLLOUT (Some v) ?c ?w = Some (True, Some (snd (advance n v)), ?c, ?w2)"
    by (simp add: conn_wait_io_def POLLIN_def POLLOUT_def)
  moreover have "add_reading (- 1) (add_writing (- 1) ?c) = c" by (simp add: add_reading_def add_writing_def)
  moreover have "POLLOUT AND NOT (POLLIN OR POLLOUT) = 0" by (simp add: POLLIN_def POLLOUT_def)
  ultimately show ?thesis
    using assms(1,2,4) by (simp add: xcb_conn_wait_def Let_def os_yield_def)
qed

lemma out_send_loop_completes_frame:
  assumes "os_others w = []" and "writing (c_out c) = 0" and "out_queue (c_out c) = []"
    and "\<forall>p \<in> set (os_polls w). p = PollOk POLLOUT" and "\<forall>r \<in> set (os_writevs w). \<exists>k > 0. r = WAccept k"
    and "length (concat v) \<le> length (os_polls w)" and "length (concat v) \<le> length (os_writevs w)"
    and "v \<noteq> [] \<longrightarrow> concat v \<noteq> []"
  shows "\<exists>ps ws x. out_send_loop v c w = Some (True, [], c, w\<lparr>os_polls := ps, os_writevs := ws, os_wire := x\<rparr>)"
  using assms
proof (induction v c w rule: out_send_loop.induct)
  case (1 v c w)
  show ?case
  proof (cases "v = []")
    case True
    then show ?thesis
      by (intro exI [of _ "os_polls w"] exI [of _ "os_writevs w"] exI [of _ "os_wire w"]) (simp add: out_send_loop.simps)
  next
    case False
    with "1.prems"(8) have ne: "concat v \<noteq> []" by blast
    with "1.prems"(6,7) obtain p ps r ws where pr: "os_polls w = p # ps" "os_writevs w = r # ws"
      by (cases "os_polls w"; cases "os_writevs w") (auto simp del: concat_eq_Nil_conv)
    with "1.prems"(4,5) obtain k where k: "p = PollOk POLLOUT" "r = WAccept k" "0 < k" by auto
    define n where "n = min k (length (concat v))"
    let ?v = "snd (advance n v)"
    let ?w = "w\<lparr>os_polls := ps, os_writevs := ws, os_wire := os_wire w @ take n (concat v)\<rparr>"
    have cw: "xcb_conn_wait (Some v) c w = Some (True, Some ?v, c, ?w)"
      using "1.prems"(1-3) pr k ne n_def by (intro conn_wait_writes) auto
    have len: "length (concat ?v) = length (concat v) - n" and "0 < n"
      using advance_spec [of n v] n_def k(3) ne by (auto simp del: concat_eq_Nil_conv)
    then have "length (concat ?v) \<le> length ps" "length (concat ?v) \<le> length ws"
      using "1.prems"(6,7) pr by simp_all
    moreover have "?v \<noteq> [] \<longrightarrow> concat ?v \<noteq> []"
      using advance_hd [of n v] by (cases ?v) auto
    ultimately have "\<exists>ps ws x. out_send_loop ?v c ?w = Some (True, [], c, ?w\<lparr>os_polls := ps, os_writevs := ws, os_wire := x\<rparr>)"
      using "1.prems"(1-5) pr by (intro "1.IH" [OF False cw refl refl refl refl TrueI]) simp_all
    with cw False show ?thesis by (simp add: out_send_loop.simps [of v])
  qed
qed

lemma out_send_loop_completes:
  assumes "os_others w = []" and "writing (c_out c) = 0" and "out_queue (c_out c) = []"
    and "\<forall>p \<in> set (os_polls w). p = PollOk POLLOUT" and "\<forall>r \<in> set (os_writevs w). \<exists>k > 0. r = WAccept k"
    and "length (concat v) \<le> length (os_polls w)" and "length (concat v) \<le> length (os_writevs w)"
    and "v \<noteq> [] \<longrightarrow> concat v \<noteq> []"
  shows "\<exists>w'. out_send_loop v c w = Some (True, [], c, w')"
  using out_send_loop_completes_frame [OF assms] by blast

text \<open>
  Sending finishes. If the socket becomes writable as often as needed, every \<open>writev\<close> accepts
  at least one byte, no other thread is writing and the vector has at least one byte of data, then
  \<open>_xcb_out_send\<close> returns success and all bytes are on the wire.
\<close>

theorem out_send_completes:
  assumes "os_others w = []" and "writing (c_out c) = 0" and "out_queue (c_out c) = []"
    and "\<forall>p \<in> set (os_polls w). p = PollOk POLLOUT" and "\<forall>r \<in> set (os_writevs w). \<exists>k > 0. r = WAccept k"
    and "length (concat vector) \<le> length (os_polls w)" and "length (concat vector) \<le> length (os_writevs w)"
    and "concat vector \<noteq> []"
  shows "\<exists>c' w'. xcb_out_send vector c w = Some (True, c', w') \<and> os_wire w' = os_wire w @ concat vector
    \<and> has_error c' = has_error c"
proof -
  obtain w1 where l: "out_send_loop vector c w = Some (True, [], c, w1)"
    using out_send_loop_completes [OF assms(1-7)] assms(8) by blast
  from out_send_loop_spec(1) [OF l] l show ?thesis
    by (auto simp: xcb_out_send_def Let_def sent_def)
qed

theorem out_send_completes_witness:
  "\<exists>c' w'. xcb_out_send [[1, 2], [3]] zero_conn
      (quiet_os\<lparr>os_polls := replicate 3 (PollOk POLLOUT), os_writevs := replicate 3 (WAccept 1)\<rparr>) = Some (True, c', w')
    \<and> os_wire w' = [1, 2, 3]"
proof -
  let ?w = "quiet_os\<lparr>os_polls := replicate 3 (PollOk POLLOUT), os_writevs := replicate 3 (WAccept 1)\<rparr>"
  have "\<exists>c' w'. xcb_out_send [[1, 2], [3]] zero_conn ?w = Some (True, c', w')
      \<and> os_wire w' = os_wire ?w @ concat [[1, 2], [3]] \<and> has_error c' = has_error zero_conn"
    by (rule out_send_completes) (simp_all add: zero_defs)
  then show ?thesis by (auto simp: zero_defs)
qed

end
