(* ===== verification/XcbRequest.thy ===== *)
theory XcbRequest
  imports XcbOut
begin

text \<open>
  What \<open>xcb_send_request\<close> and the flushing functions of \<open>src/src/xcb_out.c\<close> promise, over the
  output stream \<open>outstream\<close>: the bytes the kernel has taken followed by the queue.
\<close>

section \<open>The bytes of a request\<close>

text \<open>A prepared request as it goes to the server, with the long length when there is one.\<close>

definition wire_form :: "u32 \<Rightarrow> iovecs \<Rightarrow> byte list" where
  "wire_form big vs = (if big \<noteq> 0 then take 4 (hd vs) @ bytes32 big @ drop 4 (hd vs) @ concat (tl vs)
     else concat vs)"

text \<open>
  The length the server reads off the first bytes, in units of four bytes: the 16 bit length
  field or, when that is 0, the 32 bit word that follows (BIG-REQUESTS).
\<close>

definition server_length :: "byte list \<Rightarrow> nat" where
  "server_length bs = (if le16 (bs ! 2) (bs ! 3) \<noteq> 0 then unat (le16 (bs ! 2) (bs ! 3))
     else unat (le32 (bs ! 4) (bs ! 5) (bs ! 6) (bs ! 7)))"

lemma add_prefix_spec:
  "add_prefix synced big spare vs = Some (spare', vs') \<Longrightarrow>
     concat vs' = (if synced then sync_req else []) @ wire_form big vs"
  by (cases vs) (auto simp: add_prefix_def wire_form_def split: if_splits)

lemma set_length_field_spec:
  assumes "4 \<le> length b"
  shows "length (set_length_field n b) = length b"
    and "le16 (set_length_field n b ! 2) (set_length_field n b ! 3) = n"
    and "take 4 (set_length_field n b) = take 2 b @ bytes16 n"
    and "drop 4 (set_length_field n b) = drop 4 b"
proof -
  obtain x y where xy: "bytes16 n = [x, y]" by (simp add: bytes16_def)
  from assms show "length (set_length_field n b) = length b"
    "le16 (set_length_field n b ! 2) (set_length_field n b ! 3) = n"
    "take 4 (set_length_field n b) = take 2 b @ bytes16 n" "drop 4 (set_length_field n b) = drop 4 b"
    using le16_bytes16 [OF xy] by (simp_all add: set_length_field_def xy nth_append min_def)
qed

lemma server_length_short:
  assumes "4 \<le> length b" and "n \<noteq> 0"
  shows "server_length (set_length_field n b @ rest) = unat n"
  using assms set_length_field_spec [OF assms(1), of n] by (simp add: server_length_def nth_append)

lemma server_length_long:
  assumes "4 \<le> length b"
  shows "server_length (take 4 (set_length_field 0 b) @ bytes32 big @ rest) = unat big"
proof -
  obtain b0 b1 where t: "take 2 b = [b0, b1]"
    using assms by (cases b; cases "tl b") (auto simp: numeral_2_eq_2)
  obtain x0 x1 x2 x3 where x: "bytes32 big = [x0, x1, x2, x3]" by (simp add: bytes32_def)
  have z: "bytes16 0 = [0, 0]" by (simp add: bytes16_def)
  have "le16 0 0 = 0" by (simp add: le16_def)
  then show ?thesis
    using le32_bytes32 [OF x] by (simp add: set_length_field_spec(3) [OF assms] server_length_def t x z)
qed

lemma encode_length_spec:
  assumes "encode_length gen b vs c w = Some (Prepared vs' big, c', w')" and "4 \<le> length b"
    and "length b + length (concat vs) < 4 * (2 ^ 32 - 1)"
  shows "4 * server_length (wire_form big vs') = length (wire_form big vs')"
    and "big = 0 \<Longrightarrow> \<exists>n. vs' = set_length_field n b # vs"
    and "big \<noteq> 0 \<Longrightarrow> vs' = set_length_field 0 b # vs"
    and "length (wire_form big vs') = length b + length (concat vs) + (if big = 0 then 0 else 4)"
proof -
  define len where "len = (length b + length (concat vs)) div 4"
  from assms(1) have m: "(length b + length (concat vs)) mod 4 = 0"
    by (auto simp: encode_length_def Let_def split: if_splits)
  then have tot: "4 * len = length b + length (concat vs)"
    unfolding len_def by (metis mult_div_mod_eq add.right_neutral)
  with assms(2,3) have len: "0 < len" "len + 1 < 2 ^ 32" by linarith+
  from assms(1) m obtain s where s: "c_setup c = Some s"
    by (auto simp: encode_length_def Let_def split: option.splits)
  have "(\<exists>n. n \<noteq> 0 \<and> unat n = len \<and> vs' = set_length_field n b # vs \<and> big = 0)
    \<or> vs' = set_length_field 0 b # vs \<and> big = of_nat (len + 1)"
  proof (cases "len \<le> unat (setup_maximum_request_length s)")
    case True
    with unat_bound16 [of "setup_maximum_request_length s"] have l16: "len < 65536" by linarith
    have u: "unat (of_nat len :: u16) = len" using l16 by (simp add: unat_of_nat)
    with len(1) have "(of_nat len :: u16) \<noteq> 0" by (metis less_not_refl unat_0)
    with assms(1) m s True u show ?thesis
      by (auto simp: encode_length_def Let_def len_def [symmetric])
  next
    case False
    with assms(1) m s show ?thesis
      by (auto simp: encode_length_def Let_def len_def [symmetric] bind_eq_Some_conv2 split: if_splits)
  qed
  then consider (short) n where "n \<noteq> 0" "unat n = len" "vs' = set_length_field n b # vs" "big = 0"
    | (long) "vs' = set_length_field 0 b # vs" "big = of_nat (len + 1)" by blast
  then have "4 * server_length (wire_form big vs') = length (wire_form big vs')
    \<and> (big = 0 \<longrightarrow> (\<exists>n. vs' = set_length_field n b # vs))
    \<and> (big \<noteq> 0 \<longrightarrow> vs' = set_length_field 0 b # vs)
    \<and> length (wire_form big vs') = length b + length (concat vs) + (if big = 0 then 0 else 4)"
  proof cases
    case short
    with server_length_short [OF assms(2) short(1)] set_length_field_spec(1) [OF assms(2)] tot show ?thesis
      by (auto simp: wire_form_def)
  next
    case long
    have u: "unat big = len + 1" unfolding long(2) using len(2) by (subst unat_of_nat) simp
    then have "big \<noteq> 0" by auto
    with long(1) u server_length_long [OF assms(2)] set_length_field_spec [OF assms(2), of 0] tot assms(2)
    show ?thesis by (simp add: wire_form_def)
  qed
  then show "4 * server_length (wire_form big vs') = length (wire_form big vs')"
    "big = 0 \<Longrightarrow> \<exists>n. vs' = set_length_field n b # vs" "big \<noteq> 0 \<Longrightarrow> vs' = set_length_field 0 b # vs"
    "length (wire_form big vs') = length b + length (concat vs) + (if big = 0 then 0 else 4)"
    by auto
qed

lemma set_opcode_length:
  "set_opcode gen req b c w = Some (Some b', c', w') \<Longrightarrow> length b' = length b"
  by (auto simp: set_opcode_def bind_eq_Some_conv2 split: option.splits if_splits)

lemma fill_pads_length: "fill_pads vs = Some vs' \<Longrightarrow> length (concat vs') = (\<Sum>v \<leftarrow> vs. iov_len v)"
  by (induction vs arbitrary: vs' rule: fill_pads.induct) (auto split: if_splits)

lemma prepare_request_cases:
  assumes "prepare_request gen vector req c w = Some (Prepared vs big, c', w')"
  obtains b0 rest b us c1 w1 where "vector = Buf b0 # rest" "4 \<le> length b0" "length b = length b0"
    "set_opcode gen req b0 c w = Some (Some b, c1, w1)"
    "fill_pads rest = Some us" "encode_length gen b us c1 w1 = Some (Prepared vs big, c', w')"
proof -
  from assms obtain b0 rest where v: "vector = Buf b0 # rest" "4 \<le> length b0"
    by (auto simp: prepare_request_def split: list.splits iovec.splits if_splits)
  with assms obtain b us c1 w1 where "set_opcode gen req b0 c w = Some (Some b, c1, w1)"
    "fill_pads rest = Some us" "encode_length gen b us c1 w1 = Some (Prepared vs big, c', w')"
    by (auto simp: prepare_request_def bind_eq_Some_conv2 split: option.splits if_splits)
  with v set_opcode_length show thesis by (metis that)
qed

text \<open>
  C18: The length field. For every request that is not raw and is accepted, of less than 16
  gigabytes, the length the server decodes from the bytes sent is the number of bytes sent,
  whether the 16 bit field or the 32 bit field of BIG-REQUESTS is used; padding given as null
  pointers is counted and filled in, and nothing but the four bytes of the long length is added.
\<close>

theorem request_length_correct:
  assumes "prepare_request gen vector req c w = Some (Prepared vs big, c', w')"
    and "(\<Sum>v \<leftarrow> vector. iov_len v) < 4 * (2 ^ 32 - 1)"
  shows "4 * server_length (wire_form big vs) = length (wire_form big vs)
    \<and> length (wire_form big vs) = (\<Sum>v \<leftarrow> vector. iov_len v) + (if big = 0 then 0 else 4)"
  using assms(1)
proof (cases rule: prepare_request_cases)
  case (1 b0 rest b us c1 w1)
  from 1(1,3) fill_pads_length [OF 1(5)]
  have len: "length b + length (concat us) = (\<Sum>v \<leftarrow> vector. iov_len v)" by simp
  have "4 \<le> length b" using 1(2,3) by simp
  from encode_length_spec [OF 1(6) this] assms(2) len show ?thesis by simp
qed

text \<open>A connection with setup data and a buffer with a four byte request.\<close>

definition sample_conn :: xcb_connection_t where
  "sample_conn = zero_conn\<lparr>c_setup := Some \<lparr>setup_status = 1, setup_length = 0, resource_id_base = 0x400000,
     resource_id_mask = 0x1fffff, setup_maximum_request_length = 65535\<rparr>\<rparr>"

definition sample_req :: xcb_protocol_request_t where
  "sample_req = \<lparr>req_ext = None, opcode = 127, isvoid = True\<rparr>"

theorem request_length_correct_witness:
  "\<exists>vs big c' w'. prepare_request sample_gen [Buf [0, 0, 0, 0, 9], NullBase 3] sample_req sample_conn quiet_os
      = Some (Prepared vs big, c', w') \<and> 4 * server_length (wire_form big vs) = length (wire_form big vs)"
proof -
  have three: "replicate 3 (0 :: byte) = [0, 0, 0]" by (simp add: numeral_eq_Suc)
  have run: "prepare_request sample_gen [Buf [0, 0, 0, 0, 9], NullBase 3] sample_req
      sample_conn quiet_os = Some (Prepared [[127, 0, 2, 0, 9], [0, 0, 0]] 0, sample_conn, quiet_os)"
    by (simp add: prepare_request_def set_opcode_def encode_length_def set_length_field_def bytes16_def three
        sample_req_def sample_conn_def zero_defs)
  have "(\<Sum>v \<leftarrow> [Buf [0, 0, 0, 0, 9], NullBase 3]. iov_len v) < 4 * (2 ^ 32 - 1)" by simp
  from request_length_correct [OF run this] run show ?thesis by blast
qed

section \<open>Sending a request\<close>

text \<open>A thread that has the connection for itself, with the socket in the hands of the library.\<close>

definition alone :: "xcb_connection_t \<Rightarrow> os \<Rightarrow> bool" where
  "alone c w \<longleftrightarrow> os_others w = [] \<and> writing (c_out c) = 0 \<and> return_socket (c_out c) = None
     \<and> length (out_queue (c_out c)) \<le> XCB_QUEUE_BUFFER_SIZE"

lemma get_socket_back_none [simp]: "return_socket (c_out c) = None \<Longrightarrow> get_socket_back c w = Some (c, w)"
  by (simp add: get_socket_back_def wait_socket.simps)

lemma send_prepared_spec:
  assumes "send_prepared flags spare vs big req c w = Some (r, c', w')" and al: "alone c w"
    and "unat (out_request (c_out c)) + 2 < 2 ^ 63"
  shows "alone c' w' \<and> (has_error c \<longrightarrow> has_error c') \<and> (\<exists>synced.
    (synced \<longleftrightarrow> isvoid req \<and> out_request (c_out c) + 1 = request_expected (c_in c) + 65535)
    \<and> out_request (c_out c') = out_request (c_out c) + (if synced then 2 else 1)
    \<and> (r = ucast (out_request (c_out c'))
         \<and> outstream c' w' = outstream c w @ (if synced then sync_req else []) @ wire_form big vs
       \<or> r = 0 \<and> has_error c'))"
proof -
  have lt: "unat (out_request (c_out c)) < 2 ^ 63" using assms(3) by simp
  from assms(1) al obtain wa synced c1 w1 spare' vs' ret c2 where
    nr: "number_request req wa (flags AND NOT XCB_REQUEST_RAW) c w = Some (synced, c1, w1)"
    and ap: "add_prefix synced big spare vs = Some (spare', vs')"
    and wb: "write_block spare' vs' c1 w1 = Some (ret, c2, w')"
    and res: "if ret then r = ucast (out_request (c_out c1)) \<and> c' = c2 else r = 0 \<and> c' = xcb_conn_shutdown c2"
    by (auto simp: send_prepared_def alone_def bind_eq_Some_conv2 Let_def split: if_splits)
  note n = number_request_spec [OF nr lt]
  have "os_others w1 = []" "length (out_queue (c_out c1)) \<le> XCB_QUEUE_BUFFER_SIZE"
    using al n(2,4) by (simp_all add: alone_def)
  note b = write_block_spec [OF wb this]
  have same: "outstream c1 w1 = outstream c w" using n(2,5) by (simp add: outstream_def)
  have o: "out_request (c_out c2) = out_request (c_out c) + (if synced then 2 else 1)"
    using b(4) n(2) by (simp add: add.assoc)
  have "out_request (c_out c1) = out_request (c_out c2)" using b(4) by simp
  moreover have "alone c2 w'" using al n(2) b(3,5,7,8) by (simp add: alone_def)
  moreover have "out_request (c_out c) + 1 = request_expected (c_in c) + 65535 \<and> isvoid req \<longleftrightarrow> synced"
    using n(1) by blast
  ultimately show ?thesis
    using res b(1,2,6) n(6) same add_prefix_spec [OF ap] o
    by (cases ret) (auto simp: xcb_conn_shutdown_def alone_def)
qed

text \<open>
  C16: Requests are queued whole and in order. When \<open>xcb_send_request\<close> (for a request that is not
  raw) returns a number, the bytes of the request have been added at the end of the output
  stream, after a sync request when one was due, and the number is the low half of the 64 bit
  number the request really has: the next one, or the one after the sync request. The only other
  outcome is the result 0 with the connection in the error state.
\<close>

theorem send_request_stream:
  assumes "xcb_send_request gen flags spare vector req c w = Some (r, c', w')"
    and "\<not> has_error c" and "\<not> has_flag flags XCB_REQUEST_RAW"
    and "prepare_request gen vector req c w = Some (Prepared vs big, c1, w1)"
    and "alone c1 w1" and "unat (out_request (c_out c1)) + 2 < 2 ^ 63"
  shows "alone c' w' \<and> (\<exists>synced.
    (synced \<longleftrightarrow> isvoid req \<and> out_request (c_out c1) + 1 = request_expected (c_in c1) + 65535)
    \<and> out_request (c_out c') = out_request (c_out c1) + (if synced then 2 else 1)
    \<and> (r = ucast (out_request (c_out c'))
         \<and> outstream c' w' = outstream c1 w1 @ (if synced then sync_req else []) @ wire_form big vs
       \<or> r = 0 \<and> has_error c'))"
proof -
  have "vector \<noteq> []" using assms(4) by (auto simp: prepare_request_def)
  with assms(1-4) have "send_prepared flags spare vs big req c1 w1 = Some (r, c', w')"
    by (simp add: xcb_send_request_def)
  from send_prepared_spec [OF this assms(5,6)] show ?thesis by blast
qed

theorem send_request_stream_witness:
  "\<exists>r c' w'. xcb_send_request sample_gen 0 2 [Buf [0, 0, 0, 0]] sample_req sample_conn quiet_os = Some (r, c', w')
    \<and> r = 1 \<and> outstream c' w' = [127, 0, 1, 0]"
proof -
  have p: "prepare_request sample_gen [Buf [0, 0, 0, 0]] sample_req sample_conn quiet_os
      = Some (Prepared [[127, 0, 1, 0]] 0, sample_conn, quiet_os)"
    by (simp add: prepare_request_def set_opcode_def encode_length_def set_length_field_def bytes16_def
        sample_req_def sample_conn_def zero_defs)
  have h: "\<not> has_error sample_conn" "\<not> has_flag 0 XCB_REQUEST_RAW" "alone sample_conn quiet_os"
    "unat (out_request (c_out sample_conn)) + 2 < 2 ^ 63"
    by (simp_all add: sample_conn_def flag_consts alone_def zero_defs)
  let ?c = "set_out_queue [127, 0, 1, 0] (bump_request sample_conn)"
  have "send_prepared 0 2 [[127, 0, 1, 0]] 0 sample_req sample_conn quiet_os = Some (1, ?c, quiet_os)"
    by (simp add: send_prepared_def glx_workaround_def number_request_def sync_loop.simps needs_sync_def
        add_prefix_def write_block_def XCB_QUEUE_BUFFER_SIZE_def sample_req_def sample_conn_def zero_defs)
  with h p have run: "xcb_send_request sample_gen 0 2 [Buf [0, 0, 0, 0]] sample_req sample_conn quiet_os
      = Some (1, ?c, quiet_os)"
    by (simp add: xcb_send_request_def)
  have e: "\<not> has_error ?c" using h by simp
  from send_request_stream [OF run h(1,2) p h(3,4)] e run show ?thesis
    by (auto simp: wire_form_def outstream_def sample_conn_def zero_defs)
qed

end
