(* ===== verification/XcbFlush.thy ===== *)
theory XcbFlush
  imports XcbRequest
begin

text \<open>
  Flushing and lending the socket (\<open>src/src/xcb_out.c\<close>). The invariant \<open>queue_inv\<close> ties the output
  queue to the two counters: something is queued exactly when not all requests have been written.
\<close>

section \<open>The invariant of the output queue\<close>

definition queue_inv :: "xcb_connection_t \<Rightarrow> bool" where
  "queue_inv c \<longleftrightarrow> low_half (out_request (c_out c)) \<and> request_written (c_out c) \<le> out_request (c_out c)
     \<and> (out_queue (c_out c) = [] \<longleftrightarrow> request_written (c_out c) = out_request (c_out c))"

lemma queue_inv_low: "queue_inv c \<Longrightarrow> low_half (out_request (c_out c)) \<and> low_half (request_written (c_out c))"
  by (auto simp: queue_inv_def low_half_def word_le_nat_alt)

lemma write_block_written:
  assumes "write_block spare vs c w = Some (ret, c', w')" and "os_others w = []"
  shows "request_written (c_out c') = request_written (c_out c) \<and> out_queue (c_out c') = out_queue (c_out c) @ concat vs
    \<or> request_written (c_out c') = out_request (c_out c') \<and> out_queue (c_out c') = []"
proof -
  obtain spare' vs' q where fq: "fill_queue spare vs (out_queue (c_out c)) = (spare', vs', q)"
    by (metis prod_cases3)
  note f = fill_queue_spec [OF fq]
  show ?thesis
  proof (cases "vs' = []")
    case True
    with assms fq f show ?thesis by (auto simp: write_block_def)
  next
    case False
    with assms(1) fq have "xcb_out_send (q # vs') (set_out_queue [] c) w = Some (ret, c', w')"
      by (auto simp: write_block_def split: if_splits)
    then have "c_out c' = (c_out (set_out_queue [] c))\<lparr>request_written := out_request (c_out (set_out_queue [] c))\<rparr>"
      by (rule out_send_spec) (use assms(2) in blast)
    then show ?thesis by simp
  qed
qed

lemma send_prepared_queue_inv:
  assumes "send_prepared flags spare vs big req c w = Some (r, c', w')" and al: "alone c w" and "queue_inv c"
    and "unat (out_request (c_out c)) + 2 < 2 ^ 63" and ne: "wire_form big vs \<noteq> []"
  shows "queue_inv c'"
proof -
  have lt: "unat (out_request (c_out c)) < 2 ^ 63" using assms(4) by simp
  from assms(1) al obtain wa synced c1 w1 spare' vs' ret c2 where
    nr: "number_request req wa (flags AND NOT XCB_REQUEST_RAW) c w = Some (synced, c1, w1)"
    and ap: "add_prefix synced big spare vs = Some (spare', vs')"
    and wb: "write_block spare' vs' c1 w1 = Some (ret, c2, w')"
    and c': "c_out c' = c_out c2"
    by (auto simp: send_prepared_def alone_def bind_eq_Some_conv2 Let_def xcb_conn_shutdown_def split: if_splits)
  note n = number_request_spec [OF nr lt]
  have al1: "os_others w1 = []" "length (out_queue (c_out c1)) \<le> XCB_QUEUE_BUFFER_SIZE"
    using al n(2,4) by (simp_all add: alone_def)
  have "concat vs' \<noteq> []" using add_prefix_spec [OF ap] ne by auto
  moreover have "unat (out_request (c_out c1)) = unat (out_request (c_out c)) + (if synced then 2 else 1)"
    using n(2) assms(4) by (simp add: unat_word_ariths)
  moreover have "request_written (c_out c) \<le> out_request (c_out c)" using assms(3) by (simp add: queue_inv_def)
  ultimately show ?thesis
    using write_block_written [OF wb al1(1)] write_block_spec(4) [OF wb al1] n(2) assms(4) c'
    by (auto simp: queue_inv_def low_half_def word_le_nat_alt)
qed

section \<open>Flushing\<close>

lemma flush_to_spec:
  assumes "xcb_out_flush_to (out_request (c_out c)) c w = Some (ret, c', w')" and "alone c w" and "queue_inv c"
  shows "ret \<Longrightarrow> os_wire w' = outstream c w \<and> out_queue (c_out c') = []
      \<and> request_written (c_out c') = out_request (c_out c')"
    and "\<not> ret \<Longrightarrow> has_error c'" and "alone c' w'" and "out_request (c_out c') = out_request (c_out c)"
    and "queue_inv c'" and "socket_moving (c_out c') = socket_moving (c_out c)"
proof -
  note low = queue_inv_low [OF assms(3)]
  have "(ret \<longrightarrow> os_wire w' = outstream c w \<and> out_queue (c_out c') = []
      \<and> request_written (c_out c') = out_request (c_out c'))
    \<and> (\<not> ret \<longrightarrow> has_error c') \<and> alone c' w' \<and> out_request (c_out c') = out_request (c_out c) \<and> queue_inv c'
    \<and> socket_moving (c_out c') = socket_moving (c_out c)"
  proof (cases "out_queue (c_out c) = []")
    case True
    with assms(3) have "request_written (c_out c) = out_request (c_out c)" by (simp add: queue_inv_def)
    with assms True show ?thesis by (auto simp: xcb_out_flush_to_def outstream_def)
  next
    case False
    with assms(3) have "request_written (c_out c) < out_request (c_out c)" by (auto simp: queue_inv_def)
    with assms(1) low False have "xcb_out_send [out_queue (c_out c)] (set_out_queue [] c) w = Some (ret, c', w')"
      by (auto simp: xcb_out_flush_to_def seq_simps split: if_splits)
    then obtain v' where v': "sent w [out_queue (c_out c)] w' v'" "ret \<Longrightarrow> v' = []" "\<not> ret \<Longrightarrow> has_error c'"
      and a: "c_out c' = (c_out (set_out_queue [] c))\<lparr>request_written := out_request (c_out (set_out_queue [] c))\<rparr>"
      "os_others w' = []"
      by (rule out_send_spec) (use assms(2) in \<open>auto simp: alone_def\<close>)
    with assms(2) low show ?thesis by (auto simp: outstream_def sent_def alone_def queue_inv_def)
  qed
  then show "ret \<Longrightarrow> os_wire w' = outstream c w \<and> out_queue (c_out c') = []
      \<and> request_written (c_out c') = out_request (c_out c')"
    "\<not> ret \<Longrightarrow> has_error c'" "alone c' w'" "out_request (c_out c') = out_request (c_out c)" "queue_inv c'"
    "socket_moving (c_out c') = socket_moving (c_out c)"
    by auto
qed

text \<open>
  C22: Flushing. When \<open>xcb_flush\<close> returns success, every byte of every request sent so far is with
  the kernel, in order, the output queue is empty and all requests count as written; otherwise the
  connection is in the error state. The queue invariant holds again in both cases.
\<close>

theorem flush_writes_everything:
  assumes "xcb_flush c w = Some (ret, c', w')" and "\<not> has_error c" and "alone c w" and "queue_inv c"
  shows "queue_inv c' \<and> alone c' w' \<and> (if ret then os_wire w' = outstream c w \<and> out_queue (c_out c') = []
      \<and> request_written (c_out c') = out_request (c_out c) else has_error c')"
proof -
  from assms(1,2) have "xcb_out_flush_to (out_request (c_out c)) c w = Some (ret, c', w')"
    by (simp add: xcb_flush_def)
  from flush_to_spec [OF this assms(3,4)] show ?thesis by auto
qed

definition queued_conn :: xcb_connection_t where
  "queued_conn = set_out_queue [127, 0, 1, 0] (bump_request sample_conn)"

definition writable_os :: os where
  "writable_os = quiet_os\<lparr>os_polls := replicate 4 (PollOk POLLOUT), os_writevs := replicate 4 (WAccept 3)\<rparr>"

lemma queued_conn_ok: "\<not> has_error queued_conn" "alone queued_conn writable_os" "queue_inv queued_conn"
  by (simp_all add: queued_conn_def sample_conn_def writable_os_def alone_def queue_inv_def low_half_def
      XCB_QUEUE_BUFFER_SIZE_def zero_defs)

theorem flush_writes_everything_witness:
  "\<exists>c' w'. xcb_flush queued_conn writable_os = Some (True, c', w') \<and> os_wire w' = [127, 0, 1, 0]
    \<and> out_queue (c_out c') = []"
proof -
  have fl: "xcb_flush queued_conn writable_os =
      xcb_out_send [[127, 0, 1, 0]] (set_out_queue [] queued_conn) writable_os"
    by (simp add: xcb_flush_def xcb_out_flush_to_def XCB_SEQUENCE_COMPARE_def queued_conn_def sample_conn_def zero_defs)
  have "\<exists>w1. out_send_loop [[127, 0, 1, 0]] (set_out_queue [] queued_conn) writable_os
      = Some (True, [], set_out_queue [] queued_conn, w1)"
    by (rule out_send_loop_completes)
      (auto simp: queued_conn_def sample_conn_def writable_os_def zero_defs)
  with fl obtain c' w' where run: "xcb_flush queued_conn writable_os = Some (True, c', w')"
    by (auto simp: xcb_out_send_def Let_def)
  from flush_writes_everything [OF run queued_conn_ok] run show ?thesis
    by (simp add: outstream_def queued_conn_def sample_conn_def writable_os_def zero_defs)
qed

text \<open>
  C35: Flushing finishes: with a socket that becomes writable and accepts at least a byte at a
  time, \<open>xcb_flush\<close> returns success after at most as many rounds as bytes are queued.
\<close>

theorem flush_completes:
  assumes "\<not> has_error c" and "alone c w" and "queue_inv c"
    and "\<forall>p \<in> set (os_polls w). p = PollOk POLLOUT" and "\<forall>r \<in> set (os_writevs w). \<exists>k > 0. r = WAccept k"
    and "length (out_queue (c_out c)) \<le> length (os_polls w)" and "length (out_queue (c_out c)) \<le> length (os_writevs w)"
  shows "\<exists>c' w'. xcb_flush c w = Some (True, c', w')"
proof (cases "out_queue (c_out c) = []")
  case True
  with assms(3) have "request_written (c_out c) = out_request (c_out c)" by (simp add: queue_inv_def)
  with assms(1) show ?thesis by (simp add: xcb_flush_def xcb_out_flush_to_def)
next
  case False
  with assms(3) have "request_written (c_out c) < out_request (c_out c)" by (auto simp: queue_inv_def)
  with queue_inv_low [OF assms(3)] False assms(1)
  have "xcb_flush c w = xcb_out_send [out_queue (c_out c)] (set_out_queue [] c) w"
    by (auto simp: xcb_flush_def xcb_out_flush_to_def seq_simps)
  moreover have "\<exists>w'. out_send_loop [out_queue (c_out c)] (set_out_queue [] c) w = Some (True, [], set_out_queue [] c, w')"
    using assms False by (intro out_send_loop_completes) (simp_all add: alone_def)
  ultimately show ?thesis by (auto simp: xcb_out_send_def Let_def)
qed

theorem flush_completes_witness: "\<exists>c' w'. xcb_flush queued_conn writable_os = Some (True, c', w')"
  by (rule flush_completes [OF queued_conn_ok])
    (auto simp: queued_conn_def sample_conn_def writable_os_def zero_defs)

lemma prepared_nonempty:
  assumes "prepare_request gen v req c w = Some (Prepared vs big, c1, w1)"
  shows "v \<noteq> [] \<and> wire_form big vs \<noteq> []"
proof -
  have "v \<noteq> []" using assms by (auto simp: prepare_request_def)
  moreover have "wire_form big vs \<noteq> []"
    using assms
  proof (cases rule: prepare_request_cases)
    case (1 b0 rest b us c2 w2)
    then have "\<exists>n. vs = set_length_field n b # us"
      by (auto simp: encode_length_def Let_def bind_eq_Some_conv2 split: if_splits option.splits)
    then show ?thesis by (auto simp: wire_form_def set_length_field_def bytes16_def bytes32_def)
  qed
  ultimately show ?thesis by blast
qed

text \<open>
  The queue invariant. Sending a request of at least one byte keeps the tie between queue and
  counters that flushing relies on.
\<close>

theorem send_request_keeps_queue_inv:
  assumes "xcb_send_request gen flags spare vector req c w = Some (r, c', w')"
    and "\<not> has_error c" and "\<not> has_flag flags XCB_REQUEST_RAW"
    and "prepare_request gen vector req c w = Some (Prepared vs big, c1, w1)"
    and "alone c1 w1" and "queue_inv c1" and "unat (out_request (c_out c1)) + 2 < 2 ^ 63"
  shows "queue_inv c'"
proof -
  note ne = prepared_nonempty [OF assms(4)]
  with assms(1-4) have sp: "send_prepared flags spare vs big req c1 w1 = Some (r, c', w')"
    by (simp add: xcb_send_request_def)
  from send_prepared_queue_inv [OF sp assms(5,6,7) conjunct2 [OF ne]] show ?thesis .
qed

text \<open>The run of \<open>xcb_send_request\<close> that leaves \<open>queued_conn\<close>.\<close>

lemma sample_send:
  "prepare_request sample_gen [Buf [0, 0, 0, 0]] sample_req sample_conn quiet_os
     = Some (Prepared [[127, 0, 1, 0]] 0, sample_conn, quiet_os)"
  "xcb_send_request sample_gen 0 2 [Buf [0, 0, 0, 0]] sample_req sample_conn quiet_os = Some (1, queued_conn, quiet_os)"
proof -
  show p: "prepare_request sample_gen [Buf [0, 0, 0, 0]] sample_req sample_conn quiet_os
      = Some (Prepared [[127, 0, 1, 0]] 0, sample_conn, quiet_os)"
    by (simp add: prepare_request_def set_opcode_def encode_length_def set_length_field_def bytes16_def
        sample_req_def sample_conn_def zero_defs)
  have h: "\<not> has_error sample_conn" "\<not> has_flag 0 XCB_REQUEST_RAW"
    by (simp_all add: sample_conn_def flag_consts zero_defs)
  have "send_prepared 0 2 [[127, 0, 1, 0]] 0 sample_req sample_conn quiet_os = Some (1, queued_conn, quiet_os)"
    unfolding queued_conn_def
    by (simp add: send_prepared_def glx_workaround_def number_request_def sync_loop.simps needs_sync_def
        add_prefix_def write_block_def XCB_QUEUE_BUFFER_SIZE_def sample_req_def sample_conn_def zero_defs)
  with h p show "xcb_send_request sample_gen 0 2 [Buf [0, 0, 0, 0]] sample_req sample_conn quiet_os
      = Some (1, queued_conn, quiet_os)"
    by (simp add: xcb_send_request_def)
qed

theorem send_request_keeps_queue_inv_witness:
  "xcb_send_request sample_gen 0 2 [Buf [0, 0, 0, 0]] sample_req sample_conn quiet_os = Some (1, queued_conn, quiet_os)
    \<and> queue_inv queued_conn"
proof -
  have h: "\<not> has_error sample_conn" "\<not> has_flag 0 XCB_REQUEST_RAW" "alone sample_conn quiet_os"
    "queue_inv sample_conn" "unat (out_request (c_out sample_conn)) + 2 < 2 ^ 63"
    by (simp_all add: sample_conn_def flag_consts alone_def queue_inv_def low_half_def zero_defs)
  show ?thesis
    using send_request_keeps_queue_inv [OF sample_send(2) h(1,2) sample_send(1) h(3-5)] sample_send(2) by simp
qed

section \<open>Lending the socket and taking it back\<close>

text \<open>
  C37: Lending the socket. When \<open>xcb_take_socket\<close> succeeds, everything sent before is with the
  kernel and the output queue is empty, so the new owner can write at once; the number it is told
  is the last request written, its callback is registered, and when it asked for flags its replies
  are expected from the next packet on with no upper end.
\<close>

theorem take_socket_hands_over:
  assumes "xcb_take_socket f closure flags c w = Some (Some last_sent, c', w')"
    and "\<not> has_error c" and "alone c w" and "queue_inv c"
  shows "os_wire w' = outstream c w \<and> out_queue (c_out c') = [] \<and> last_sent = out_request (c_out c)
    \<and> request_written (c_out c') = last_sent \<and> return_socket (c_out c') = Some f \<and> socket_closure (c_out c') = closure
    \<and> (flags \<noteq> 0 \<longrightarrow> \<not> has_error c' \<longrightarrow> (\<exists>ps. pending_replies (c_in c') = ps @
         [\<lparr>first_request = last_sent, last_request = last_sent,
           workaround = WORKAROUND_EXTERNAL_SOCKET_OWNER, pend_flags = flags\<rparr>]))"
proof -
  have none: "return_socket (c_out c) = None" using assms(3) by (simp add: alone_def)
  with assms(1,2) obtain c1 w1 c2 where
    fl: "xcb_out_flush_to (out_request (c_out c)) c w = Some (True, c1, w1)"
    and c2: "c2 = c1\<lparr>c_out := (c_out c1)\<lparr>return_socket := Some f, socket_closure := closure\<rparr>\<rparr>"
    and ex: "(if flags \<noteq> 0 then do {
               (_, c, w) \<leftarrow> xcb_in_expect_reply (out_request (c_out c2)) WORKAROUND_EXTERNAL_SOCKET_OWNER flags c2 w1;
               Some (c, w)
             } else Some (c2, w1)) = Some (c', w')"
    and res: "last_sent = out_request (c_out c')"
    by (auto simp: xcb_take_socket_def bind_eq_Some_conv2 Let_def split: if_splits)
  note f = flush_to_spec [OF fl assms(3,4)]
  have "c_out c' = c_out c2" "os_wire w' = os_wire w1"
    using ex by (auto simp: bind_eq_Some_conv2 split: if_splits dest: expect_reply_frame expect_reply_others)
  moreover have "\<exists>ps. pending_replies (c_in c') = ps @
         [\<lparr>first_request = last_sent, last_request = last_sent,
           workaround = WORKAROUND_EXTERNAL_SOCKET_OWNER, pend_flags = flags\<rparr>]"
    if "flags \<noteq> 0" "\<not> has_error c'"
    using ex that res \<open>c_out c' = c_out c2\<close>
    by (auto simp: bind_eq_Some_conv2 xcb_in_expect_reply_def Let_def xcb_conn_shutdown_def
        split: if_splits prod.splits)
  ultimately show ?thesis using f(1,4) c2 res by auto
qed

theorem take_socket_hands_over_witness:
  "\<exists>c' w'. xcb_take_socket 5 6 0 sample_conn quiet_os = Some (Some 0, c', w') \<and> return_socket (c_out c') = Some 5"
proof -
  have h: "\<not> has_error sample_conn" "alone sample_conn quiet_os" "queue_inv sample_conn"
    by (simp_all add: sample_conn_def alone_def queue_inv_def low_half_def zero_defs)
  obtain c' w' where run: "xcb_take_socket 5 6 0 sample_conn quiet_os = Some (Some 0, c', w')"
    by (simp add: xcb_take_socket_def xcb_out_flush_to_def sample_conn_def zero_defs)
  from take_socket_hands_over [OF run h] run show ?thesis by blast
qed

text \<open>
  Taking the socket back. When the socket is lent and nobody else is taking it back, the
  callback is called exactly once with the registered argument; after whatever the owner did
  (\<open>g\<close>), the socket belongs to the library again and the replies expected on behalf of the owner
  end at the last request the owner sent.
\<close>

theorem socket_taken_back:
  assumes "return_socket (c_out c) = Some f" and "\<not> socket_moving (c_out c)" and "os_others w = g # gs"
    and "c1 = g (c\<lparr>c_out := (c_out c)\<lparr>socket_moving := True\<rparr>\<rparr>)"
    and "pending_replies (c_in c1) = ps @ [p]" and "workaround p = WORKAROUND_EXTERNAL_SOCKET_OWNER"
  shows "\<exists>c' w'. get_socket_back c w = Some (c', w')
    \<and> os_callbacks w' = os_callbacks w @ [(f, socket_closure (c_out c))]
    \<and> return_socket (c_out c') = None \<and> \<not> socket_moving (c_out c')
    \<and> out_request (c_out c') = out_request (c_out c1)
    \<and> pending_replies (c_in c') = ps @ [p\<lparr>last_request := out_request (c_out c1), workaround := WORKAROUND_NONE\<rparr>]"
  using assms by (simp add: get_socket_back_def wait_socket.simps os_yield_def Let_def
      xcb_in_replies_done_def os_signal_def)

theorem socket_taken_back_witness:
  "\<exists>c w c' w'. return_socket (c_out c) = Some 5 \<and> get_socket_back c w = Some (c', w')
    \<and> os_callbacks w' = [(5, 6)] \<and> return_socket (c_out c') = None"
proof -
  let ?p = "\<lparr>first_request = 1, last_request = 1, workaround = WORKAROUND_EXTERNAL_SOCKET_OWNER, pend_flags = 1\<rparr>"
  let ?c = "zero_conn\<lparr>c_out := zero_out\<lparr>return_socket := Some 5, socket_closure := 6\<rparr>,
              c_in := zero_in\<lparr>pending_replies := [?p]\<rparr>\<rparr>"
  let ?w = "quiet_os\<lparr>os_others := [\<lambda>c. c]\<rparr>"
  have "\<exists>c' w'. get_socket_back ?c ?w = Some (c', w')
      \<and> os_callbacks w' = os_callbacks ?w @ [(5, socket_closure (c_out ?c))]
      \<and> return_socket (c_out c') = None \<and> \<not> socket_moving (c_out c')
      \<and> out_request (c_out c') = out_request (c_out (?c\<lparr>c_out := (c_out ?c)\<lparr>socket_moving := True\<rparr>\<rparr>))
      \<and> pending_replies (c_in c') = [] @ [?p\<lparr>last_request :=
           out_request (c_out (?c\<lparr>c_out := (c_out ?c)\<lparr>socket_moving := True\<rparr>\<rparr>)), workaround := WORKAROUND_NONE\<rparr>]"
    by (rule socket_taken_back) (simp_all add: zero_defs)
  then have "\<exists>c' w'. get_socket_back ?c ?w = Some (c', w') \<and> os_callbacks w' = [(5, 6)] \<and> return_socket (c_out c') = None"
    by (auto simp: zero_defs)
  moreover have "return_socket (c_out ?c) = Some 5" by simp
  ultimately show ?thesis by blast
qed

section \<open>The number 0\<close>

text \<open>
  C38: The result 0 of \<open>xcb_send_request\<close> is meant to say that sending failed. But a request (not raw) whose 64 bit number is
  a multiple of \<open>2 ^ 32\<close> is queued whole like any other, the connection has no error, and the result is 0; and these are the only
  requests for which a connection without error returns 0. In particular the request after number \<open>2 ^ 32 - 1\<close> returns 0 unless a sync
  request is due just then, because the loop that should skip this number compares the 64 bit number with 0.
\<close>

theorem wrapped_number_reads_as_failure:
  assumes "xcb_send_request gen flags spare vector req c w = Some (r, c', w')"
    and "\<not> has_error c" and "\<not> has_flag flags XCB_REQUEST_RAW"
    and "prepare_request gen vector req c w = Some (Prepared vs big, c1, w1)"
    and "alone c1 w1" and "unat (out_request (c_out c1)) + 2 < 2 ^ 63" and "\<not> has_error c'"
  shows "(r = 0 \<longleftrightarrow> 2 ^ 32 dvd unat (out_request (c_out c')))
    \<and> (\<exists>sync \<in> {[], sync_req}. outstream c' w' = outstream c1 w1 @ sync @ wire_form big vs)
    \<and> (out_request (c_out c1) = 0xffffffff \<longrightarrow> \<not> (isvoid req \<and> request_expected (c_in c1) = 0xffff0001)
         \<longrightarrow> r = 0 \<and> out_request (c_out c') = 0x100000000)"
proof -
  have "vector \<noteq> []" using assms(4) by (auto simp: prepare_request_def)
  with assms(1-4) have "send_prepared flags spare vs big req c1 w1 = Some (r, c', w')"
    by (simp add: xcb_send_request_def)
  from send_prepared_spec [OF this assms(5,6)] assms(7) obtain synced where
    s: "synced \<longleftrightarrow> isvoid req \<and> out_request (c_out c1) + 1 = request_expected (c_in c1) + 65535"
    and n: "out_request (c_out c') = out_request (c_out c1) + (if synced then 2 else 1)"
    and r: "r = ucast (out_request (c_out c'))"
    and o: "outstream c' w' = outstream c1 w1 @ (if synced then sync_req else []) @ wire_form big vs" by blast
  have "unat r = unat (out_request (c_out c')) mod 2 ^ 32" unfolding r by (simp add: unat_low32)
  then have "r = 0 \<longleftrightarrow> 2 ^ 32 dvd unat (out_request (c_out c'))"
    by (simp add: dvd_eq_mod_eq_0 flip: unat_eq_zero)
  moreover have "synced \<longleftrightarrow> isvoid req \<and> request_expected (c_in c1) = 0xffff0001" if "out_request (c_out c1) = 0xffffffff"
    using s that by (auto simp: algebra_simps)
  ultimately show ?thesis using n r o by auto
qed

text \<open>Witness: a connection that has sent \<open>2 ^ 32 - 1\<close> requests.\<close>

abbreviation "wrap_conn \<equiv> sample_conn\<lparr>c_out := zero_out\<lparr>out_request := 0xffffffff, request_written := 0xffffffff\<rparr>,
  c_in := zero_in\<lparr>request_expected := 0xffffffff\<rparr>\<rparr>"

lemma wrapped_run:
  "\<exists>k c' w'. xcb_send_request sample_gen 0 2 [Buf [0, 0, 0, 0]] sample_req wrap_conn quiet_os = Some (k, c', w')
    \<and> \<not> has_error c' \<and> out_queue (c_out c') = [127, 0, 1, 0]"
  by (simp add: xcb_send_request_def prepare_request_def set_opcode_def encode_length_def set_length_field_def
      bytes16_def send_prepared_def glx_workaround_def number_request_def sync_loop.simps needs_sync_def
      add_prefix_def write_block_def XCB_QUEUE_BUFFER_SIZE_def sample_req_def sample_conn_def flag_consts zero_defs)

theorem wrapped_number_reads_as_failure_witness:
  "\<exists>c' w'. xcb_send_request sample_gen 0 2 [Buf [0, 0, 0, 0]] sample_req wrap_conn quiet_os = Some (0, c', w')
    \<and> \<not> has_error c' \<and> out_queue (c_out c') = [127, 0, 1, 0] \<and> out_request (c_out c') = 0x100000000"
proof -
  from wrapped_run obtain k c' w' where
    run: "xcb_send_request sample_gen 0 2 [Buf [0, 0, 0, 0]] sample_req wrap_conn quiet_os = Some (k, c', w')"
    and fine: "\<not> has_error c'" "out_queue (c_out c') = [127, 0, 1, 0]" by blast
  have p: "prepare_request sample_gen [Buf [0, 0, 0, 0]] sample_req wrap_conn quiet_os
      = Some (Prepared [[127, 0, 1, 0]] 0, wrap_conn, quiet_os)"
    by (simp add: prepare_request_def set_opcode_def encode_length_def set_length_field_def bytes16_def
        sample_req_def sample_conn_def zero_defs)
  have h: "\<not> has_error wrap_conn" "\<not> has_flag 0 XCB_REQUEST_RAW" "alone wrap_conn quiet_os"
    "unat (out_request (c_out wrap_conn)) + 2 < 2 ^ 63" "out_request (c_out wrap_conn) = 0xffffffff"
    "request_expected (c_in wrap_conn) \<noteq> 0xffff0001"
    by (simp_all add: sample_conn_def flag_consts alone_def zero_defs)
  from wrapped_number_reads_as_failure [OF run h(1,2) p h(3,4) fine(1)] h(5,6)
  have "k = 0" "out_request (c_out c') = 0x100000000" by blast+
  with run fine show ?thesis by blast
qed

end
