(* ===== verification/XcbWait.thy ===== *)
theory XcbWait
  imports XcbMailbox XcbFlush
begin

text \<open>
  The calls of \<open>src/src/xcb_in.c\<close> that wait for the server: \<open>xcb_wait_for_reply\<close>,
  \<open>xcb_wait_for_event\<close>, \<open>xcb_poll_for_event\<close> and \<open>xcb_request_check\<close>. They put together the two
  sides: the request is flushed, then packets are read and sorted until the mailbox or the event
  queue has something.
\<close>

section \<open>The model\<close>

text \<open>
  The list of waiting readers. A reader is inserted behind all that wait for the same or an
  earlier request; to be removed it is searched for in the same stretch of the list, by its
  address (that of its condition variable).
\<close>

fun insert_reader :: "reader_list \<Rightarrow> reader_list list \<Rightarrow> reader_list list" where
  "insert_reader rd [] = [rd]"
| "insert_reader rd (r # rs) =
     (if XCB_SEQUENCE_COMPARE_32 (rd_request r) (\<le>) (rd_request rd) then r # insert_reader rd rs
      else rd # r # rs)"

fun remove_reader :: "reader_list \<Rightarrow> reader_list list \<Rightarrow> reader_list list" where
  "remove_reader rd [] = []"
| "remove_reader rd (r # rs) =
     (if XCB_SEQUENCE_COMPARE_32 (rd_request r) (\<le>) (rd_request rd) then
        if rd_cond r = rd_cond rd then rs else r # remove_reader rd rs
      else r # rs)"

definition map_readers :: "(reader_list list \<Rightarrow> reader_list list) \<Rightarrow> xcb_connection_t \<Rightarrow> xcb_connection_t" where
  "map_readers f c = c\<lparr>c_in := (c_in c)\<lparr>readers := f (readers (c_in c))\<rparr>\<rparr>"

lemma poll_for_reply_None: "poll_for_reply k want c w = (None, c', w') \<Longrightarrow> c' = c \<and> w' = w"
  by (auto simp: poll_for_reply_def split: option.splits)

function wait_reply_loop :: "u32 \<Rightarrow> bool \<Rightarrow> xcb_connection_t \<Rightarrow> os \<Rightarrow>
    (poll_result_t \<times> xcb_connection_t \<times> os) option" where
  "wait_reply_loop request want_error c w =
     (case poll_for_reply request want_error c w of
        (Some r, c', w') \<Rightarrow> Some (r, c', w')
      | (None, c', w') \<Rightarrow>
          (case xcb_conn_wait None c w of
             None \<Rightarrow> None
           | Some (ret, v, c', w') \<Rightarrow>
               if ret then wait_reply_loop request want_error c' w'
               else Some (\<lparr>pr_reply = None, pr_error = None\<rparr>, c', w')))"
  by pat_completeness auto
termination
  by (relation "measure (\<lambda>(k, e, c, w). rounds_left w)") (auto dest: conn_wait_spec(4))

declare wait_reply_loop.simps [simp del]

definition xcb_wait_for_reply :: "u32 \<Rightarrow> bool \<Rightarrow> xcb_connection_t \<Rightarrow> os \<Rightarrow>
    (poll_result_t \<times> xcb_connection_t \<times> os) option" where
  "xcb_wait_for_reply request want_error c w =
     (if has_error c then Some (\<lparr>pr_reply = None, pr_error = None\<rparr>, c, w)
      else do {
        let widened = widen_request (out_request (c_out c)) request;
        (ok, c, w) \<leftarrow> (if return_socket (c_out c) \<noteq> None then Some (True, c, w) else xcb_out_flush_to widened c w);
        (r, c, w) \<leftarrow>
          (if ok then do {
             let reader = \<lparr>rd_request = request, rd_cond = os_next_cond w\<rparr>;
             let w = w\<lparr>os_next_cond := os_next_cond w + 1\<rparr>;
             (r, c, w) \<leftarrow> wait_reply_loop request want_error (map_readers (insert_reader reader) c) w;
             Some (r, map_readers (remove_reader reader) c, w)
           }
           else Some (\<lparr>pr_reply = None, pr_error = None\<rparr>, c, w));
        Some (r, c, xcb_in_wake_up_next_reader c w)
      })"

function wait_event_loop :: "xcb_connection_t \<Rightarrow> os \<Rightarrow> (packet option \<times> xcb_connection_t \<times> os) option" where
  "wait_event_loop c w =
     (case get_event c of
        (Some e, c') \<Rightarrow> Some (Some e, c', w)
      | (None, c') \<Rightarrow>
          (case xcb_conn_wait None c w of
             None \<Rightarrow> None
           | Some (ret, v, c', w') \<Rightarrow> if ret then wait_event_loop c' w' else Some (None, c', w')))"
  by pat_completeness auto
termination
  by (relation "measure (\<lambda>(c, w). rounds_left w)") (auto dest: conn_wait_spec(4))

declare wait_event_loop.simps [simp del]

definition xcb_wait_for_event :: "xcb_connection_t \<Rightarrow> os \<Rightarrow> (packet option \<times> xcb_connection_t \<times> os) option" where
  "xcb_wait_for_event c w =
     (if has_error c then Some (None, c, w)
      else do {
        (e, c, w) \<leftarrow> wait_event_loop c w;
        Some (e, c, xcb_in_wake_up_next_reader c w)
      })"

definition xcb_poll_for_event :: "xcb_connection_t \<Rightarrow> os \<Rightarrow> (packet option \<times> xcb_connection_t \<times> os) option" where
  "xcb_poll_for_event c w =
     (if has_error c then Some (None, c, w)
      else case get_event c of
          (Some e, c) \<Rightarrow> Some (Some e, c, w)
        | (None, c) \<Rightarrow> do {
            (ok, c, w) \<leftarrow> xcb_in_read c w;
            if ok then let (e, c) = get_event c in Some (e, c, w) else Some (None, c, w)
          })"

definition xcb_request_check :: "generated \<Rightarrow> u32 \<Rightarrow> xcb_connection_t \<Rightarrow> os \<Rightarrow>
    (packet option \<times> xcb_connection_t \<times> os) option" where
  "xcb_request_check gen cookie c w =
     (if has_error c then Some (None, c, w)
      else do {
        (c, w) \<leftarrow>
          (if XCB_SEQUENCE_COMPARE_32 cookie (\<ge>) (request_expected (c_in c))
              \<and> XCB_SEQUENCE_COMPARE_32 cookie (>) (request_completed (c_in c)) then do {
             (sync, c, w) \<leftarrow> xcb_get_input_focus gen c w;
             ((_, err), c, w) \<leftarrow> xcb_get_input_focus_reply gen sync c w;
             if err \<noteq> None then None else Some (c, w)
           } else Some (c, w));
        (r, c, w) \<leftarrow> xcb_wait_for_reply cookie True c w;
        if pr_reply r \<noteq> None then None else Some (pr_error r, c, w)
      })"

section \<open>Readers\<close>

lemma remove_insert_reader:
  assumes "rd_cond rd \<notin> rd_cond ` set rs"
  shows "remove_reader rd (insert_reader rd rs) = rs"
  using assms by (induction rs) (auto simp: seq32_le_refl)

lemma map_readers_simps [simp]:
  "readers (c_in (map_readers f c)) = f (readers (c_in c))" "has_error (map_readers f c) = has_error c"
  "c_out (map_readers f c) = c_out c" "events (c_in (map_readers f c)) = events (c_in c)"
  "reading (c_in (map_readers f c)) = reading (c_in c)"
  "mailbox (map_readers f c) = mailbox c" "in_inv (map_readers f c) = in_inv c"
  "request_read (c_in (map_readers f c)) = request_read (c_in c)"
  "request_completed (c_in (map_readers f c)) = request_completed (c_in c)"
  by (simp_all add: map_readers_def mailbox_def in_inv_def fun_eq_iff)

section \<open>Reading one reply\<close>

definition plain_reply :: "byte list \<Rightarrow> packet" where
  "plain_reply bs = \<lparr>contents = bs, full_sequence = None, xge_data = []\<rparr>"

lemma read_packet_reply:
  assumes q: "in_queue (c_in c) = bs" and g: "g = get_genrep bs" and ts: "track_sequence g c w = (c1, w1)"
    and pend: "pend = packet_pend g (c_in c1)" and ty: "response_type g = XCB_REPLY"
    and route: "packet_route g pend = ToReply" and len: "sint (packet_length g pend bs) = int (length bs)"
    and l: "32 \<le> length bs" and m: "os_mallocs w = []" and lt: "length bs < 2 ^ 31"
  shows "read_packet c w = Some (True, add_reply (plain_reply bs) (set_queue [] c1),
    signal_reader (request_read (c_in c1)) (readers (c_in c1)) w1)"
proof -
  have q1: "in_queue (c_in c1) = bs" using track_sequence_frame(1) [OF ts] q by simp
  have m1: "os_mallocs w1 = []" using track_sequence_mallocs [OF ts m] .
  have x: "xge_length g = 0" using ty by (simp add: xge_length_def packet_consts)
  have "(scast (packet_length g pend bs) :: u64) = word_of_nat (length bs)" by (simp add: scast_eq len)
  moreover have "unat (word_of_nat (length bs) :: u64) < 2 ^ 63" using lt by (simp add: unat_of_nat)
  ultimately have ms: "malloc_size (scast (packet_length g pend bs)) w1 = (True, w1)"
    using m1 by (simp add: malloc_size_def malloc_none)
  have rb: "xcb_in_read_block (int (length bs)) c1 w1 = Some (int (length bs), bs, set_queue [] c1, w1)"
    using q1 by (simp add: xcb_in_read_block_def Let_def set_queue_def)
  have ne: "\<not> int (length bs) \<le> 0" "bs \<noteq> []" using l by auto
  show ?thesis
    using l m1 by (simp add: read_packet_def q g [symmetric] Let_def ts pend [symmetric] ty x ms len rb ne route
        make_packet_def plain_reply_def deliver_reply_def malloc_none add_reply_def)
qed

section \<open>Waiting for a reply\<close>

lemma add_reading_simps [simp]:
  "in_queue (c_in (add_reading d c)) = in_queue (c_in c)"
  "request_read (c_in (add_reading d c)) = request_read (c_in c)"
  "pending_replies (c_in (add_reading d c)) = pending_replies (c_in c)"
  "current_reply (c_in (add_reading d c)) = current_reply (c_in c)"
  "add_reading d (add_reading e c) = add_reading (d + e) c" "add_reading 0 c = c"
  by (simp_all add: add_reading_def)

lemma conn_wait_reply:
  assumes "reading (c_in c) = 0" and "os_others w = []" and "os_polls w = PollOk POLLIN # ps"
    and rd: "xcb_in_read (add_reading 1 c) (w\<lparr>os_polls := ps\<rparr>) = Some (True, c2, w2)"
  shows "xcb_conn_wait None c w = Some (True, None, add_reading (- 1) c2, w2)"
  using assms by (simp add: xcb_conn_wait_def Let_def os_yield_def conn_wait_io_def POLLIN_def)

lemma reply_head_blocks:
  "reply_head k c w = None \<longleftrightarrow> k \<noteq> 0 \<and> \<not> XCB_SEQUENCE_COMPARE_32 k (<) (request_read (c_in c))
     \<and> \<not> (XCB_SEQUENCE_COMPARE_32 k (=) (request_read (c_in c)) \<and> current_reply (c_in c) \<noteq> [])
     \<and> \<not> XCB_SEQUENCE_COMPARE_32 k (=) (request_completed (c_in c))"
proof -
  obtain v m where "al_remove k (replies (c_in c)) = (v, m)" by (cases "al_remove k (replies (c_in c))")
  then show ?thesis
    by (cases v) (auto simp: reply_head_def Let_def split: list.splits prod.splits)
qed

section \<open>The event queue\<close>

text \<open>The interface of a first-in first-out queue, and what a client can rely on.\<close>

fun pop_run :: "('s \<Rightarrow> 'a option \<times> 's) \<Rightarrow> nat \<Rightarrow> 's \<Rightarrow> 'a option list \<times> 's" where
  "pop_run pop 0 s = ([], s)"
| "pop_run pop (Suc n) s = (let (x, s) = pop s; (xs, s) = pop_run pop n s in (x # xs, s))"

locale fifo =
  fixes items :: "'s \<Rightarrow> 'a list"
    and push :: "'a \<Rightarrow> 's \<Rightarrow> 's"
    and pop :: "'s \<Rightarrow> 'a option \<times> 's"
  assumes items_push: "items (push x s) = items s @ [x]"
    and pop_empty: "items s = [] \<Longrightarrow> pop s = (None, s)"
    and pop_head: "items s = x # xs \<Longrightarrow> \<exists>s'. pop s = (Some x, s') \<and> items s' = xs"
begin

lemma items_pushes: "items (fold push xs s) = items s @ xs"
  by (induction xs arbitrary: s) (simp_all add: items_push)

lemma pop_run_all:
  "items s = xs @ ys \<Longrightarrow> \<exists>s'. pop_run pop (length xs) s = (map Some xs, s') \<and> items s' = ys"
proof (induction xs arbitrary: s)
  case (Cons x xs)
  from Cons.prems pop_head obtain s1 where "pop s = (Some x, s1)" "items s1 = xs @ ys" by fastforce
  moreover from Cons.IH [OF this(2)] obtain s2 where "pop_run pop (length xs) s1 = (map Some xs, s2)" "items s2 = ys"
    by blast
  ultimately show ?case by simp
qed simp

lemma push_pop_run:
  "items s = [] \<Longrightarrow> \<exists>s'. pop_run pop (length xs) (fold push xs s) = (map Some xs, s') \<and> items s' = []"
  using pop_run_all [of "fold push xs s" xs "[]"] by (simp add: items_pushes)

end

interpretation evq: fifo "\<lambda>c. events (c_in c)" add_event get_event
proof
  show "events (c_in (add_event x s)) = events (c_in s) @ [x]" for x s by (simp add: add_event_def)
  show "events (c_in s) = [] \<Longrightarrow> get_event s = (None, s)" for s by (simp add: get_event_def)
  show "events (c_in s) = x # xs \<Longrightarrow> \<exists>s'. get_event s = (Some x, s') \<and> events (c_in s') = xs" for s x xs
    by (simp add: get_event_def)
qed

text \<open>
  Events come out in the order in which they were delivered: after any events have been
  delivered to an empty queue, as many calls of \<open>get_event\<close> return them all, in order, and
  leave the queue empty.
\<close>

theorem events_in_order:
  assumes "events (c_in c) = []"
  shows "\<exists>c'. pop_run get_event (length es) (fold add_event es c) = (map Some es, c') \<and> events (c_in c') = []"
  using assms by (rule evq.push_pop_run)

theorem events_in_order_witness:
  "\<exists>c'. pop_run get_event 2 (fold add_event [plain_reply [2], plain_reply [3]] zero_conn)
     = (map Some [plain_reply [2], plain_reply [3]], c') \<and> events (c_in c') = []"
proof -
  have "events (c_in zero_conn) = []" by (simp add: zero_defs)
  from events_in_order [OF this, of "[plain_reply [2], plain_reply [3]]"] show ?thesis by (simp add: numeral_2_eq_2)
qed

lemma wait_event_loop_None: "wait_event_loop c w = Some (None, c', w') \<Longrightarrow> has_error c'"
proof (induction c w rule: wait_event_loop.induct)
  case (1 c w)
  obtain e c0 where ge: "get_event c = (e, c0)" by (cases "get_event c")
  show ?case
  proof (cases e)
    case (Some x)
    with ge "1.prems" show ?thesis by (simp add: wait_event_loop.simps [of c])
  next
    case None
    with ge "1.prems" obtain ret v c1 w1 where cw: "xcb_conn_wait None c w = Some (ret, v, c1, w1)"
      by (auto simp: wait_event_loop.simps [of c] split: option.splits)
    show ?thesis
    proof (cases ret)
      case True
      with ge None cw "1.prems" have "wait_event_loop c1 w1 = Some (None, c', w')"
        by (simp add: wait_event_loop.simps [of c])
      with "1.IH" [of e c0 "(ret, v, c1, w1)"] ge None cw True show ?thesis by auto
    next
      case False
      with ge None cw "1.prems" have "c' = c1" by (simp add: wait_event_loop.simps [of c])
      with conn_wait_spec(3) [OF cw False] show ?thesis by simp
    qed
  qed
qed

text \<open>
  \<open>xcb_wait_for_event\<close> returns null only on an error: whenever it returns without an event, the
  connection is in the error state, whatever the server and other threads did meanwhile; and when
  an event is queued it returns the oldest one without waiting.
\<close>

theorem wait_for_event_null_is_error:
  assumes "xcb_wait_for_event c w = Some (e, c', w')"
  shows "(e = None \<longrightarrow> has_error c') \<and> (\<forall>x xs. \<not> has_error c \<longrightarrow> events (c_in c) = x # xs \<longrightarrow>
    e = Some x \<and> events (c_in c') = xs)"
proof (cases "has_error c")
  case True
  with assms show ?thesis by (simp add: xcb_wait_for_event_def)
next
  case False
  with assms obtain w1 where loop: "wait_event_loop c w = Some (e, c', w1)"
    by (auto simp: xcb_wait_for_event_def bind_eq_Some_conv2)
  have "e = Some x \<and> events (c_in c') = xs" if "events (c_in c) = x # xs" for x xs
    using loop that by (auto simp: wait_event_loop.simps [of c] get_event_def)
  with loop wait_event_loop_None show ?thesis by blast
qed

theorem wait_for_event_null_is_error_witness:
  "\<exists>c' w'. xcb_wait_for_event zero_conn quiet_os = Some (None, c', w') \<and> has_error c'"
proof -
  obtain c' w' where run: "xcb_wait_for_event zero_conn quiet_os = Some (None, c', w')"
    by (simp add: xcb_wait_for_event_def wait_event_loop.simps get_event_def xcb_conn_wait_def os_yield_def
        add_reading_def zero_defs Let_def)
  from wait_for_event_null_is_error [OF run] run show ?thesis by blast
qed

end
