(* ===== verification/XcbPopcount.thy ===== *)
theory XcbPopcount
  imports XcbPrelude
begin

text \<open>
  \<open>xcb_popcount\<close> of \<open>src/src/xcb_util.c\<close> and its equivalence with counting the bits of the
  argument. The proof follows the three bits of every octal digit through the computation.
\<close>

section \<open>Counting bits\<close>

definition xcb_popcount :: "u32 \<Rightarrow> int" where
  "xcb_popcount m =
    (let y = drop_bit 1 m AND 0xDB6DB6DB;
         y = m - y - (drop_bit 1 y AND 0xDB6DB6DB)
     in sint (((y + drop_bit 3 y) AND 0xC71C71C7) mod 63))"

text \<open>The number with the given octal digits, lowest first.\<close>

fun octal :: "nat list \<Rightarrow> nat" where
  "octal [] = 0"
| "octal (d # ds) = d + 8 * octal ds"

fun digits8 :: "nat \<Rightarrow> nat \<Rightarrow> nat list" where
  "digits8 0 n = []"
| "digits8 (Suc k) n = n mod 8 # digits8 k (n div 8)"

lemma octal_digits8: "n < 8 ^ k \<Longrightarrow> octal (digits8 k n) = n"
proof (induction k arbitrary: n)
  case (Suc k)
  then have "n div 8 < 8 ^ k" by (simp add: less_mult_imp_div_less mult.commute)
  with Suc.IH show ?case by simp
qed simp

lemma digits8_props: "length (digits8 k n) = k" "\<forall>d \<in> set (digits8 k n). d < 8"
  by (induction k arbitrary: n) auto


lemma bits3: "(d::nat) < 8 \<Longrightarrow> \<exists>p q r. d = of_bool p + 2 * (of_bool q + 2 * of_bool r)"
proof -
  assume "d < 8"
  then have "d = 0 \<or> d = 1 \<or> d = 2 \<or> d = 3 \<or> d = 4 \<or> d = 5 \<or> d = 6 \<or> d = 7" by linarith
  then have "d = of_bool (odd d) + 2 * (of_bool (odd (d div 2)) + 2 * of_bool (odd (d div 4)))"
    by (elim disjE) simp_all
  then show ?thesis by blast
qed

lemma and2: "(of_bool p + 2 * a) AND (of_bool q + 2 * b) = of_bool (p \<and> q) + 2 * (a AND b)"
  for a b :: nat
  by (subst and_nat_rec) (cases p; cases q; simp)

lemma and_octal_step:
  fixes d m :: nat
  assumes "d < 8" and "m < 8"
  shows "(d + 8 * a) AND (m + 8 * b) = (d AND m) + 8 * (a AND b)"
proof -
  have split8: "of_bool p + 2 * (of_bool q + 2 * of_bool r) + 8 * c
      = of_bool p + 2 * (of_bool q + 2 * (of_bool r + 2 * c))" for p q r and c :: nat by simp
  from bits3 [OF assms(1)] bits3 [OF assms(2)] obtain p q r p' q' r' where
    d: "d = of_bool p + 2 * (of_bool q + 2 * (of_bool r + 2 * 0))"
    and m: "m = of_bool p' + 2 * (of_bool q' + 2 * (of_bool r' + 2 * 0))" by auto
  have d8: "d + 8 * a = of_bool p + 2 * (of_bool q + 2 * (of_bool r + 2 * a))" using d by simp
  have m8: "m + 8 * b = of_bool p' + 2 * (of_bool q' + 2 * (of_bool r' + 2 * b))" using m by simp
  show ?thesis unfolding d8 m8 unfolding d m and2 by simp
qed

lemma and_octal:
  "length ds = length ms \<Longrightarrow> \<forall>d \<in> set ds. d < 8 \<Longrightarrow> \<forall>d \<in> set ms. d < 8
     \<Longrightarrow> octal ds AND octal ms = octal (map2 (AND) ds ms)"
  by (induction ds ms rule: list_induct2) (simp_all add: and_octal_step)

lemma and_three: "n AND 3 = n mod 4" for n :: nat
proof -
  have "mask 2 = (3 :: nat)" by (simp add: mask_eq_exp_minus_1)
  with take_bit_eq_mask [of 2 n] show ?thesis by (simp add: take_bit_eq_mod)
qed

lemma half_octal: "(d + 8 * n) div 2 = (d div 2 + 4 * (n mod 2)) + 8 * (n div 2)" for d n :: nat
proof -
  have "(d + 2 * (4 * n)) div 2 = d div 2 + 4 * n" by (simp only: div_mult_self2 zero_neq_numeral)
  moreover have "4 * n = 4 * (n mod 2) + 8 * (n div 2)"
    using mod_mult_div_eq [of n 2] by linarith
  ultimately show ?thesis by linarith
qed

lemma half_and_threes:
  "\<forall>d \<in> set ds. d < 8 \<Longrightarrow> (octal ds div 2) AND octal (map (\<lambda>_. 3) ds) = octal (map (\<lambda>d. d div 2) ds)"
proof (induction ds)
  case (Cons d ds)
  let ?n = "octal ds"
  have h: "(d + 8 * ?n) div 2 = (d div 2 + 4 * (?n mod 2)) + 8 * (?n div 2)" by (rule half_octal)
  have d4: "d div 2 < 4" using Cons.prems by (simp add: less_mult_imp_div_less)
  moreover have "?n mod 2 \<le> 1" by simp
  ultimately have lt: "d div 2 + 4 * (?n mod 2) < 8" by linarith
  have "(d div 2 + 4 * (?n mod 2)) mod 4 = d div 2 mod 4" by (rule mod_mult_self2)
  with d4 have low: "(d div 2 + 4 * (?n mod 2)) AND 3 = d div 2" by (simp only: and_three mod_less)
  have "octal (d # ds) div 2 AND octal (map (\<lambda>_. 3) (d # ds))
      = ((d div 2 + 4 * (?n mod 2)) + 8 * (?n div 2)) AND (3 + 8 * octal (map (\<lambda>_. 3) ds))"
    by (simp only: octal.simps list.map h)
  also have "\<dots> = ((d div 2 + 4 * (?n mod 2)) AND 3) + 8 * ((?n div 2) AND octal (map (\<lambda>_. 3) ds))"
    by (rule and_octal_step [OF lt]) simp
  also have "\<dots> = octal (map (\<lambda>d. d div 2) (d # ds))"
    using Cons by (simp only: low) simp
  finally show ?case .
qed simp

lemma octal_add: "octal (map f ds) + octal (map g ds) = octal (map (\<lambda>d. f d + g d) ds)"
  by (induction ds) auto

text \<open>Octal digits are summed by casting out 63, two at a time.\<close>

fun pairs_sum :: "nat list \<Rightarrow> nat list" where
  "pairs_sum [] = []"
| "pairs_sum [p] = [p]"
| "pairs_sum (p # q # ps) = (p + q) # 0 # pairs_sum ps"

lemma octal_mod63: "octal (pairs_sum ps) mod 63 = sum_list ps mod 63"
proof (induction ps rule: pairs_sum.induct)
  case (3 p q ps)
  have "octal (pairs_sum (p # q # ps)) = p + q + octal (pairs_sum ps) + 63 * octal (pairs_sum ps)" by simp
  then have "octal (pairs_sum (p # q # ps)) mod 63 = (p + q + octal (pairs_sum ps)) mod 63"
    by (simp only: mod_mult_self2)
  also have "\<dots> = (p + q + sum_list ps) mod 63"
    by (rule mod_add_cong) (simp_all only: 3)
  finally show ?case by (simp add: add.assoc)
qed simp_all

lemma count_bits_step:
  "length (filter (bit n) [0..<Suc k]) = n mod 2 + length (filter (bit (n div 2)) [0..<k])" for n :: nat
proof -
  have "filter (bit n) [0..<Suc k] = (if odd n then [0] else []) @ map Suc (filter (bit (n div 2)) [0..<k])"
    by (simp add: upt_conv_Cons map_Suc_upt [symmetric] filter_map o_def bit_Suc bit_0 del: upt_Suc)
  then show ?thesis by (simp add: odd_iff_mod_2_eq_one)
qed

lemma count_bits_digit:
  "length (filter (bit n) [0..<Suc (Suc (Suc k))])
     = n mod 8 - n mod 8 div 2 - n mod 8 div 4 + length (filter (bit (n div 8)) [0..<k])" for n :: nat
proof -
  define d where "d = n mod 8"
  have "d < 8" by (simp add: d_def)
  then have "d = 0 \<or> d = 1 \<or> d = 2 \<or> d = 3 \<or> d = 4 \<or> d = 5 \<or> d = 6 \<or> d = 7" by linarith
  then have "d mod 2 + (d div 2 mod 2 + d div 4 mod 2) = d - d div 2 - d div 4"
    by (elim disjE) simp_all
  moreover have "n mod 2 = d mod 2" unfolding d_def by (simp add: mod_mod_cancel)
  moreover have "n div 2 mod 2 = d div 2 mod 2" unfolding d_def using mod_mult2_eq [of n 2 4]
    by (simp add: mod_mod_cancel)
  moreover have "n div 4 mod 2 = d div 4 mod 2" unfolding d_def using mod_mult2_eq [of n 4 2]
    by simp
  moreover have "n div 2 div 2 div 2 = n div 8" "n div 2 div 2 = n div 4" by (simp_all add: div_mult2_eq [symmetric])
  ultimately show ?thesis unfolding count_bits_step d_def by simp
qed

definition pop_digit :: "nat \<Rightarrow> nat" where
  "pop_digit d = d - d div 2 - d div 4"

lemma pop_digit_le: "d < 8 \<Longrightarrow> pop_digit d \<le> 3" "pop_digit d \<le> d"
  by (auto simp: pop_digit_def)

lemma count_bits_octal: "length (filter (bit n) [0..<3 * k]) = sum_list (map pop_digit (digits8 k n))" for n :: nat
proof (induction k arbitrary: n)
  case (Suc k)
  have "3 * Suc k = Suc (Suc (Suc (3 * k)))" by simp
  then have "length (filter (bit n) [0..<3 * Suc k]) = pop_digit (n mod 8) + length (filter (bit (n div 8)) [0..<3 * k])"
    using count_bits_digit [of n "3 * k"] by (simp only: pop_digit_def)
  then show ?case by (simp only: Suc.IH digits8.simps list.map sum_list.Cons)
qed simp

lemma octal_split: "octal (map pop_digit ds) + octal (map (\<lambda>d. d div 2) ds) + octal (map (\<lambda>d. d div 4) ds) = octal ds"
proof -
  have "pop_digit d + d div 2 + d div 4 = d" for d by (simp add: pop_digit_def)
  then show ?thesis by (simp add: octal_add)
qed

lemma unat_drop_bit_div: "unat (drop_bit k x) = unat x div 2 ^ k" for x :: "'a :: len word"
  by (simp only: unat_drop_bit_eq) (simp only: drop_bit_eq_div)

lemma eleven_digits:
  assumes "length ps = 11" and "\<forall>p \<in> set ps. p \<le> (3::nat)"
  obtains p0 p1 p2 p3 p4 p5 p6 p7 p8 p9 p10 where "ps = [p0, p1, p2, p3, p4, p5, p6, p7, p8, p9, p10]"
    "p0 \<le> 3" "p1 \<le> 3" "p2 \<le> 3" "p3 \<le> 3" "p4 \<le> 3" "p5 \<le> 3" "p6 \<le> 3" "p7 \<le> 3" "p8 \<le> 3" "p9 \<le> 3" "p10 \<le> 3"
proof -
  have "(11::nat) = Suc (Suc (Suc (Suc (Suc (Suc (Suc (Suc (Suc (Suc (Suc 0))))))))))" by simp
  with assms(1) have "length ps = Suc (Suc (Suc (Suc (Suc (Suc (Suc (Suc (Suc (Suc (Suc 0))))))))))" by (rule trans)
  then show ?thesis using that assms(2) by (auto simp: length_Suc_conv)
qed

text \<open>The last step of the computation, on a word whose octal digits are at most three.\<close>

lemma fold_digits:
  assumes "length ps = 11" and "\<forall>p \<in> set ps. p \<le> 3" and "unat (y :: u32) = octal ps"
  shows "unat (((y + drop_bit 3 y) AND 0xC71C71C7) mod 63) = sum_list ps"
proof -
  obtain p0 p1 p2 p3 p4 p5 p6 p7 p8 p9 p10 where ps: "ps = [p0, p1, p2, p3, p4, p5, p6, p7, p8, p9, p10]"
    and le: "p0 \<le> 3" "p1 \<le> 3" "p2 \<le> 3" "p3 \<le> 3" "p4 \<le> 3" "p5 \<le> 3" "p6 \<le> 3" "p7 \<le> 3" "p8 \<le> 3" "p9 \<le> 3" "p10 \<le> 3"
    by (elim eleven_digits [OF assms(1,2)])
  have y: "unat y = octal ps" using assms(3) .
  have eight: "(2::nat) ^ 3 = 8" by simp
  have y8: "unat (drop_bit 3 y) = octal [p1, p2, p3, p4, p5, p6, p7, p8, p9, p10]"
  proof -
    have "(p0 + 8 * t) div 8 = t" for t using le(1) by simp
    then show ?thesis by (simp only: unat_drop_bit_div y ps octal.simps(2) [of p0] eight)
  qed
  have small: "octal ps + octal [p1, p2, p3, p4, p5, p6, p7, p8, p9, p10] < 4294967296"
    using le by (simp add: ps)
  let ?sums = "[p0+p1, p1+p2, p2+p3, p3+p4, p4+p5, p5+p6, p6+p7, p7+p8, p8+p9, p9+p10, p10]"
  have "unat (y + drop_bit 3 y) = octal ps + octal [p1, p2, p3, p4, p5, p6, p7, p8, p9, p10]"
    using small by (simp only: unat_word_ariths y y8) simp
  also have "\<dots> = octal ?sums" by (simp add: ps)
  finally have s: "unat (y + drop_bit 3 y) = octal ?sums" .
  have m: "unat (0xC71C71C7 :: u32) = octal [7,0,7,0,7,0,7,0,7,0,3]" by simp
  have seven: "n AND 7 = n" if "n < 8" for n :: nat
    using that take_bit_eq_mask [of 3 n] by (simp add: take_bit_eq_mod mask_eq_exp_minus_1)
  have "unat ((y + drop_bit 3 y) AND 0xC71C71C7) = octal ?sums AND octal [7,0,7,0,7,0,7,0,7,0,3]"
    by (simp only: unsigned_and_eq s m)
  also have "\<dots> = octal (map2 (AND) ?sums [7,0,7,0,7,0,7,0,7,0,3])"
    using le by (intro and_octal) simp_all
  also have "map2 (AND) ?sums [7,0,7,0,7,0,7,0,7,0,3] = pairs_sum ps"
    using le by (simp add: ps seven and_three)
  finally have "unat (((y + drop_bit 3 y) AND 0xC71C71C7) mod 63) = octal (pairs_sum ps) mod 63"
    by (simp only: unat_mod) simp
  also have "\<dots> = sum_list ps mod 63" by (rule octal_mod63)
  also have "\<dots> = sum_list ps" using le by (simp add: ps)
  finally show ?thesis .
qed

text \<open>The first two steps leave the bit count of every octal digit in that digit.\<close>

lemma digit_counts:
  fixes m :: u32
  defines "y \<equiv> drop_bit 1 m AND 0xDB6DB6DB"
  shows "unat (m - y - (drop_bit 1 y AND 0xDB6DB6DB)) = octal (map pop_digit (digits8 11 (unat m)))"
proof -
  let ?ds = "digits8 11 (unat m)"
  let ?p = "octal (map pop_digit ?ds)" and ?h = "octal (map (\<lambda>d. d div 2) ?ds)" and ?q = "octal (map (\<lambda>d. d div 4) ?ds)"
  have m: "unat m = octal ?ds" using unat_bound32 [of m] by (simp add: octal_digits8)
  have threes: "unat (0xDB6DB6DB :: u32) = octal (map (\<lambda>_. 3) ds)" if "length ds = 11" for ds :: "nat list"
  proof -
    have "map (\<lambda>_. 3) ds = replicate 11 (3::nat)" using that by (simp add: map_replicate_const)
    also have "\<dots> = [3,3,3,3,3,3,3,3,3,3,3]" by (simp add: numeral_eq_Suc)
    finally show ?thesis by simp
  qed
  have half: "unat (drop_bit 1 x AND 0xDB6DB6DB) = octal (map (\<lambda>d. d div 2) ds)"
    if "unat x = octal ds" "length ds = 11" "\<forall>d \<in> set ds. d < 8" for x :: u32 and ds
    using half_and_threes [OF that(3)]
    by (simp only: unsigned_and_eq unat_drop_bit_div that(1) threes [OF that(2)] power_one_right)
  have h: "unat y = ?h" unfolding y_def using m by (rule half) (simp_all add: digits8_props)
  have "unat (drop_bit 1 y AND 0xDB6DB6DB) = octal (map (\<lambda>d. d div 2) (map (\<lambda>d. d div 2) ?ds))"
    using h by (rule half) (use digits8_props [of 11 "unat m"] in \<open>auto intro: le_less_trans [OF div_le_dividend]\<close>)
  then have q: "unat (drop_bit 1 y AND 0xDB6DB6DB) = ?q" by (simp add: o_def div_mult2_eq [symmetric])
  have sum: "unat m = ?p + ?h + ?q" using m octal_split [of ?ds] by simp
  have "y \<le> m" using sum h by (simp add: word_le_nat_alt)
  then have r: "unat (m - y) = ?p + ?q" using sum h by (simp add: unat_sub)
  then have "drop_bit 1 y AND 0xDB6DB6DB \<le> m - y" using q by (simp add: word_le_nat_alt)
  then show ?thesis using r q by (simp add: unat_sub)
qed

lemma set_bits_word: "{i. bit m i} = set (filter (bit (unat m)) [0..<33])" for m :: u32
proof -
  have "i < 32" if "bit m i" for i using bit_imp_le_length [OF that] by simp
  then have "i < 33" if "bit m i" for i using that by fastforce
  then show ?thesis by (auto simp: bit_unsigned_iff)
qed

text \<open>
  C28: \<open>xcb_popcount\<close> returns the number of bits set in its argument, for every one of the
  \<open>2^32\<close> arguments: the masks, the subtraction without borrow and the casting out of 63 of
  the source compute what counting the bits one by one computes.
\<close>

theorem popcount_counts_bits: "xcb_popcount m = int (card {i. bit m i})"
proof -
  let ?ps = "map pop_digit (digits8 11 (unat m))"
  define r where "r = (let y = drop_bit 1 m AND 0xDB6DB6DB; y = m - y - (drop_bit 1 y AND 0xDB6DB6DB)
    in ((y + drop_bit 3 y) AND 0xC71C71C7) mod 63)"
  have le3: "\<forall>p \<in> set ?ps. p \<le> 3" using digits8_props(2) [of 11 "unat m"] by (auto simp: pop_digit_le)
  have r: "unat r = sum_list ?ps"
    unfolding r_def Let_def by (rule fold_digits [OF _ le3 digit_counts]) (simp add: digits8_props)
  have "sum_list ?ps = length (filter (bit (unat m)) [0..<33])"
    using count_bits_octal [of "unat m" 11] by (simp del: upt_rec_numeral)
  also have "\<dots> = card {i. bit m i}"
    unfolding set_bits_word by (rule distinct_card [symmetric]) simp
  finally have card: "unat r = card {i. bit m i}" using r by simp
  have "length (filter (bit (unat m)) [0..<33]) \<le> length [0..<33]" by (rule length_filter_le)
  then have "unat r < 64" using r count_bits_octal [of "unat m" 11] by (simp del: upt_rec_numeral)
  then have "sint r = int (unat r)" by (simp add: sint_small)
  then show ?thesis unfolding card by (simp add: xcb_popcount_def r_def Let_def)
qed

end
