(* ===== verification/XcbDisplay.thy ===== *)
theory XcbDisplay
  imports XcbTypes
begin

text \<open>
  Display names: \<open>_xcb_parse_display\<close> and \<open>xcb_parse_display\<close> of \<open>src/src/xcb_util.c\<close>, with the
  functions of the C library they use (\<open>strrchr\<close>, \<open>strtoul\<close>, the decimal conversions of
  \<open>snprintf\<close>). A C string is the list of its characters before the terminating NUL; strings
  are shorter than \<open>2^31\<close>.
\<close>

section \<open>Functions of the C library\<close>

text \<open>
  \<open>strrchr\<close>: the string before the last occurrence of a character and the one after it, or
  nothing when the character does not occur.
\<close>

fun strrchr :: "string \<Rightarrow> char \<Rightarrow> (string \<times> string) option" where
  "strrchr [] ch = None"
| "strrchr (x # xs) ch = (case strrchr xs ch of
     Some (pre, post) \<Rightarrow> Some (x # pre, post)
   | None \<Rightarrow> if x = ch then Some ([], xs) else None)"

definition isspace :: "char \<Rightarrow> bool" where
  "isspace ch \<longleftrightarrow> ch = CHR '' '' \<or> ch = CHR 0x09 \<or> ch = CHR 0x0A \<or> ch = CHR 0x0B \<or> ch = CHR 0x0C \<or> ch = CHR 0x0D"

definition digit_chars :: string where "digit_chars = ''0123456789''"

definition isdigit :: "char \<Rightarrow> bool" where "isdigit ch \<longleftrightarrow> ch \<in> set digit_chars"

definition digit_value :: "char \<Rightarrow> nat" where
  "digit_value ch = length (takeWhile (\<lambda>x. x \<noteq> ch) digit_chars)"

fun decimal :: "nat \<Rightarrow> string \<Rightarrow> nat" where
  "decimal acc [] = acc"
| "decimal acc (ch # cs) = decimal (10 * acc + digit_value ch) cs"

text \<open>
  \<open>strtoul(s, &end, 10)\<close>: the value and the string \<open>end\<close> points to, which is \<open>s\<close> itself when
  there is no number. White space and a sign may precede the digits; a minus sign negates the
  value modulo \<open>2^64\<close>; a value of \<open>2^64\<close> or more becomes \<open>ULONG_MAX\<close>.
\<close>

definition strtoul :: "string \<Rightarrow> u64 \<times> string" where
  "strtoul s =
    (let t = dropWhile isspace s;
         neg = (t \<noteq> [] \<and> hd t = CHR ''-'');
         u = (if t \<noteq> [] \<and> hd t \<in> {CHR ''-'', CHR ''+''} then tl t else t);
         v = decimal 0 (takeWhile isdigit u)
     in if takeWhile isdigit u = [] then (0, s)
        else (if v \<ge> 2 ^ 64 then - 1 else if neg then - of_nat v else of_nat v, dropWhile isdigit u))"

text \<open>The conversion of an \<open>unsigned long\<close> to an \<open>int\<close>.\<close>

definition ulong_to_int :: "u64 \<Rightarrow> int" where
  "ulong_to_int v = sint (ucast v :: u32)"

text \<open>The decimal digits of a number, as \<open>%d\<close> and \<open>%hu\<close> print them.\<close>

fun dec :: "nat \<Rightarrow> string" where
  "dec n = (if n < 10 then [digit_chars ! n] else dec (n div 10) @ [digit_chars ! (n mod 10)])"

declare dec.simps [simp del]

definition dec_int :: "int \<Rightarrow> string" where
  "dec_int i = (if i < 0 then CHR ''-'' # dec (nat (- i)) else dec (nat i))"

section \<open>Parsing\<close>

text \<open>
  The places the caller's pointers point to; \<open>host\<close> and \<open>protocol\<close> hold a null pointer or a
  string in memory the caller has to free.
\<close>

record display_out =
  host :: "string option"
  protocol :: "string option"
  displayp :: int
  screenp :: int

text \<open>
  The label \<open>error_out\<close>: give back the protocol string and return 0.
\<close>

definition parse_error_out :: "bool \<Rightarrow> display_out \<Rightarrow> bool \<times> display_out" where
  "parse_error_out want_protocol out = (False, if want_protocol then out\<lparr>protocol := None\<rparr> else out)"

text \<open>The number of the display and of the screen, from the text behind the colon.\<close>

definition parse_numbers :: "string \<Rightarrow> (int \<times> int) option" where
  "parse_numbers colon =
    (let (display, dot) = strtoul colon in
     if dot = colon then None
     else if dot = [] then Some (ulong_to_int display, 0)
     else if hd dot \<noteq> CHR ''.'' then None
     else let dot = tl dot; (screen, end_ptr) = strtoul dot in
       if end_ptr = dot \<or> end_ptr \<noteq> [] then None
       else Some (ulong_to_int display, ulong_to_int screen))"

text \<open>From the search for the colon on; \<open>name\<close> is what follows the last slash.\<close>

definition parse_host :: "bool \<Rightarrow> bool \<Rightarrow> string \<Rightarrow> display_out \<Rightarrow> os \<Rightarrow> (bool \<times> display_out) \<times> os" where
  "parse_host want_protocol want_screen name out w =
    (case strrchr name CHR '':'' of
       None \<Rightarrow> (parse_error_out want_protocol out, w)
     | Some (hst, colon) \<Rightarrow> (case parse_numbers colon of
         None \<Rightarrow> (parse_error_out want_protocol out, w)
       | Some (display, screen) \<Rightarrow>
           (let (ok, w) = malloc_ok w in
            if \<not> ok then (parse_error_out want_protocol (out\<lparr>host := None\<rparr>), w)
            else ((True, out\<lparr>host := Some hst, displayp := display,
                     screenp := if want_screen then screen else screenp out\<rparr>), w))))"

text \<open>
  \<open>_xcb_parse_display\<close>. \<open>env\<close> is the variable \<open>DISPLAY\<close> of the environment; \<open>want_protocol\<close> and
  \<open>want_screen\<close> say whether the pointers \<open>protocol\<close> and \<open>screenp\<close> are given.
\<close>

definition xcb_parse_display_full ::
    "bool \<Rightarrow> bool \<Rightarrow> string option \<Rightarrow> string option \<Rightarrow> display_out \<Rightarrow> os \<Rightarrow> (bool \<times> display_out) \<times> os" where
  "xcb_parse_display_full want_protocol want_screen env name out w =
    (case (if name = None \<or> name = Some [] then env else name) of
       None \<Rightarrow> ((False, out), w)
     | Some name \<Rightarrow> (case strrchr name CHR ''/'' of
         Some (proto, rest) \<Rightarrow>
           (if want_protocol
            then let (ok, w) = malloc_ok w in
              if \<not> ok then ((False, out\<lparr>protocol := None\<rparr>), w)
              else parse_host want_protocol want_screen rest (out\<lparr>protocol := Some proto\<rparr>) w
            else parse_host want_protocol want_screen rest out w)
       | None \<Rightarrow> parse_host want_protocol want_screen name
           (if want_protocol then out\<lparr>protocol := None\<rparr> else out) w))"

definition xcb_parse_display ::
    "bool \<Rightarrow> string option \<Rightarrow> string option \<Rightarrow> display_out \<Rightarrow> os \<Rightarrow> (bool \<times> display_out) \<times> os" where
  "xcb_parse_display want_screen env name out w = xcb_parse_display_full False want_screen env name out w"

section \<open>Lemmas\<close>

lemma strrchr_None: "strrchr s ch = None \<longleftrightarrow> ch \<notin> set s"
  by (induction s) (auto split: option.splits)

lemma strrchr_Some: "strrchr s ch = Some (pre, post) \<longleftrightarrow> s = pre @ ch # post \<and> ch \<notin> set post"
proof (induction s arbitrary: pre post)
  case (Cons x xs)
  show ?case
  proof (cases "strrchr xs ch")
    case None
    then have "ch \<notin> set xs" by (simp add: strrchr_None)
    with None show ?thesis by (auto simp: Cons_eq_append_conv)
  next
    case (Some pp)
    obtain p q where pq: "pp = (p, q)" by (cases pp)
    with Some Cons.IH [of p q] have "xs = p @ ch # q" "ch \<notin> set q" by auto
    with Some pq Cons.IH show ?thesis by (cases pre) (auto simp: append_eq_append_conv2 Cons_eq_append_conv)
  qed
qed simp

lemma digit_value_nth: "n < 10 \<Longrightarrow> digit_value (digit_chars ! n) = n \<and> isdigit (digit_chars ! n)"
proof -
  assume "n < 10"
  then have "n \<in> {0,1,2,3,4,5,6,7,8,9}" by auto
  then show ?thesis by (auto simp: digit_value_def isdigit_def digit_chars_def)
qed

lemma decimal_append: "decimal acc (xs @ ys) = decimal (decimal acc xs) ys"
  by (induction xs arbitrary: acc) auto

lemma decimal_dec: "decimal 0 (dec n) = n"
proof (induction n rule: dec.induct)
  case (1 n)
  then show ?case by (cases "n < 10") (simp_all add: dec.simps [of n] decimal_append digit_value_nth)
qed

lemma dec_props: "dec n \<noteq> [] \<and> (\<forall>ch \<in> set (dec n). isdigit ch)"
proof (induction n rule: dec.induct)
  case (1 n)
  then show ?case by (cases "n < 10") (simp_all add: dec.simps [of n] digit_value_nth)
qed

lemma dec_nonempty [simp]: "dec n \<noteq> []" "[] \<noteq> dec n"
  using dec_props [of n] by auto

lemma digit_not_space_or_sign: "isdigit ch \<Longrightarrow> \<not> isspace ch \<and> ch \<noteq> CHR ''-'' \<and> ch \<noteq> CHR ''+'' \<and> ch \<noteq> CHR ''/'' \<and> ch \<noteq> CHR '':'' \<and> ch \<noteq> CHR ''.''"
  by (auto simp: isdigit_def digit_chars_def isspace_def)

lemma dec_chars: "ch \<in> {CHR ''/'', CHR '':'', CHR ''.''} \<Longrightarrow> ch \<notin> set (dec n)"
  using dec_props [of n] digit_not_space_or_sign by blast

lemma strtoul_dec:
  assumes "n < 2 ^ 64" and "r = [] \<or> \<not> isdigit (hd r)"
  shows "strtoul (dec n @ r) = (of_nat n, r)"
proof -
  obtain x xs where d: "dec n = x # xs" using dec_props [of n] by (cases "dec n") auto
  then have x: "isdigit x" using dec_props [of n] by simp
  have take: "takeWhile isdigit (dec n @ r) = dec n" and drop: "dropWhile isdigit (dec n @ r) = r"
    using assms(2) dec_props [of n] by (cases r; simp add: takeWhile_append2 dropWhile_append2)+
  have "dropWhile isspace (dec n @ r) = dec n @ r" "hd (dec n @ r) \<notin> {CHR ''-'', CHR ''+''}"
    using d digit_not_space_or_sign [OF x] by simp_all
  with take drop assms(1) dec_props [of n] decimal_dec [of n] show ?thesis
    by (simp add: strtoul_def Let_def)
qed

lemma ulong_to_int_small: "n < 2 ^ 31 \<Longrightarrow> ulong_to_int (of_nat n) = int n"
  by (simp add: ulong_to_int_def sint_small unat_of_nat unsigned_ucast_eq take_bit_eq_mod)

text \<open>How a display is written: an optional protocol, the host, the display and optionally the screen.\<close>

definition print_display :: "string option \<Rightarrow> string \<Rightarrow> nat \<Rightarrow> nat option \<Rightarrow> string" where
  "print_display proto hst d s = (case proto of None \<Rightarrow> [] | Some p \<Rightarrow> p @ ''/'') @ hst @ '':'' @ dec d
     @ (case s of None \<Rightarrow> [] | Some s \<Rightarrow> ''.'' @ dec s)"

lemma parse_numbers_print:
  assumes "d < 2 ^ 31" and "\<And>n. s = Some n \<Longrightarrow> n < 2 ^ 31"
  shows "parse_numbers (dec d @ (case s of None \<Rightarrow> [] | Some s \<Rightarrow> ''.'' @ dec s))
    = Some (int d, case s of None \<Rightarrow> 0 | Some s \<Rightarrow> int s)"
proof (cases s)
  case None
  then show ?thesis using strtoul_dec [of d "[]"] assms dec_props [of d]
    by (auto simp: parse_numbers_def ulong_to_int_small)
next
  case (Some n)
  then have n: "n < 2 ^ 31" by (rule assms(2))
  have "strtoul (dec d @ CHR ''.'' # dec n) = (of_nat d, CHR ''.'' # dec n)"
    using assms(1) by (intro strtoul_dec) (auto simp: isdigit_def digit_chars_def)
  moreover have "strtoul (dec n) = (of_nat n, [])" using strtoul_dec [of n "[]"] n by simp
  ultimately show ?thesis using Some assms(1) n dec_props [of d] dec_props [of n]
    by (simp add: parse_numbers_def ulong_to_int_small)
qed

lemma colon_split:
  "CHR '':'' \<notin> set (dec d @ (case s of None \<Rightarrow> [] | Some s \<Rightarrow> ''.'' @ dec s))"
  "CHR ''/'' \<notin> set (dec d @ (case s of None \<Rightarrow> [] | Some s \<Rightarrow> ''.'' @ dec s))"
  using dec_chars by (auto split: option.splits)

text \<open>
  C26: Every display name that is written as a host without a slash (which may contain colons, as
  IPv6 addresses and DECnet names do), a colon, a display number, an optional screen number and
  an optional protocol in front, parses to exactly these parts; a missing screen is screen 0.
\<close>

theorem parse_display_roundtrip:
  assumes "CHR ''/'' \<notin> set hst" and "d < 2 ^ 31" and "\<And>n. s = Some n \<Longrightarrow> n < 2 ^ 31" and "os_mallocs w = []"
  shows "xcb_parse_display_full True True env (Some (print_display proto hst d s)) out w =
    ((True, \<lparr>host = Some hst, protocol = proto, displayp = int d,
       screenp = (case s of None \<Rightarrow> 0 | Some n \<Rightarrow> int n)\<rparr>), w)"
proof -
  let ?num = "dec d @ (case s of None \<Rightarrow> [] | Some s \<Rightarrow> ''.'' @ dec s)"
  have rest: "strrchr (hst @ CHR '':'' # ?num) CHR '':'' = Some (hst, ?num)"
    unfolding strrchr_Some using colon_split(1) by blast
  have tail: "parse_host True True (hst @ CHR '':'' # ?num) o1 w
      = ((True, o1\<lparr>host := Some hst, displayp := int d, screenp := (case s of None \<Rightarrow> 0 | Some n \<Rightarrow> int n)\<rparr>), w)" for o1
    using parse_numbers_print [OF assms(2,3)]
    by (simp only: parse_host_def rest option.case prod.case malloc_none [OF assms(4)] Let_def) simp
  have ne: "print_display proto hst d s \<noteq> []" by (simp add: print_display_def)
  have noslash: "CHR ''/'' \<notin> set (hst @ CHR '':'' # ?num)" using assms(1) colon_split(2) by auto
  show ?thesis
  proof (cases proto)
    case None
    then have pd: "print_display proto hst d s = hst @ CHR '':'' # ?num" by (simp add: print_display_def)
    have "strrchr (hst @ CHR '':'' # ?num) CHR ''/'' = None" using noslash by (simp only: strrchr_None) simp
    then show ?thesis using None ne pd tail by (simp add: xcb_parse_display_full_def)
  next
    case (Some p)
    then have pd: "print_display proto hst d s = p @ CHR ''/'' # hst @ CHR '':'' # ?num" by (simp add: print_display_def)
    have "strrchr (p @ CHR ''/'' # hst @ CHR '':'' # ?num) CHR ''/'' = Some (p, hst @ CHR '':'' # ?num)"
      unfolding strrchr_Some using noslash by blast
    then show ?thesis using Some ne pd tail assms(4) by (simp add: xcb_parse_display_full_def malloc_none)
  qed
qed

theorem parse_display_roundtrip_witness:
  "xcb_parse_display_full True True None (Some ''tcp/::1:10.2'') \<lparr>host = None, protocol = None, displayp = - 42, screenp = - 42\<rparr> quiet_os =
    ((True, \<lparr>host = Some ''::1'', protocol = Some ''tcp'', displayp = 10, screenp = 2\<rparr>), quiet_os)"
proof -
  have "print_display (Some ''tcp'') ''::1'' 10 (Some 2) = ''tcp/::1:10.2''"
    by (simp add: print_display_def dec.simps digit_chars_def)
  with parse_display_roundtrip [of "''::1''" 10 "Some 2" quiet_os None "Some ''tcp''"] show ?thesis
    by (simp add: quiet_os_def)
qed

lemma parse_host_failure:
  assumes "parse_host False want_screen name out w = ((False, out'), w')"
  shows "out' = out \<or> out' = out\<lparr>host := None\<rparr> \<and> (\<exists>bs. os_mallocs w = False # bs)"
  using assms by (auto simp: parse_host_def parse_error_out_def malloc_ok_def Let_def split: option.splits list.splits if_splits)

text \<open>
  A failing \<open>xcb_parse_display\<close> leaves the host, the display number and the screen number of its
  caller alone. The only exception is a failed allocation: the host pointer is then set to null.
\<close>

theorem parse_display_failure_atomic:
  assumes "xcb_parse_display want_screen env name out w = ((False, out'), w')"
  shows "out' = out \<or> out' = out\<lparr>host := None\<rparr> \<and> (\<exists>bs. os_mallocs w = False # bs)"
  using assms by (auto simp: xcb_parse_display_def xcb_parse_display_full_def split: option.splits
      dest!: parse_host_failure)

theorem parse_display_failure_atomic_witness:
  "\<exists>out' w'. xcb_parse_display True None (Some '':0.'') \<lparr>host = Some ''h'', protocol = None, displayp = 7, screenp = 8\<rparr> quiet_os
     = ((False, out'), w') \<and> out' = \<lparr>host = Some ''h'', protocol = None, displayp = 7, screenp = 8\<rparr>"
proof -
  let ?out = "\<lparr>host = Some ''h'', protocol = None, displayp = 7, screenp = 8\<rparr>"
  have "parse_numbers ''0.'' = None"
    by (simp add: parse_numbers_def strtoul_def isspace_def isdigit_def digit_chars_def Let_def)
  then have "xcb_parse_display True None (Some '':0.'') ?out quiet_os = ((False, ?out), quiet_os)"
    by (simp add: xcb_parse_display_def xcb_parse_display_full_def parse_host_def parse_error_out_def)
  from parse_display_failure_atomic [OF this] this show ?thesis by (auto simp: quiet_os_def)
qed

text \<open>
  A failed allocation of the host string has a side effect: for the display name \<open>:0\<close>
  \<open>xcb_parse_display\<close> then returns failure and has overwritten the host pointer of the caller
  with null.
\<close>

theorem parse_display_oom_overwrites_host:
  "xcb_parse_display True env (Some '':0'') out (quiet_os\<lparr>os_mallocs := [False]\<rparr>) =
     ((False, out\<lparr>host := None\<rparr>), quiet_os)"
proof -
  have "parse_numbers ''0'' = Some (0, 0)"
    by (simp add: parse_numbers_def strtoul_def isspace_def isdigit_def digit_chars_def digit_value_def ulong_to_int_def Let_def)
  then show ?thesis
    by (simp add: xcb_parse_display_def xcb_parse_display_full_def parse_host_def parse_error_out_def malloc_ok_def
        quiet_os_def)
qed

lemma ulong_to_int_wrap: "ulong_to_int (of_nat (n + 2 ^ 32)) = ulong_to_int (of_nat n)"
proof -
  have low: "unat (ucast (of_nat k :: u64) :: u32) = k mod 2 ^ 32" for k
    by (simp add: unsigned_ucast_eq take_bit_eq_mod unat_of_nat mod_mod_cancel)
  have "(ucast (of_nat (n + 2 ^ 32) :: u64) :: u32) = ucast (of_nat n :: u64)"
    unfolding word_unat_eq_iff low by simp
  then show ?thesis by (simp only: ulong_to_int_def)
qed

text \<open>
  Display numbers are truncated to 32 bits without notice: a name with display number
  \<open>2^32 + d\<close> is accepted and means display \<open>d\<close>.
\<close>

theorem display_number_wraps:
  assumes "CHR ''/'' \<notin> set hst" and "d < 2 ^ 31" and "os_mallocs w = []"
  shows "xcb_parse_display True env (Some (print_display None hst (d + 2 ^ 32) None)) out w =
    xcb_parse_display True env (Some (print_display None hst d None)) out w"
proof -
  have num: "parse_numbers (dec n) = Some (ulong_to_int (of_nat n), 0)" if "n < 2 ^ 64" for n
    using strtoul_dec [of n "[]"] that dec_props [of n] by (auto simp: parse_numbers_def)
  have parse: "xcb_parse_display True env (Some (print_display None hst n None)) out w =
      ((True, out\<lparr>host := Some hst, displayp := ulong_to_int (of_nat n), screenp := 0\<rparr>), w)" if "n < 2 ^ 64" for n
  proof -
    have "strrchr (hst @ CHR '':'' # dec n) CHR ''/'' = None"
      using assms(1) dec_chars [of "CHR ''/''" n] by (simp only: strrchr_None) simp
    moreover have "strrchr (hst @ CHR '':'' # dec n) CHR '':'' = Some (hst, dec n)"
      using dec_chars [of "CHR '':''" n] by (simp only: strrchr_Some) simp
    ultimately show ?thesis using num [OF that] assms(3)
      by (simp add: xcb_parse_display_def xcb_parse_display_full_def print_display_def parse_host_def malloc_none)
  qed
  have "d + 2 ^ 32 < 2 ^ 64" "d < 2 ^ 64" using assms(2) by simp_all
  then show ?thesis by (simp only: parse ulong_to_int_wrap)
qed

theorem display_number_wraps_witness:
  "xcb_parse_display True None (Some '':4294967297'') \<lparr>host = None, protocol = None, displayp = 0, screenp = 0\<rparr> quiet_os =
   xcb_parse_display True None (Some '':1'') \<lparr>host = None, protocol = None, displayp = 0, screenp = 0\<rparr> quiet_os"
proof -
  have "print_display None [] (1 + 2 ^ 32) None = '':4294967297''" "print_display None [] 1 None = '':1''"
    by (simp_all add: print_display_def dec.simps digit_chars_def)
  with display_number_wraps [of "[]" 1 quiet_os None] show ?thesis by (simp add: quiet_os_def)
qed

end
