(* ===== verification/XcbOpen.thy ===== *)
theory XcbOpen
  imports XcbDisplay
begin

text \<open>
  Opening the socket of a display: \<open>_xcb_open\<close>, \<open>_xcb_socket\<close>, \<open>_xcb_open_tcp\<close>, \<open>_xcb_open_unix\<close>
  and \<open>_xcb_open_abstract\<close> of \<open>src/src/xcb_util.c\<close>, as they are compiled on a system that has
  abstract sockets, \<open>SOCK_CLOEXEC\<close> and IPv6, without DECnet and launchd.

  The file descriptors of the process are a state of their own: what the next calls of
  \<open>socket\<close>, \<open>connect\<close> and \<open>fcntl\<close> return, \<open>errno\<close>, the open descriptors and the calls made so
  far. A copy into a buffer that is too small has no defined result (\<open>None\<close>).
  The port of a TCP display is the sum of two \<open>int\<close> stored in 16 bits; it is taken modulo \<open>2 ^ 16\<close>, also for
  displays above \<open>2 ^ 31 - 6001\<close>, where the addition of the code overflows.
\<close>

section \<open>File descriptors\<close>

definition AF_UNIX :: int where "AF_UNIX = 1"
definition AF_INET :: int where "AF_INET = 2"
definition AF_INET6 :: int where "AF_INET6 = 10"
definition AF_UNSPEC :: int where "AF_UNSPEC = 0"
definition SOCK_STREAM :: int where "SOCK_STREAM = 1"
definition SOCK_CLOEXEC :: int where "SOCK_CLOEXEC = 524288"
definition AI_ADDRCONFIG :: int where "AI_ADDRCONFIG = 32"
definition AI_NUMERICSERV :: int where "AI_NUMERICSERV = 1024"
definition AI_NUMERICHOST :: int where "AI_NUMERICHOST = 4"
definition ENOENT :: int where "ENOENT = 2"
definition EINVAL :: int where "EINVAL = 22"
definition EMFILE :: int where "EMFILE = 24"
definition ECONNREFUSED :: int where "ECONNREFUSED = 111"

lemmas sys_consts = AF_UNIX_def AF_INET_def AF_INET6_def AF_UNSPEC_def SOCK_STREAM_def SOCK_CLOEXEC_def
  AI_ADDRCONFIG_def AI_NUMERICSERV_def AI_NUMERICHOST_def ENOENT_def EINVAL_def EMFILE_def ECONNREFUSED_def

datatype socket_result = SockFd nat | SockErr int

datatype connect_result = ConnOk | ConnErr int

text \<open>
  Where a socket is connected to: an address the resolver returned, a path in the file system,
  or an abstract name (the bytes after the leading NUL that count for the address).
\<close>

datatype sockaddr = Resolved nat | Unix_path string | Abstract_name string

datatype fcntl_op = F_GETFL | F_SETFL int | F_SETFD_CLOEXEC

datatype sockopt = TCP_NODELAY | SO_KEEPALIVE

datatype sys_call =
    Sys_socket int int int
  | Sys_connect int sockaddr
  | Sys_fcntl int fcntl_op
  | Sys_setsockopt int sockopt
  | Sys_shutdown int
  | Sys_close int
  | Sys_stderr "byte list"

record sys =
  sys_sockets :: "socket_result list"
  sys_connects :: "connect_result list"
  sys_fcntls :: "int list"
  sys_errno :: int
  sys_open :: "int list"
  sys_log :: "sys_call list"

definition log_call :: "sys_call \<Rightarrow> sys \<Rightarrow> sys" where
  "log_call k s = s\<lparr>sys_log := sys_log s @ [k]\<rparr>"

definition socket :: "int \<Rightarrow> int \<Rightarrow> int \<Rightarrow> sys \<Rightarrow> int \<times> sys" where
  "socket family ty proto s =
    (let s = log_call (Sys_socket family ty proto) s in
     case sys_sockets s of
       SockFd n # rs \<Rightarrow> (int n, s\<lparr>sys_sockets := rs, sys_open := int n # sys_open s\<rparr>)
     | SockErr e # rs \<Rightarrow> (- 1, s\<lparr>sys_sockets := rs, sys_errno := e\<rparr>)
     | [] \<Rightarrow> (- 1, s\<lparr>sys_errno := EMFILE\<rparr>))"

definition connect :: "int \<Rightarrow> sockaddr \<Rightarrow> sys \<Rightarrow> int \<times> sys" where
  "connect sfd addr s =
    (let s = log_call (Sys_connect sfd addr) s in
     case sys_connects s of
       ConnOk # rs \<Rightarrow> (0, s\<lparr>sys_connects := rs\<rparr>)
     | ConnErr e # rs \<Rightarrow> (- 1, s\<lparr>sys_connects := rs, sys_errno := e\<rparr>)
     | [] \<Rightarrow> (- 1, s\<lparr>sys_errno := ECONNREFUSED\<rparr>))"

definition fcntl :: "int \<Rightarrow> fcntl_op \<Rightarrow> sys \<Rightarrow> int \<times> sys" where
  "fcntl sfd opn s =
    (let s = log_call (Sys_fcntl sfd opn) s in
     case sys_fcntls s of [] \<Rightarrow> (0, s) | r # rs \<Rightarrow> (r, s\<lparr>sys_fcntls := rs\<rparr>))"

definition sys_close :: "int \<Rightarrow> sys \<Rightarrow> sys" where
  "sys_close sfd s = (log_call (Sys_close sfd) s)\<lparr>sys_open := remove1 sfd (sys_open s)\<rparr>"

text \<open>\<open>strcpy\<close> into the \<open>room\<close> bytes behind a pointer: the text and its NUL have to fit.\<close>

definition strcpy_fits :: "nat \<Rightarrow> string \<Rightarrow> bool" where
  "strcpy_fits room file \<longleftrightarrow> length file < room"

definition SUN_PATH_SIZE :: nat where "SUN_PATH_SIZE = 108"

section \<open>The functions of xcb_util.c\<close>

definition X_TCP_PORT :: int where "X_TCP_PORT = 6000"

definition xcb_socket :: "int \<Rightarrow> int \<Rightarrow> int \<Rightarrow> sys \<Rightarrow> int \<times> sys" where
  "xcb_socket family ty proto s =
    (let (sfd, s) = socket family (ty OR SOCK_CLOEXEC) proto s in
     if sfd = - 1 \<and> sys_errno s = EINVAL then
       let (sfd, s) = socket family ty proto s
       in if sfd \<ge> 0 then (sfd, snd (fcntl sfd F_SETFD_CLOEXEC s)) else (sfd, s)
     else (sfd, s))"

text \<open>The members of \<open>struct addrinfo\<close>; \<open>ai_addr\<close> stands for the address and its length.\<close>

record addrinfo =
  ai_family :: int
  ai_socktype :: int
  ai_protocol :: int
  ai_addr :: nat

record addrinfo_hints =
  hint_flags :: int
  hint_family :: int
  hint_socktype :: int

text \<open>
  The resolver \<open>getaddrinfo\<close> is a parameter: from the hst, the service and the hints to the
  list of addresses, or nothing when it fails.
\<close>

type_synonym resolver = "string \<Rightarrow> string \<Rightarrow> addrinfo_hints \<Rightarrow> addrinfo list option"

fun tcp_loop :: "addrinfo list \<Rightarrow> int \<Rightarrow> sys \<Rightarrow> int \<times> sys" where
  "tcp_loop [] sfd s = (sfd, s)"
| "tcp_loop (addr # rest) _ s =
    (let (sfd, s) = xcb_socket (ai_family addr) (ai_socktype addr) (ai_protocol addr) s in
     if sfd \<ge> 0 then
       let s = log_call (Sys_setsockopt sfd TCP_NODELAY) s;
           s = log_call (Sys_setsockopt sfd SO_KEEPALIVE) s;
           (r, s) = connect sfd (Resolved (ai_addr addr)) s
       in if r \<ge> 0 then (sfd, s) else tcp_loop rest (- 1) (sys_close sfd s)
     else tcp_loop rest sfd s)"

definition tcp_hints :: "int \<Rightarrow> int \<Rightarrow> addrinfo_hints" where
  "tcp_hints flags family = \<lparr>hint_flags = flags, hint_family = family, hint_socktype = SOCK_STREAM\<rparr>"

text \<open>An IPv6 address in brackets loses them and makes the resolver expect such an address.\<close>

definition tcp_target :: "string \<Rightarrow> string \<times> addrinfo_hints" where
  "tcp_target hst =
    (let hst = (if hst = [] then ''localhost'' else hst);
         flags = AI_ADDRCONFIG OR AI_NUMERICSERV
     in case strrchr hst CHR '']'' of
          Some (pre, []) \<Rightarrow> if hd hst = CHR ''['' then (tl pre, tcp_hints (flags OR AI_NUMERICHOST) AF_INET6)
                            else (hst, tcp_hints flags AF_UNSPEC)
        | _ \<Rightarrow> (hst, tcp_hints flags AF_UNSPEC))"

definition xcb_open_tcp :: "resolver \<Rightarrow> string \<Rightarrow> string option \<Rightarrow> u16 \<Rightarrow> sys \<Rightarrow> int \<times> sys" where
  "xcb_open_tcp getaddrinfo hst prot port s =
    (if prot \<notin> {None, Some ''tcp'', Some ''inet'', Some ''inet6''} then (- 1, s)
     else
       let (hst, hints) = tcp_target hst;
           service = take 5 (dec (unat port))
       in case getaddrinfo hst service hints of
            None \<Rightarrow> (- 1, s)
          | Some results \<Rightarrow> tcp_loop results (- 1) s)"

text \<open>A stream socket in the Unix domain, connected to an address or closed again.\<close>

definition unix_connect :: "sockaddr \<Rightarrow> sys \<Rightarrow> int \<times> sys" where
  "unix_connect addr s =
    (let (sfd, s) = xcb_socket AF_UNIX SOCK_STREAM 0 s in
     if sfd = - 1 then (- 1, s)
     else let (r, s) = connect sfd addr s in if r = - 1 then (- 1, sys_close sfd s) else (sfd, s))"

definition xcb_open_unix :: "string option \<Rightarrow> string \<Rightarrow> sys \<Rightarrow> (int \<times> sys) option" where
  "xcb_open_unix prot file s =
    (if prot \<notin> {None, Some ''unix''} then Some (- 1, s)
     else if \<not> strcpy_fits SUN_PATH_SIZE file then None
     else Some (unix_connect (Unix_path file) s))"

definition xcb_open_abstract :: "string option \<Rightarrow> string \<Rightarrow> nat \<Rightarrow> sys \<Rightarrow> (int \<times> sys) option" where
  "xcb_open_abstract prot file filelen s =
    (if prot \<notin> {None, Some ''unix''} then Some (- 1, s)
     else if \<not> strcpy_fits (SUN_PATH_SIZE - 1) file then None
     else Some (unix_connect (Abstract_name (take filelen file)) s))"

definition unix_base :: string where "unix_base = ''/tmp/.X11-unix/X''"

text \<open>The part of \<open>_xcb_open\<close> for a local display.\<close>

definition open_local :: "string option \<Rightarrow> int \<Rightarrow> os \<Rightarrow> sys \<Rightarrow> (int \<times> os \<times> sys) option" where
  "open_local prot display w s =
    (let filelen = length unix_base + 1 + 4 * 3 + 1;
         (ok, w) = malloc_ok w
     in if \<not> ok then Some (- 1, w, s)
        else
          let text = unix_base @ dec_int display;
              file = take (filelen - 1) text;
              filelen = min (length text) (filelen - 1)
          in do {
            (sfd, s) \<leftarrow> xcb_open_abstract prot file filelen s;
            if sfd \<ge> 0 \<or> (sys_errno s \<noteq> ENOENT \<and> sys_errno s \<noteq> ECONNREFUSED) then Some (sfd, w, s)
            else do { (sfd, s) \<leftarrow> xcb_open_unix prot file s; Some (sfd, w, s) }
          })"

definition xcb_open :: "resolver \<Rightarrow> string \<Rightarrow> string option \<Rightarrow> int \<Rightarrow> os \<Rightarrow> sys \<Rightarrow> (int \<times> os \<times> sys) option" where
  "xcb_open getaddrinfo hst prot display w s =
    (if (hst \<noteq> [] \<or> prot \<noteq> None) \<and> (prot \<noteq> None \<or> hst \<noteq> ''unix'')
     then let (sfd, s) = xcb_open_tcp getaddrinfo hst prot (word_of_int (X_TCP_PORT + display)) s
          in Some (sfd, w, s)
     else open_local prot display w s)"

section \<open>Descriptors are not lost\<close>

text \<open>
  What a function that opens a descriptor promises: it fails and leaves the open descriptors as
  they were, or it returns one more open descriptor.
\<close>

definition opened :: "sys \<Rightarrow> int \<times> sys \<Rightarrow> bool" where
  "opened s r \<longleftrightarrow> (fst r = - 1 \<and> sys_open (snd r) = sys_open s)
     \<or> (fst r \<ge> 0 \<and> sys_open (snd r) = fst r # sys_open s)"

locale opener =
  fixes open_fd :: "sys \<Rightarrow> int \<times> sys"
  assumes opens: "opened s (open_fd s)"
begin

text \<open>Connecting what has been opened, and closing it again when that fails, keeps the promise.\<close>

lemma connect_or_close:
  assumes "\<And>s. sys_open (pre s) = sys_open s"
  shows "opened s (let (f, s) = open_fd s in
     if f = - 1 then (- 1, s)
     else let (r, s) = connect f addr (pre s) in if r = - 1 then (- 1, sys_close f s) else (f, s))"
  using opens [of s] assms
  by (auto simp: opened_def connect_def sys_close_def log_call_def Let_def
      split: prod.splits list.splits connect_result.splits)

end

lemma log_call_open [simp]: "sys_open (log_call k s) = sys_open s" "sys_errno (log_call k s) = sys_errno s"
  "sys_sockets (log_call k s) = sys_sockets s" "sys_connects (log_call k s) = sys_connects s"
  by (simp_all add: log_call_def)

lemma fcntl_open [simp]: "sys_open (snd (fcntl f k s)) = sys_open s"
  by (simp add: fcntl_def Let_def split: list.splits)

lemma socket_opened: "opened s (socket family ty proto s)"
  by (auto simp: opened_def socket_def Let_def split: list.splits socket_result.splits)

interpretation xsock: opener "xcb_socket family ty proto"
proof
  fix s
  obtain f1 s1 where 1: "socket family (ty OR SOCK_CLOEXEC) proto s = (f1, s1)" by (metis surj_pair)
  obtain f2 s2 where 2: "socket family ty proto s1 = (f2, s2)" by (metis surj_pair)
  show "opened s (xcb_socket family ty proto s)"
    using socket_opened [of s family "ty OR SOCK_CLOEXEC" proto] socket_opened [of s1 family ty proto]
    by (auto simp: xcb_socket_def 1 2 opened_def)
qed

lemma unix_connect_opened: "opened s (unix_connect addr s)"
  unfolding unix_connect_def by (rule xsock.connect_or_close [of "\<lambda>s. s"]) simp

lemma tcp_loop_opened: "f = - 1 \<Longrightarrow> opened s (tcp_loop addrs f s)"
proof (induction addrs arbitrary: f s)
  case (Cons addr rest)
  obtain f1 s1 where 1: "xcb_socket (ai_family addr) (ai_socktype addr) (ai_protocol addr) s = (f1, s1)" by (metis surj_pair)
  have op: "opened s (f1, s1)" using xsock.opens [of s "ai_family addr" "ai_socktype addr" "ai_protocol addr"] by (simp add: 1)
  let ?s1 = "log_call (Sys_setsockopt f1 SO_KEEPALIVE) (log_call (Sys_setsockopt f1 TCP_NODELAY) s1)"
  obtain r s2 where 2: "connect f1 (Resolved (ai_addr addr)) ?s1 = (r, s2)" by (metis surj_pair)
  have s2: "sys_open s2 = sys_open s1" using 2
    by (auto simp: connect_def Let_def split: list.splits connect_result.splits)
  show ?case
  proof (cases "f1 \<ge> 0 \<and> r < 0")
    case True
    then have "opened (sys_close f1 s2) (tcp_loop rest (- 1) (sys_close f1 s2))" by (intro Cons.IH) simp
    with True op 1 2 s2 show ?thesis by (simp add: opened_def sys_close_def)
  next
    case False
    with op 1 2 s2 Cons.IH [of f1 s1] show ?thesis by (auto simp: opened_def)
  qed
qed (simp add: opened_def)

lemma dec_length: "n < 10 ^ Suc k \<Longrightarrow> length (dec n) \<le> Suc k"
proof (induction k arbitrary: n)
  case (Suc k)
  then have "n div 10 < 10 ^ Suc k" by (simp add: less_mult_imp_div_less mult.commute)
  from Suc.IH [OF this] show ?case by (cases "n < 10") (simp_all add: dec.simps [of n])
qed (simp add: dec.simps)

lemma dec_int_length: "- (2 ^ 31) \<le> d \<Longrightarrow> d < 2 ^ 31 \<Longrightarrow> length (dec_int d) \<le> 11"
proof -
  assume d: "- (2 ^ 31) \<le> d" "d < 2 ^ 31"
  then have "nat d < 10 ^ Suc 9" "nat (- d) < 10 ^ Suc 9" by simp_all
  then have "length (dec (nat d)) \<le> 10" "length (dec (nat (- d))) \<le> 10"
    using dec_length [of "nat d" 9] dec_length [of "nat (- d)" 9] by simp_all
  then show ?thesis by (simp add: dec_int_def)
qed

lemma local_path_short:
  assumes "- (2 ^ 31) \<le> d" and "d < 2 ^ 31"
  shows "length (unix_base @ dec_int d) \<le> 27"
  using dec_int_length [OF assms] by (simp add: unix_base_def)

lemma opened_failure: "opened s (- 1, s)"
  by (simp add: opened_def)

lemma open_tcp_opened: "opened s (xcb_open_tcp getaddrinfo hst prot p s)"
  using tcp_loop_opened [of "- 1" s] opened_failure [of s]
  by (auto simp: xcb_open_tcp_def split: prod.splits option.splits)

lemma open_unix_opened: "strcpy_fits SUN_PATH_SIZE file \<Longrightarrow> \<exists>r. xcb_open_unix prot file s = Some r \<and> opened s r"
  using unix_connect_opened [of s "Unix_path file"] opened_failure [of s]
  by (cases "prot \<in> {None, Some ''unix''}") (auto simp: xcb_open_unix_def simp del: split_paired_Ex)

lemma open_abstract_opened:
  "strcpy_fits (SUN_PATH_SIZE - 1) file \<Longrightarrow> \<exists>r. xcb_open_abstract prot file n s = Some r \<and> opened s r"
  using unix_connect_opened [of s "Abstract_name (take n file)"] opened_failure [of s]
  by (cases "prot \<in> {None, Some ''unix''}") (auto simp: xcb_open_abstract_def simp del: split_paired_Ex)

lemma open_local_unfold:
  fixes display :: int
  defines "pth \<equiv> unix_base @ dec_int display"
  assumes "- (2 ^ 31) \<le> display" and "display < 2 ^ 31" and "malloc_ok w = (True, w1)"
  shows "open_local prot display w s = do {
      (f, s) \<leftarrow> xcb_open_abstract prot pth (length pth) s;
      if f \<ge> 0 \<or> (sys_errno s \<noteq> ENOENT \<and> sys_errno s \<noteq> ECONNREFUSED) then Some (f, w1, s)
      else do { (f, s) \<leftarrow> xcb_open_unix prot pth s; Some (f, w1, s) }
    }"
    and "strcpy_fits SUN_PATH_SIZE pth" and "strcpy_fits (SUN_PATH_SIZE - 1) pth"
proof -
  have short: "length pth \<le> 27" unfolding pth_def by (rule local_path_short [OF assms(2,3)])
  have len: "length unix_base + 1 + 4 * 3 + 1 - 1 = 29" by (simp add: unix_base_def)
  have pth: "take 29 pth = pth" "min (length pth) 29 = length pth" using short by simp_all
  show "open_local prot display w s = do {
      (f, s) \<leftarrow> xcb_open_abstract prot pth (length pth) s;
      if f \<ge> 0 \<or> (sys_errno s \<noteq> ENOENT \<and> sys_errno s \<noteq> ECONNREFUSED) then Some (f, w1, s)
      else do { (f, s) \<leftarrow> xcb_open_unix prot pth s; Some (f, w1, s) }
    }"
    unfolding open_local_def Let_def assms(4) len pth pth_def [symmetric] by simp
  show "strcpy_fits SUN_PATH_SIZE pth" "strcpy_fits (SUN_PATH_SIZE - 1) pth"
    using short by (simp_all add: strcpy_fits_def SUN_PATH_SIZE_def)
qed

lemma open_local_opened:
  assumes "- (2 ^ 31) \<le> display" and "display < 2 ^ 31"
  shows "\<exists>f w' s'. open_local prot display w s = Some (f, w', s') \<and> opened s (f, s')"
proof (cases "malloc_ok w")
  case (Pair ok w1)
  show ?thesis
  proof (cases ok)
    case True
    with Pair have ok: "malloc_ok w = (True, w1)" by simp
    note unfold = open_local_unfold [OF assms ok]
    define pth where "pth = unix_base @ dec_int display"
    obtain f1 s1 where 1: "xcb_open_abstract prot pth (length pth) s = Some (f1, s1)" "opened s (f1, s1)"
      unfolding pth_def using open_abstract_opened [OF unfold(3)] by (metis surj_pair)
    obtain f2 s2 where 2: "xcb_open_unix prot pth s1 = Some (f2, s2)" "opened s1 (f2, s2)"
      unfolding pth_def using open_unix_opened [OF unfold(2)] by (metis surj_pair)
    show ?thesis unfolding unfold(1) pth_def [symmetric] using 1 2 by (auto simp: opened_def)
  qed (simp add: open_local_def Pair opened_def)
qed

lemma open_opened:
  assumes "- (2 ^ 31) \<le> display" and "display < 2 ^ 31"
  shows "\<exists>f w' s'. xcb_open getaddrinfo hst prot display w s = Some (f, w', s') \<and> opened s (f, s')"
  using open_local_opened [OF assms, of prot w s]
    open_tcp_opened [of s getaddrinfo hst prot "word_of_int (X_TCP_PORT + display)"]
  by (auto simp: xcb_open_def simp del: of_int_add split: prod.splits)


text \<open>A system without open descriptors in which sockets can be made and connected as listed.\<close>

definition sample_sys :: "socket_result list \<Rightarrow> connect_result list \<Rightarrow> sys" where
  "sample_sys socks conns = \<lparr>sys_sockets = socks, sys_connects = conns, sys_fcntls = [], sys_errno = 0,
     sys_open = [], sys_log = []\<rparr>"


section \<open>What is connected to what\<close>

text \<open>
  A local display is reached through the abstract socket named after it, and through the
  socket in the file system only when the abstract one does not exist or refuses. This is the
  whole sequence of system calls when sockets can be created: the abstract name and the path
  are both the base name followed by the display number in full.
\<close>

theorem local_display_calls:
  assumes "hst = [] \<or> hst = ''unix''" and "- (2 ^ 31) \<le> display" and "display < 2 ^ 31" and "os_mallocs w = []"
    and "sys_sockets s = SockFd m # SockFd n # ss" and "sys_connects s = ConnErr e # ConnOk # cs"
    and "e = ENOENT \<or> e = ECONNREFUSED"
  shows "\<exists>s'. xcb_open getaddrinfo hst None display w s = Some (int n, w, s')
    \<and> sys_open s' = int n # sys_open s
    \<and> sys_log s' = sys_log s @
        [Sys_socket AF_UNIX (SOCK_STREAM OR SOCK_CLOEXEC) 0, Sys_connect (int m) (Abstract_name (unix_base @ dec_int display)),
         Sys_close (int m),
         Sys_socket AF_UNIX (SOCK_STREAM OR SOCK_CLOEXEC) 0, Sys_connect (int n) (Unix_path (unix_base @ dec_int display))]"
proof -
  have ok: "malloc_ok w = (True, w)" using assms(4) by (rule malloc_none)
  note unfold = open_local_unfold [OF assms(2,3) ok]
  define pth where "pth = unix_base @ dec_int display"
  have "xcb_open getaddrinfo hst None display w s = open_local None display w s"
    using assms(1) by (auto simp: xcb_open_def)
  then show ?thesis using assms(5,6,7) unfold(2,3) unfolding unfold(1) pth_def [symmetric]
    by (simp add: xcb_open_abstract_def xcb_open_unix_def unix_connect_def xcb_socket_def socket_def connect_def
        sys_close_def log_call_def Let_def)
qed

theorem local_display_calls_witness:
  "\<exists>s'. xcb_open (\<lambda>_ _ _. None) ''unix'' None 3 quiet_os (sample_sys [SockFd 5, SockFd 6] [ConnErr ECONNREFUSED, ConnOk])
       = Some (6, quiet_os, s') \<and> sys_open s' = [6]"
  using local_display_calls [of "''unix''" 3 quiet_os "sample_sys [SockFd 5, SockFd 6] [ConnErr ECONNREFUSED, ConnOk]" 5 6 "[]"
      ECONNREFUSED "[]"]
  by (auto simp: sample_sys_def quiet_os_def)

lemma tcp_loop_first:
  assumes "sys_sockets s = map SockFd ns @ ss" and "sys_connects s = replicate k (ConnErr e) @ ConnOk # cs"
    and "length ns = Suc k" and "k < length addrs"
  shows "\<exists>s'. tcp_loop addrs f s = (int (ns ! k), s') \<and> last (sys_log s') = Sys_connect (int (ns ! k)) (Resolved (ai_addr (addrs ! k)))
    \<and> sys_open s' = int (ns ! k) # sys_open s"
  using assms
proof (induction k arbitrary: ns addrs f s)
  case 0
  then obtain n a as where "ns = [n]" "addrs = a # as" by (cases addrs) (auto simp: length_Suc_conv)
  with 0 show ?case
    by (simp add: xcb_socket_def socket_def connect_def log_call_def Let_def)
next
  case (Suc k)
  then obtain n ns' a as where ns: "ns = n # ns'" "addrs = a # as" by (cases addrs; cases ns) auto
  define s1 where "s1 = snd (connect (int n) (Resolved (ai_addr a)) (log_call (Sys_setsockopt (int n) SO_KEEPALIVE)
      (log_call (Sys_setsockopt (int n) TCP_NODELAY) (snd (socket (ai_family a) (ai_socktype a OR SOCK_CLOEXEC) (ai_protocol a) s)))))"
  have "tcp_loop addrs f s = tcp_loop as (- 1) (sys_close (int n) s1)"
    using Suc.prems ns by (simp add: s1_def xcb_socket_def socket_def connect_def log_call_def Let_def)
  moreover have "sys_sockets (sys_close (int n) s1) = map SockFd ns' @ ss"
      "sys_connects (sys_close (int n) s1) = replicate k (ConnErr e) @ ConnOk # cs"
      "sys_open (sys_close (int n) s1) = sys_open s"
    using Suc.prems ns by (simp_all add: s1_def socket_def connect_def log_call_def sys_close_def Let_def)
  moreover have "length ns' = Suc k" "k < length as" using Suc.prems ns by simp_all
  ultimately show ?case using Suc.IH [of "sys_close (int n) s1" ns' as "- 1"] ns by auto
qed

text \<open>
  A TCP display is reached through the first address of the resolver that accepts: when the
  first \<open>k\<close> addresses refuse, the descriptor returned is connected to address \<open>k\<close>, the descriptors
  of the failed attempts are closed, and the resolver was asked for the host and for port 6000
  plus the display number.
\<close>

theorem tcp_first_reachable:
  assumes "prot \<in> {None, Some ''tcp'', Some ''inet'', Some ''inet6''}"
    and "getaddrinfo (fst (tcp_target hst)) (dec (unat port)) (snd (tcp_target hst)) = Some addrs"
    and "sys_sockets s = map SockFd ns @ ss" and "sys_connects s = replicate k (ConnErr e) @ ConnOk # cs"
    and "length ns = Suc k" and "k < length addrs"
  shows "\<exists>s'. xcb_open_tcp getaddrinfo hst prot port s = (int (ns ! k), s')
    \<and> last (sys_log s') = Sys_connect (int (ns ! k)) (Resolved (ai_addr (addrs ! k)))
    \<and> sys_open s' = int (ns ! k) # sys_open s"
proof -
  have "take 5 (dec (unat port)) = dec (unat port)"
    using dec_length [of "unat port" 4] unat_bound16 [of port] by simp
  then have "xcb_open_tcp getaddrinfo hst prot port s = tcp_loop addrs (- 1) s"
    using assms(1,2) by (auto simp: xcb_open_tcp_def split: prod.splits)
  then show ?thesis using tcp_loop_first [OF assms(3-6)] by simp
qed

theorem tcp_first_reachable_witness:
  "\<exists>s'. xcb_open_tcp (\<lambda>h sv hs. if h = ''::1'' \<and> sv = ''6001'' \<and> hint_family hs = AF_INET6
       then Some [\<lparr>ai_family = AF_INET6, ai_socktype = 1, ai_protocol = 6, ai_addr = 7\<rparr>,
                  \<lparr>ai_family = AF_INET6, ai_socktype = 1, ai_protocol = 6, ai_addr = 8\<rparr>] else None)
     ''[::1]'' None 6001 (sample_sys [SockFd 4, SockFd 5] [ConnErr 110, ConnOk]) = (5, s')
   \<and> last (sys_log s') = Sys_connect 5 (Resolved 8) \<and> sys_open s' = [5]"
proof -
  have "tcp_target ''[::1]'' = (''::1'', tcp_hints ((AI_ADDRCONFIG OR AI_NUMERICSERV) OR AI_NUMERICHOST) AF_INET6)"
    by (simp add: tcp_target_def)
  moreover have "dec 6001 = ''6001''" by (simp add: dec.simps digit_chars_def)
  ultimately show ?thesis
    using tcp_first_reachable [of None "\<lambda>h sv hs. if h = ''::1'' \<and> sv = ''6001'' \<and> hint_family hs = AF_INET6
       then Some [\<lparr>ai_family = AF_INET6, ai_socktype = 1, ai_protocol = 6, ai_addr = 7\<rparr>,
                  \<lparr>ai_family = AF_INET6, ai_socktype = 1, ai_protocol = 6, ai_addr = 8\<rparr>] else None"
        "''[::1]''" 6001 _ "sample_sys [SockFd 4, SockFd 5] [ConnErr 110, ConnOk]" "[4, 5]" "[]" 1 110 "[]"]
    by (simp add: sample_sys_def tcp_hints_def)
qed

text \<open>
  The protocol \<open>unix\<close> cannot be used in a display name: although the functions for local
  sockets accept it, \<open>_xcb_open\<close> hands every display with a protocol to the TCP function, which
  refuses it without a single system call.
\<close>

theorem unix_protocol_refused:
  "xcb_open getaddrinfo hst (Some ''unix'') display w s = Some (- 1, w, s)"
  by (simp add: xcb_open_def xcb_open_tcp_def)

end
