(* ===== verification/XcbSetup.thy ===== *)
theory XcbSetup
  imports XcbFlush XcbExt XcbXid XcbOpen
begin

text \<open>
  Setting up and tearing down a connection on an open socket, from \<open>src/src/xcb_conn.c\<close>:
  \<open>set_fd_flags\<close>, \<open>write_setup\<close>, \<open>read_setup\<close>, \<open>xcb_connect_to_fd\<close>, \<open>xcb_disconnect\<close> and the
  accessors \<open>xcb_get_setup\<close>, \<open>xcb_get_file_descriptor\<close> and \<open>xcb_connection_has_error\<close>.

  The layouts of the setup request and of the setup data are those of the protocol
  description. \<open>c_setup\<close> is set when the setup data has been read completely; it stays \<open>None\<close>
  when the data is too short to hold the members the library reads, so that reading them has
  no defined result.
\<close>

section \<open>The setup request\<close>

definition X_PROTOCOL :: u16 where "X_PROTOCOL = 11"

definition X_PROTOCOL_REVISION :: u16 where "X_PROTOCOL_REVISION = 0"

record xcb_auth_info_t =
  namelen :: int
  auth_name :: "byte list"
  datalen :: int
  auth_data :: "byte list"

text \<open>\<open>xcb_setup_request_t\<close> of a little-endian client: 12 bytes, the last two are padding.\<close>

definition setup_request :: "u16 \<Rightarrow> u16 \<Rightarrow> byte list" where
  "setup_request name_len data_len =
     [0x6c, 0] @ bytes16 X_PROTOCOL @ bytes16 X_PROTOCOL_REVISION @ bytes16 name_len @ bytes16 data_len @ [0, 0]"

definition pad_bytes :: "u32 \<Rightarrow> byte list" where
  "pad_bytes n = replicate (unat (XCB_PAD n)) 0"

text \<open>
  The vector \<open>parts\<close>. The lengths are stored in 16 bit fields, and it is these fields that
  become the lengths of the parts; a part longer than the string it points into is a read
  outside of it.
\<close>

definition setup_parts :: "xcb_auth_info_t option \<Rightarrow> iovecs option" where
  "setup_parts auth_info = (case auth_info of
     None \<Rightarrow> Some [setup_request 0 0, pad_bytes 12]
   | Some a \<Rightarrow>
      (let nl = word_of_int (namelen a) :: u16; dl = word_of_int (datalen a) :: u16
       in if unat nl > length (auth_name a) \<or> unat dl > length (auth_data a) then None
          else Some [setup_request nl dl, pad_bytes 12,
            take (unat nl) (auth_name a), pad_bytes (ucast nl), take (unat dl) (auth_data a), pad_bytes (ucast dl)]))"

definition write_setup :: "xcb_auth_info_t option \<Rightarrow> xcb_connection_t \<Rightarrow> os \<Rightarrow> (bool \<times> xcb_connection_t \<times> os) option" where
  "write_setup auth_info c w = do { parts \<leftarrow> setup_parts auth_info; xcb_out_send parts c w }"

section \<open>The setup data\<close>

definition decode_setup :: "byte list \<Rightarrow> xcb_setup_t option" where
  "decode_setup bs = (if length bs < 28 then None else
     Some \<lparr>setup_status = bs ! 0, setup_length = le16 (bs ! 6) (bs ! 7),
       resource_id_base = le32 (bs ! 12) (bs ! 13) (bs ! 14) (bs ! 15),
       resource_id_mask = le32 (bs ! 16) (bs ! 17) (bs ! 18) (bs ! 19),
       setup_maximum_request_length = le16 (bs ! 26) (bs ! 27)\<rparr>)"

text \<open>
  The generated accessors for the reason the server gives, as the bytes written to the
  standard error output: for a failure and for a demand of more authentication.
\<close>

record setup_reasons =
  failed_reason :: "byte list \<Rightarrow> byte list"
  authenticate_reason :: "byte list \<Rightarrow> byte list"

definition read_setup :: "setup_reasons \<Rightarrow> xcb_connection_t \<Rightarrow> os \<Rightarrow> sys \<Rightarrow>
    (bool \<times> xcb_connection_t \<times> os \<times> sys) option" where
  "read_setup reasons c w s =
    (let (ok, w) = malloc_ok w in
     if \<not> ok then Some (False, c, w, s)
     else do {
       (ret, hdr, c, w) \<leftarrow> xcb_in_read_block 8 c w;
       if ret \<noteq> 8 then Some (False, c, w, s)
       else
         let len = unat (le16 (hdr ! 6) (hdr ! 7)) * 4;
             (ok, w) = malloc_ok w
         in if \<not> ok then Some (False, c, w, s)
         else do {
           (ret, body, c, w) \<leftarrow> xcb_in_read_block (int len) c w;
           if ret \<le> 0 then Some (False, c, w, s)
           else
             let bs = hdr @ body; c = c\<lparr>c_setup := decode_setup bs\<rparr>
             in if bs ! 0 = 0 then Some (False, c, w, log_call (Sys_stderr (failed_reason reasons bs)) s)
                else if bs ! 0 = 2 then Some (False, c, w, log_call (Sys_stderr (authenticate_reason reasons bs)) s)
                else Some (True, c, w, s)
         }
     })"

section \<open>Connecting and disconnecting\<close>

text \<open>A pointer to a connection: the static \<open>error_connection\<close> or a connection of its own.\<close>

datatype conn_ptr = Error_connection | Conn xcb_connection_t

definition O_NONBLOCK :: int where "O_NONBLOCK = 2048"

definition set_fd_flags :: "int \<Rightarrow> sys \<Rightarrow> bool \<times> sys" where
  "set_fd_flags f s =
    (let (flags, s) = fcntl f F_GETFL s in
     if flags = - 1 then (False, s)
     else let (r, s) = fcntl f (F_SETFL (flags OR O_NONBLOCK)) s in
       if r = - 1 then (False, s)
       else let (r, s) = fcntl f F_SETFD_CLOEXEC s in (r \<noteq> - 1, s))"

text \<open>The steps of \<open>xcb_connect_to_fd\<close> joined by \<open>&&\<close>: the first that fails ends them.\<close>

definition connect_steps :: "setup_reasons \<Rightarrow> xcb_auth_info_t option \<Rightarrow> xcb_connection_t \<Rightarrow> os \<Rightarrow> sys \<Rightarrow>
    (bool \<times> xcb_connection_t \<times> os \<times> sys) option" where
  "connect_steps reasons auth_info c w s =
    (let (ok, s) = set_fd_flags (fd c) s in if \<not> ok then Some (False, c, w, s) else
     let (ok, w) = pthread_init_ok w in if \<not> ok then Some (False, c, w, s) else
     let (ok, i, w) = xcb_in_init (c_in c) w; c = c\<lparr>c_in := i\<rparr> in if \<not> ok then Some (False, c, w, s) else
     let (ok, out, w) = xcb_out_init (c_out c) w; c = c\<lparr>c_out := out\<rparr> in if \<not> ok then Some (False, c, w, s) else
     do {
       (ok, c, w) \<leftarrow> write_setup auth_info c w;
       if \<not> ok then Some (False, c, w, s) else do {
         (ok, c, w, s) \<leftarrow> read_setup reasons c w s;
         if \<not> ok then Some (False, c, w, s) else
         let (ok, c, w) = xcb_ext_init c w in if \<not> ok then Some (False, c, w, s) else do {
           (ok, c, w) \<leftarrow> xcb_xid_init c w;
           Some (ok, c, w, s)
         }
       }
     })"

text \<open>What \<open>xcb_disconnect\<close> frees: the packets of the reading side and the cached replies.\<close>

definition xcb_disconnect :: "conn_ptr \<Rightarrow> sys \<Rightarrow>
    (packet list \<times> xcb_query_extension_reply_t option list) \<times> sys" where
  "xcb_disconnect p s = (case p of
     Error_connection \<Rightarrow> (([], []), s)
   | Conn c \<Rightarrow>
      (let s = log_call (Sys_shutdown (fd c)) s; s = sys_close (fd c) s
       in ((fst (xcb_in_destroy (c_in c)), fst (xcb_ext_destroy c)), s)))"

definition xcb_connect_to_fd :: "setup_reasons \<Rightarrow> int \<Rightarrow> xcb_auth_info_t option \<Rightarrow> os \<Rightarrow> sys \<Rightarrow>
    (conn_ptr \<times> os \<times> sys) option" where
  "xcb_connect_to_fd reasons f auth_info w s =
    (let (ok, w) = malloc_ok w in
     if \<not> ok then Some (Error_connection, w, sys_close f s)
     else do {
       (ok, c, w, s) \<leftarrow> connect_steps reasons auth_info (zero_conn\<lparr>fd := f\<rparr>) w s;
       if \<not> ok then Some (Error_connection, w, snd (xcb_disconnect (Conn c) s))
       else Some (Conn c, w, s)
     })"

section \<open>Accessors\<close>

definition xcb_connection_has_error :: "conn_ptr \<Rightarrow> bool" where
  "xcb_connection_has_error p = (case p of Error_connection \<Rightarrow> True | Conn c \<Rightarrow> has_error c)"

definition xcb_get_setup :: "conn_ptr \<Rightarrow> xcb_setup_t option" where
  "xcb_get_setup p = (case p of Error_connection \<Rightarrow> None | Conn c \<Rightarrow> if has_error c then None else c_setup c)"

definition xcb_get_file_descriptor :: "conn_ptr \<Rightarrow> int" where
  "xcb_get_file_descriptor p = (case p of Error_connection \<Rightarrow> - 1 | Conn c \<Rightarrow> if has_error c then - 1 else fd c)"

section \<open>The setup request on the wire\<close>

text \<open>How the server reads a setup request: the name and the data, and what follows them.\<close>

definition read_setup_request :: "byte list \<Rightarrow> byte list \<times> byte list \<times> byte list" where
  "read_setup_request bs =
    (let nl = le16 (bs ! 6) (bs ! 7); dl = le16 (bs ! 8) (bs ! 9);
         skip = (\<lambda>n :: u16. unat n + unat (XCB_PAD (ucast n :: u32)));
         bs = drop 12 bs
     in (take (unat nl) bs, take (unat dl) (drop (skip nl) bs), drop (skip nl + skip dl) bs))"

lemma setup_request_length [simp]: "length (setup_request nl dl) = 12"
  by (simp add: setup_request_def)

lemma bytes16_pair: "\<exists>a b. bytes16 x = [a, b] \<and> le16 a b = x"
  using le16_bytes16 by (simp add: bytes16_def)

lemma setup_request_fields:
  "le16 ((setup_request nl dl @ rest) ! 6) ((setup_request nl dl @ rest) ! 7) = nl"
  "le16 ((setup_request nl dl @ rest) ! 8) ((setup_request nl dl @ rest) ! 9) = dl"
proof -
  obtain a b c d where "bytes16 nl = [a, b]" "le16 a b = nl" "bytes16 dl = [c, d]" "le16 c d = dl"
    using bytes16_pair by meson
  then show "le16 ((setup_request nl dl @ rest) ! 6) ((setup_request nl dl @ rest) ! 7) = nl"
    "le16 ((setup_request nl dl @ rest) ! 8) ((setup_request nl dl @ rest) ! 9) = dl"
    by (simp_all add: setup_request_def bytes16_def)
qed

text \<open>
  C33: The server can read what \<open>write_setup\<close> sends: from the bytes of the setup request it gets
  back the name and the data of the authorization, with nothing left over, and their total is a
  multiple of four bytes.
\<close>

theorem setup_request_roundtrip:
  assumes "namelen a = int (length (auth_name a))" and "datalen a = int (length (auth_data a))"
    and "length (auth_name a) < 65536" and "length (auth_data a) < 65536"
  shows "\<exists>parts. setup_parts (Some a) = Some parts
    \<and> read_setup_request (concat parts) = (auth_name a, auth_data a, []) \<and> 4 dvd length (concat parts)"
proof -
  let ?nl = "word_of_int (namelen a) :: u16" and ?dl = "word_of_int (datalen a) :: u16"
  have nl: "unat ?nl = length (auth_name a)" and dl: "unat ?dl = length (auth_data a)"
    using assms by (simp_all add: unat_of_nat)
  have pad12: "pad_bytes 12 = []" by (simp add: pad_bytes_def XCB_PAD_def)
  let ?parts = "[setup_request ?nl ?dl, [], auth_name a, pad_bytes (ucast ?nl), auth_data a, pad_bytes (ucast ?dl)]"
  have parts: "setup_parts (Some a) = Some ?parts"
    using nl dl pad12 by (simp add: setup_parts_def Let_def)
  have dvd: "4 dvd unat x + unat (XCB_PAD (ucast x :: u32))" for x :: u16
  proof -
    have "int (unat (XCB_PAD (ucast x :: u32))) = (- int (unat (ucast x :: u32))) mod 4" by (rule unat_XCB_PAD)
    moreover have "unat (ucast x :: u32) = unat x" using unat_bound16 [of x] by (simp add: unsigned_ucast_eq take_bit_eq_mod)
    ultimately show ?thesis by presburger
  qed
  have "4 dvd length (concat ?parts)"
    using dvd [of ?nl] dvd [of ?dl] nl dl by (simp add: pad_bytes_def) presburger
  moreover have "read_setup_request (concat ?parts) = (auth_name a, auth_data a, [])"
    unfolding read_setup_request_def concat.simps setup_request_fields Let_def
    using nl dl by (simp add: pad_bytes_def)
  ultimately show ?thesis using parts by blast
qed

theorem setup_request_roundtrip_witness:
  "\<exists>parts. setup_parts (Some \<lparr>namelen = 3, auth_name = [77, 73, 84], datalen = 2, auth_data = [1, 2]\<rparr>) = Some parts
    \<and> read_setup_request (concat parts) = ([77, 73, 84], [1, 2], [])"
  using setup_request_roundtrip [of "\<lparr>namelen = 3, auth_name = [77, 73, 84], datalen = 2, auth_data = [1, 2]\<rparr>"] by auto

section \<open>What connecting leaves behind\<close>

lemma call_frames:
  "pthread_init_ok w = (ok, w') \<Longrightarrow> os_others w' = os_others w"
  "malloc_ok w = (ok, w') \<Longrightarrow> os_others w' = os_others w"
  "fcntl f k s = (r, s') \<Longrightarrow> sys_open s' = sys_open s"
  by (auto simp: pthread_init_ok_def malloc_ok_def fcntl_def log_call_def Let_def split: list.splits)

lemma set_fd_flags_open: "set_fd_flags f s = (ok, s') \<Longrightarrow> sys_open s' = sys_open s"
  by (auto simp: set_fd_flags_def Let_def dest!: call_frames(3) split: prod.splits if_splits)

lemma in_init_others: "xcb_in_init i w = (ok, i', w') \<Longrightarrow> os_others w' = os_others w \<and> readers i' = readers i
    \<and> (ok \<longrightarrow> reading i' = 0)"
  by (auto simp: xcb_in_init_def Let_def dest!: call_frames(1,2) split: prod.splits if_splits)

lemma out_init_spec:
  "xcb_out_init out w = (ok, out', w') \<Longrightarrow> os_others w' = os_others w \<and>
     (ok \<longrightarrow> writing out' = 0 \<and> return_socket out' = None \<and> out_queue out' = [] \<and> out_request out' = 0 \<and> request_written out' = 0)"
  by (auto simp: xcb_out_init_def Let_def dest!: call_frames(1) split: prod.splits if_splits)

definition same_readers :: "xcb_connection_t \<Rightarrow> xcb_connection_t \<Rightarrow> bool" where
  "same_readers c c' \<longleftrightarrow> reading (c_in c') = reading (c_in c) \<and> readers (c_in c') = readers (c_in c)"

lemma out_send_frame:
  assumes "xcb_out_send v c w = Some (ret, c', w')" and "os_others w = []"
  shows "fd c' = fd c \<and> os_others w' = [] \<and> c_out c' = (c_out c)\<lparr>request_written := out_request (c_out c)\<rparr>
    \<and> same_readers c c'"
proof -
  from assms(1) obtain v1 c1 w1 where l: "out_send_loop v c w = Some (ret, v1, c1, w1)"
    and c': "fd c' = fd c1" by (auto simp: xcb_out_send_def bind_eq_Some_conv2 Let_def)
  have "fd c' = fd c" using out_send_loop_spec(4) [OF l assms(2)] c' by (simp add: reads_only_def)
  then show ?thesis unfolding same_readers_def using out_send_spec [OF assms(1)] assms(2) by blast
qed

lemma in_read_block_frame:
  "xcb_in_read_block len c w = Some (ret, buf, c', w') \<Longrightarrow> fd c' = fd c \<and> c_out c' = c_out c \<and> os_others w' = os_others w
     \<and> same_readers c c'"
  by (auto simp: same_readers_def xcb_in_read_block_def xcb_conn_shutdown_def Let_def split: if_splits prod.splits)

lemma read_setup_spec:
  assumes "read_setup reasons c w s = Some (ok, c', w', s')"
  shows "fd c' = fd c \<and> c_out c' = c_out c \<and> os_others w' = os_others w \<and> sys_open s' = sys_open s \<and> same_readers c c'
    \<and> (ok \<longrightarrow> (\<forall>st. c_setup c' = Some st \<longrightarrow> setup_status st \<noteq> 0 \<and> setup_status st \<noteq> 2))"
proof -
  obtain ok1 w1 where m1: "malloc_ok w = (ok1, w1)" by (metis surj_pair)
  note o1 = call_frames(2) [OF m1]
  show ?thesis
  proof (cases ok1)
    case False
    with assms m1 o1 show ?thesis by (auto simp: read_setup_def same_readers_def)
  next
    case True
    with assms m1 obtain ret hdr c1 w2 where rb: "xcb_in_read_block 8 c w1 = Some (ret, hdr, c1, w2)"
      by (auto simp: read_setup_def bind_eq_Some_conv2)
    obtain ok3 w3 where m3: "malloc_ok w2 = (ok3, w3)" by (metis surj_pair)
    note f1 = in_read_block_frame [OF rb] and o3 = call_frames(2) [OF m3]
    consider (short) "ret \<noteq> 8" | (nomem) "ret = 8" "\<not> ok3" | (ok) "ret = 8" "ok3" by blast
    then show ?thesis
    proof cases
      case short
      with assms m1 True rb f1 o1 show ?thesis by (auto simp: read_setup_def)
    next
      case nomem
      with assms m1 True rb m3 f1 o1 o3 show ?thesis by (auto simp: read_setup_def)
    next
      case ok
      let ?len = "int (unat (le16 (hdr ! 6) (hdr ! 7)) * 4)"
      from assms m1 True rb m3 ok obtain r2 body c2 w4 where rb2: "xcb_in_read_block ?len c1 w3 = Some (r2, body, c2, w4)"
        by (auto simp: read_setup_def Let_def bind_eq_Some_conv2)
      note f2 = in_read_block_frame [OF rb2]
      from assms m1 True rb m3 ok rb2 f1 f2 o1 o3 show ?thesis
        by (auto simp: read_setup_def Let_def decode_setup_def same_readers_def split: if_splits)
    qed
  qed
qed

lemma xid_init_spec:
  "xcb_xid_init c w = Some (ok, c', w') \<Longrightarrow> fd c' = fd c \<and> c_out c' = c_out c \<and> c_in c' = c_in c \<and> os_others w' = os_others w \<and> c_setup c' = c_setup c
     \<and> (ok \<longrightarrow> (\<exists>st. c_setup c = Some st \<and> c_xid c' = \<lparr>xid_last = 0, xid_base = resource_id_base st, xid_max = 0,
           xid_inc = resource_id_mask st AND - resource_id_mask st\<rparr>))"
  by (auto simp: xcb_xid_init_def Let_def dest!: call_frames(1) split: prod.splits if_splits option.splits)

text \<open>A connection just set up: nothing has been sent through it except the setup request.\<close>

definition fresh_conn :: "int \<Rightarrow> xcb_connection_t \<Rightarrow> bool" where
  "fresh_conn f c \<longleftrightarrow> fd c = f \<and> writing (c_out c) = 0 \<and> return_socket (c_out c) = None \<and> out_queue (c_out c) = []
    \<and> out_request (c_out c) = 0 \<and> request_written (c_out c) = 0 \<and> reading (c_in c) = 0 \<and> readers (c_in c) = []
    \<and> (\<exists>st. c_setup c = Some st \<and> setup_status st \<noteq> 0 \<and> setup_status st \<noteq> 2
        \<and> c_xid c = \<lparr>xid_last = 0, xid_base = resource_id_base st, xid_max = 0, xid_inc = resource_id_mask st AND - resource_id_mask st\<rparr>)"

lemma connect_steps_spec:
  assumes "connect_steps reasons auth_info c w s = Some (ok, c', w', s')" and "os_others w = []"
  shows "fd c' = fd c \<and> os_others w' = [] \<and> sys_open s' = sys_open s
    \<and> (ok \<and> readers (c_in c) = [] \<longrightarrow> fresh_conn (fd c) c')"
proof -
  obtain ok1 s1 where 1: "set_fd_flags (fd c) s = (ok1, s1)" by (metis surj_pair)
  obtain ok2 w2 where 2: "pthread_init_ok w = (ok2, w2)" by (metis surj_pair)
  obtain ok3 i w3 where 3: "xcb_in_init (c_in c) w2 = (ok3, i, w3)" by (metis prod_cases3)
  obtain ok4 out w4 where 4: "xcb_out_init (c_out c) w3 = (ok4, out, w4)" by (metis prod_cases3)
  note s1 = set_fd_flags_open [OF 1]
  have w4: "os_others w2 = []" "os_others w3 = []" "os_others w4 = []"
    using call_frames(1) [OF 2] in_init_others [OF 3] out_init_spec [OF 4] assms(2) by simp_all
  show ?thesis
  proof (cases "ok1 \<and> ok2 \<and> ok3 \<and> ok4")
    case False
    then show ?thesis using assms 1 2 3 4 s1 w4 by (cases ok1; cases ok2; cases ok3; cases ok4) (auto simp: connect_steps_def)
  next
    case True
    let ?c = "c\<lparr>c_in := i, c_out := out\<rparr>"
    obtain ok5 c5 w5 where 5: "write_setup auth_info ?c w4 = Some (ok5, c5, w5)"
      using assms(1) 1 2 3 4 True by (auto simp: connect_steps_def bind_eq_Some_conv2)
    have c5: "fd c5 = fd c \<and> os_others w5 = [] \<and> c_out c5 = out\<lparr>request_written := out_request out\<rparr> \<and> same_readers ?c c5"
      using 5 w4(3) by (auto simp: write_setup_def bind_eq_Some_conv2 dest!: out_send_frame)
    show ?thesis
    proof (cases ok5)
      case False
      then show ?thesis using assms 1 2 3 4 5 True s1 w4 c5 by (auto simp: connect_steps_def)
    next
      case ok5: True
      obtain ok6 c6 w6 s6 where 6: "read_setup reasons c5 w5 s1 = Some (ok6, c6, w6, s6)"
        using assms(1) 1 2 3 4 5 True ok5 by (auto simp: connect_steps_def bind_eq_Some_conv2)
      note r6 = read_setup_spec [OF 6]
      obtain ok7 w7 where 7: "pthread_init_ok w6 = (ok7, w7)" by (metis surj_pair)
      show ?thesis
      proof (cases "ok6 \<and> ok7")
        case False
        then show ?thesis using assms 1 2 3 4 5 6 7 True ok5 s1 c5 r6 call_frames(1) [OF 7]
          by (cases ok6; cases ok7) (auto simp: connect_steps_def xcb_ext_init_def)
      next
        case ok67: True
        have steps: "connect_steps reasons auth_info c w s = do { (ok, c, w) \<leftarrow> xcb_xid_init c6 w7; Some (ok, c, w, s6) }"
          using 1 2 3 4 5 6 7 True ok5 ok67 by (simp add: connect_steps_def xcb_ext_init_def)
        from assms(1) have 8: "xcb_xid_init c6 w7 = Some (ok, c', w')" and s': "s' = s6"
          unfolding steps by (auto simp: bind_eq_Some_conv2)
        from xid_init_spec [OF 8] s' c5 r6 call_frames(1) [OF 7] in_init_others [OF 3] out_init_spec [OF 4] True ok67 s1 show ?thesis
          by (auto simp: fresh_conn_def same_readers_def)
      qed
    qed
  qed
qed

lemma connect_outcome:
  assumes "xcb_connect_to_fd reasons f auth_info w s = Some (p, w', s')" and "os_others w = []"
  shows "case p of Error_connection \<Rightarrow> sys_open s' = remove1 f (sys_open s)
    | Conn c \<Rightarrow> sys_open s' = sys_open s \<and> fresh_conn f c \<and> queue_inv c \<and> alone c w'"
proof -
  obtain ok w1 where 1: "malloc_ok w = (ok, w1)" by (metis surj_pair)
  show ?thesis
  proof (cases ok)
    case False
    with assms 1 show ?thesis by (auto simp: xcb_connect_to_fd_def sys_close_def)
  next
    case True
    with assms(1) 1 obtain ok2 c w2 s2 where 2: "connect_steps reasons auth_info (zero_conn\<lparr>fd := f\<rparr>) w1 s = Some (ok2, c, w2, s2)"
      by (auto simp: xcb_connect_to_fd_def bind_eq_Some_conv2)
    have spec: "fd c = f \<and> os_others w2 = [] \<and> sys_open s2 = sys_open s \<and> (ok2 \<longrightarrow> fresh_conn f c)"
      using connect_steps_spec [OF 2] call_frames(2) [OF 1] assms(2) by (simp add: zero_defs)
    show ?thesis
    proof (cases ok2)
      case False
      then have "p = Error_connection" "s' = snd (xcb_disconnect (Conn c) s2)"
        using assms(1) 1 2 True by (auto simp: xcb_connect_to_fd_def)
      with spec show ?thesis by (simp add: xcb_disconnect_def sys_close_def)
    next
      case ok2: True
      then have "p = Conn c" "w' = w2" "s' = s2" using assms(1) 1 2 True by (auto simp: xcb_connect_to_fd_def)
      with spec ok2 show ?thesis
        by (auto simp: fresh_conn_def queue_inv_def alone_def low_half_def)
    qed
  qed
qed

text \<open>
  C24: \<open>xcb_connect_to_fd\<close> owns the descriptor it is given. When it returns the error connection,
  whatever went wrong (flags, mutexes, memory, sending, reading, the server's refusal), the
  descriptor has been closed exactly once. When it returns a connection, the descriptor is still
  open and belongs to it, the server has not refused, the identifiers start from the base and
  the mask of the setup data, and the connection meets the invariants that sending requests
  relies on.
\<close>

theorem connect_to_fd_outcome:
  assumes "xcb_connect_to_fd reasons f auth_info w s = Some (p, w', s')" and "os_others w = []"
  shows "case p of Error_connection \<Rightarrow> sys_open s' = remove1 f (sys_open s)
    | Conn c \<Rightarrow> sys_open s' = sys_open s \<and> fresh_conn f c \<and> queue_inv c \<and> alone c w'"
  using assms by (rule connect_outcome)

lemma out_send_completes_frame:
  assumes "os_others w = []" and "writing (c_out c) = 0" and "out_queue (c_out c) = []"
    and "\<forall>p \<in> set (os_polls w). p = PollOk POLLOUT" and "\<forall>r \<in> set (os_writevs w). \<exists>k > 0. r = WAccept k"
    and "length (concat v) \<le> length (os_polls w)" and "length (concat v) \<le> length (os_writevs w)" and "concat v \<noteq> []"
  shows "\<exists>w'. xcb_out_send v c w = Some (True, c\<lparr>c_out := (c_out c)\<lparr>request_written := out_request (c_out c)\<rparr>\<rparr>, w')
    \<and> os_wire w' = os_wire w @ concat v \<and> os_recvs w' = os_recvs w \<and> os_mallocs w' = os_mallocs w \<and> os_inits w' = os_inits w"
proof -
  obtain ps ws x where l: "out_send_loop v c w = Some (True, [], c, w\<lparr>os_polls := ps, os_writevs := ws, os_wire := x\<rparr>)"
    using out_send_loop_completes_frame [OF assms(1-7)] assms(8) by blast
  from out_send_loop_spec(1) [OF l] have "x = os_wire w @ concat v" by (auto simp: sent_def)
  with l show ?thesis
    by (auto simp: xcb_out_send_def Let_def xcb_in_wake_up_next_reader_def os_signal_def split: list.splits)
qed

lemma in_read_block_whole:
  assumes "in_queue (c_in c) = []" and "os_recvs w = RData bs # rs" and "0 < n" and "n \<le> length bs"
  shows "xcb_in_read_block (int n) c w = Some (int n, take n bs, c,
     w\<lparr>os_recvs := if n = length bs then rs else RData (drop n bs) # rs\<rparr>)"
proof -
  have "read_block n (RData bs # rs) (os_polls w) =
      (1, take n bs, (if n = length bs then rs else RData (drop n bs) # rs), os_polls w)"
    using assms(3,4) by (cases rs) (auto simp: Let_def)
  then show ?thesis using assms by (simp add: xcb_in_read_block_def Let_def)
qed

text \<open>With setup data of some length and no refusal, connecting gets as far as \<open>_xcb_xid_init\<close>.\<close>

lemma connect_reaches_xid_init:
  assumes "os_others w = []" and "os_mallocs w = []" and "os_inits w = []" and "sys_fcntls s = []"
    and "setup_parts auth_info = Some parts"
    and "\<forall>p \<in> set (os_polls w). p = PollOk POLLOUT" and "\<forall>r \<in> set (os_writevs w). \<exists>k > 0. r = WAccept k"
    and "length (concat parts) \<le> length (os_polls w)" and "length (concat parts) \<le> length (os_writevs w)"
    and "os_recvs w = [RData answer]" and "8 < length answer" and "answer ! 0 \<noteq> 0 \<and> answer ! 0 \<noteq> 2"
    and "length answer = 8 + 4 * unat (le16 (answer ! 6) (answer ! 7))"
  obtains c2 w2 s1 where "c_setup c2 = decode_setup answer" and "\<not> has_error c2" and "os_wire w2 = os_wire w @ concat parts"
    and "os_inits w2 = []" and "xcb_connect_to_fd reasons f auth_info w s = do {
      (ok, c, w) \<leftarrow> xcb_xid_init c2 w2;
      if \<not> ok then Some (Error_connection, w, snd (xcb_disconnect (Conn c) s1)) else Some (Conn c, w, s1)
    }"
proof -
  let ?conn = "zero_conn\<lparr>fd := f\<rparr>"
  obtain out where out: "xcb_out_init (c_out ?conn) w = (True, out, w)" and "writing out = 0" "out_queue out = []"
    using assms(3) by (simp add: xcb_out_init_def pthread_init_ok_def)
  obtain i where i: "xcb_in_init (c_in ?conn) w = (True, i, w)" and "in_queue i = []"
    using assms(2,3) by (simp add: xcb_in_init_def pthread_init_ok_def malloc_ok_def)
  obtain s1 where flags: "set_fd_flags f s = (True, s1)"
    using assms(4) by (simp add: set_fd_flags_def fcntl_def log_call_def Let_def)
  let ?c = "?conn\<lparr>c_in := i, c_out := out\<rparr>"
  let ?c1 = "?c\<lparr>c_out := out\<lparr>request_written := out_request out\<rparr>\<rparr>"
  have "concat parts \<noteq> []"
    using assms(5) by (auto simp: setup_parts_def Let_def setup_request_def split: option.splits if_splits)
  then obtain w1 where sendit: "xcb_out_send parts ?c w = Some (True, ?c1, w1)"
    and w1: "os_wire w1 = os_wire w @ concat parts" "os_recvs w1 = [RData answer]" "os_mallocs w1 = []" "os_inits w1 = []"
    using out_send_completes_frame [of w ?c parts] assms \<open>writing out = 0\<close> \<open>out_queue out = []\<close> by auto
  let ?n = "4 * unat (le16 (answer ! 6) (answer ! 7))"
  have n: "0 < ?n" "?n = length answer - 8" using assms(11,13) by linarith+
  have r1: "xcb_in_read_block (int 8) ?c1 w1 = Some (int 8, take 8 answer, ?c1, w1\<lparr>os_recvs := [RData (drop 8 answer)]\<rparr>)"
    using in_read_block_whole [of ?c1 w1 answer "[]" 8] w1(2) assms(11) \<open>in_queue i = []\<close> by simp
  have r2: "xcb_in_read_block (int ?n) ?c1 (w1\<lparr>os_recvs := [RData (drop 8 answer)]\<rparr>) =
      Some (int ?n, drop 8 answer, ?c1, w1\<lparr>os_recvs := []\<rparr>)"
    using in_read_block_whole [of ?c1 "w1\<lparr>os_recvs := [RData (drop 8 answer)]\<rparr>" "drop 8 answer" "[]" ?n] n \<open>in_queue i = []\<close>
    by simp
  let ?c2 = "?c1\<lparr>c_setup := decode_setup answer\<rparr>"
  have hdr: "take 8 answer ! 6 = answer ! 6" "take 8 answer ! 7 = answer ! 7" using assms(11) by simp_all
  have malloc: "malloc_ok w1 = (True, w1)" "malloc_ok (w1\<lparr>os_recvs := [RData (drop 8 answer)]\<rparr>) = (True, w1\<lparr>os_recvs := [RData (drop 8 answer)]\<rparr>)"
    using w1(3) by (simp_all add: malloc_ok_def)
  have "le16 (answer ! 6) (answer ! 7) \<noteq> 0" using n(1) by auto
  then have pos: "uint (le16 (answer ! 6) (answer ! 7)) \<noteq> 0" by (metis unsigned_eq_0_iff)
  have rs: "read_setup reasons ?c1 w1 s1 = Some (True, ?c2, w1\<lparr>os_recvs := []\<rparr>, s1)"
    using r1 r2 n(1) assms(12) unfolding read_setup_def malloc Let_def prod.case
    by (simp add: hdr malloc mult.commute Let_def pos)
  have "connect_steps reasons auth_info ?conn w s = do { (ok, c, w) \<leftarrow> xcb_xid_init ?c2 (w1\<lparr>os_recvs := []\<rparr>); Some (ok, c, w, s1) }"
    using flags out i sendit rs assms(3,5) w1(4)
    by (simp add: connect_steps_def pthread_init_ok_def write_setup_def xcb_ext_init_def)
  then have "xcb_connect_to_fd reasons f auth_info w s = do {
      (ok, c, w) \<leftarrow> xcb_xid_init ?c2 (w1\<lparr>os_recvs := []\<rparr>);
      if \<not> ok then Some (Error_connection, w, snd (xcb_disconnect (Conn c) s1)) else Some (Conn c, w, s1)
    }"
    using assms(2) by (cases "xcb_xid_init ?c2 (w1\<lparr>os_recvs := []\<rparr>)") (auto simp: xcb_connect_to_fd_def malloc_ok_def)
  moreover have "\<not> has_error ?c2" by (simp add: zero_conn_def)
  ultimately show thesis using w1 by (intro that [of ?c2 "w1\<lparr>os_recvs := []\<rparr>" s1]) simp_all
qed

lemma connect_to_fd_runs:
  assumes "os_others w = []" and "os_mallocs w = []" and "os_inits w = []" and "sys_fcntls s = []"
    and "setup_parts auth_info = Some parts"
    and "\<forall>p \<in> set (os_polls w). p = PollOk POLLOUT" and "\<forall>r \<in> set (os_writevs w). \<exists>k > 0. r = WAccept k"
    and "length (concat parts) \<le> length (os_polls w)" and "length (concat parts) \<le> length (os_writevs w)"
    and "os_recvs w = [RData answer]" and "28 \<le> length answer" and "answer ! 0 = 1"
    and "length answer = 8 + 4 * unat (le16 (answer ! 6) (answer ! 7))"
  shows "\<exists>c w' s'. xcb_connect_to_fd reasons f auth_info w s = Some (Conn c, w', s') \<and> c_setup c = decode_setup answer
    \<and> os_wire w' = os_wire w @ concat parts \<and> \<not> has_error c"
proof -
  have "8 < length answer" "answer ! 0 \<noteq> 0 \<and> answer ! 0 \<noteq> 2" using assms(11,12) by simp_all
  from connect_reaches_xid_init [OF assms(1-10) this assms(13)] obtain c2 w2 s1
    where c2: "c_setup c2 = decode_setup answer" "\<not> has_error c2" "os_wire w2 = os_wire w @ concat parts" "os_inits w2 = []"
    and run: "xcb_connect_to_fd reasons f auth_info w s = do {
      (ok, c, w) \<leftarrow> xcb_xid_init c2 w2;
      if \<not> ok then Some (Error_connection, w, snd (xcb_disconnect (Conn c) s1)) else Some (Conn c, w, s1)
    }" by blast
  obtain st where "decode_setup answer = Some st" using assms(11) by (simp add: decode_setup_def)
  then show ?thesis unfolding run using c2 by (simp add: xcb_xid_init_def pthread_init_ok_def)
qed

text \<open>
  C34: Connecting succeeds. When the socket accepts output, memory does not run out and the server
  answers with setup data that carries the length it announces and status 1, \<open>xcb_connect_to_fd\<close>
  returns a working connection: the setup request is on the wire, and the setup data is what the
  server sent.
\<close>

theorem connect_to_fd_succeeds:
  assumes "os_others w = []" and "os_mallocs w = []" and "os_inits w = []" and "sys_fcntls s = []"
    and "setup_parts auth_info = Some parts"
    and "\<forall>p \<in> set (os_polls w). p = PollOk POLLOUT" and "\<forall>r \<in> set (os_writevs w). \<exists>k > 0. r = WAccept k"
    and "length (concat parts) \<le> length (os_polls w)" and "length (concat parts) \<le> length (os_writevs w)"
    and "os_recvs w = [RData answer]" and "28 \<le> length answer" and "answer ! 0 = 1"
    and "length answer = 8 + 4 * unat (le16 (answer ! 6) (answer ! 7))"
  shows "\<exists>c w' s'. xcb_connect_to_fd reasons f auth_info w s = Some (Conn c, w', s') \<and> c_setup c = decode_setup answer
    \<and> os_wire w' = os_wire w @ concat parts \<and> \<not> has_error c"
  using assms by (rule connect_to_fd_runs)

text \<open>Setup data of 40 bytes that grants the identifiers of a mask from a base on.\<close>

definition sample_answer :: "byte list" where
  "sample_answer = [1, 0, 11, 0, 0, 0, 8, 0, 0, 0, 0, 0, 0, 0, 64, 0, 255, 255, 31, 0] @ replicate 6 0 @ [255, 255] @ replicate 12 0"

definition sample_reasons :: setup_reasons where
  "sample_reasons = \<lparr>failed_reason = (\<lambda>bs. take (unat (bs ! 1)) (drop 8 bs)), authenticate_reason = drop 8\<rparr>"

definition server_os :: "byte list \<Rightarrow> os" where
  "server_os answer = quiet_os\<lparr>os_polls := replicate 12 (PollOk POLLOUT), os_writevs := replicate 12 (WAccept 12), os_recvs := [RData answer]\<rparr>"

lemma setup_parts_none: "setup_parts None = Some [setup_request 0 0, []]"
  by (simp add: setup_parts_def pad_bytes_def XCB_PAD_def)

lemma server_os_ok:
  "os_others (server_os a) = []" "os_mallocs (server_os a) = []" "os_inits (server_os a) = []" "os_recvs (server_os a) = [RData a]"
  "\<forall>p \<in> set (os_polls (server_os a)). p = PollOk POLLOUT" "\<forall>r \<in> set (os_writevs (server_os a)). \<exists>k > 0. r = WAccept k"
  "length (concat [setup_request 0 0, []]) \<le> length (os_polls (server_os a))"
  "length (concat [setup_request 0 0, []]) \<le> length (os_writevs (server_os a))" "sys_fcntls (sample_sys socks conns) = []"
  by (simp_all add: server_os_def quiet_os_def sample_sys_def)

lemma sample_answer_ok: "28 \<le> length sample_answer" "sample_answer ! 0 = 1"
  "length sample_answer = 8 + 4 * unat (le16 (sample_answer ! 6) (sample_answer ! 7))"
proof -
  show "28 \<le> length sample_answer" "sample_answer ! 0 = 1" by (simp_all add: sample_answer_def)
  have "sample_answer ! 6 = 8" "sample_answer ! 7 = 0" "length sample_answer = 40" by (simp_all add: sample_answer_def)
  moreover have "le16 8 0 = 8" by (simp add: le16_def)
  ultimately show "length sample_answer = 8 + 4 * unat (le16 (sample_answer ! 6) (sample_answer ! 7))" by simp
qed

theorem connect_to_fd_succeeds_witness:
  "\<exists>c w' s'. xcb_connect_to_fd sample_reasons 3 None (server_os sample_answer) (sample_sys [] []) = Some (Conn c, w', s')
    \<and> c_setup c = decode_setup sample_answer"
  using connect_to_fd_succeeds [OF server_os_ok(1-3,9) setup_parts_none server_os_ok(5-8,4) sample_answer_ok] by blast

theorem connect_to_fd_outcome_witness:
  "\<exists>c w' s'. xcb_connect_to_fd sample_reasons 3 None (server_os sample_answer) (sample_sys [] []) = Some (Conn c, w', s')
    \<and> fresh_conn 3 c \<and> queue_inv c \<and> alone c w'"
proof -
  obtain c w' s' where run: "xcb_connect_to_fd sample_reasons 3 None (server_os sample_answer) (sample_sys [] []) = Some (Conn c, w', s')"
    using connect_to_fd_runs [OF server_os_ok(1-3,9) setup_parts_none server_os_ok(5-8,4) sample_answer_ok] by blast
  from connect_to_fd_outcome [OF run server_os_ok(1)] run show ?thesis by auto
qed

text \<open>
  C39: Short setup data is not checked. When the server accepts the connection but announces less
  setup data than the members the library reads take up, \<open>xcb_connect_to_fd\<close> reads beyond the
  end of the buffer it allocated for them; the call has no defined result.
\<close>

theorem short_setup_undefined:
  assumes "os_others w = []" and "os_mallocs w = []" and "os_inits w = []" and "sys_fcntls s = []"
    and "setup_parts auth_info = Some parts"
    and "\<forall>p \<in> set (os_polls w). p = PollOk POLLOUT" and "\<forall>r \<in> set (os_writevs w). \<exists>k > 0. r = WAccept k"
    and "length (concat parts) \<le> length (os_polls w)" and "length (concat parts) \<le> length (os_writevs w)"
    and "os_recvs w = [RData answer]" and "8 < length answer" and "answer ! 0 \<noteq> 0 \<and> answer ! 0 \<noteq> 2"
    and "length answer = 8 + 4 * unat (le16 (answer ! 6) (answer ! 7))" and "length answer < 20"
  shows "xcb_connect_to_fd reasons f auth_info w s = None"
proof -
  from connect_reaches_xid_init [OF assms(1-13)] obtain c2 w2 s1
    where c2: "c_setup c2 = decode_setup answer" "os_inits w2 = []"
    and run: "xcb_connect_to_fd reasons f auth_info w s = do {
      (ok, c, w) \<leftarrow> xcb_xid_init c2 w2;
      if \<not> ok then Some (Error_connection, w, snd (xcb_disconnect (Conn c) s1)) else Some (Conn c, w, s1)
    }" by blast
  have "decode_setup answer = None" using assms(14) by (simp add: decode_setup_def)
  then show ?thesis unfolding run using c2 by (simp add: xcb_xid_init_def pthread_init_ok_def)
qed

theorem short_setup_undefined_witness:
  "xcb_connect_to_fd sample_reasons 3 None (server_os [1, 0, 11, 0, 0, 0, 1, 0, 0, 0, 0, 0]) (sample_sys [] []) = None"
proof -
  have "le16 1 0 = 1" by (simp add: le16_def)
  then show ?thesis
    by (intro short_setup_undefined [OF server_os_ok(1-3,9) setup_parts_none server_os_ok(5-8,4)]) simp_all
qed

text \<open>A connection just set up, for concrete instances.\<close>

definition session_conn :: xcb_connection_t where
  "session_conn = sample_conn\<lparr>c_xid := \<lparr>xid_last = 0, xid_base = 0x400000, xid_max = 0, xid_inc = 0x1fffff AND - 0x1fffff\<rparr>\<rparr>"

lemma fresh_session_conn: "fresh_conn 0 session_conn"
  by (simp add: fresh_conn_def session_conn_def sample_conn_def zero_defs)

end
