(* ===== verification/XcbAuth.thy ===== *)
theory XcbAuth
  imports XcbSetup
begin

text \<open>
  Authorization data for a connection, from \<open>src/src/xcb_auth.c\<close>, compiled with
  XDM-AUTHORIZATION-1 and IPv6. The X authority file is read by \<open>XauGetBestAuthByAddr\<close> and data is
  encrypted by \<open>XdmcpWrap\<close>; both belong to other libraries and are parameters.

  Memory is what this file has to get right, so blocks have addresses here: \<open>a_live\<close> are the
  blocks allocated and not yet freed. Freeing an address that is not live, and reading outside
  of a block, have no defined result (\<open>None\<close>).
\<close>

section \<open>Memory, socket names and the environment\<close>

text \<open>
  The address of a socket, by its family; the bytes of addresses and ports are in network order.
\<close>

datatype sockname =
    Sa_inet "byte list" "byte list"
  | Sa_inet6 "byte list" "byte list"
  | Sa_unix
  | Sa_other

text \<open>
  A call of \<open>getpeername\<close> or \<open>getsockname\<close> fails or gives the name and its full length, which
  may exceed the length of the buffer.
\<close>

datatype name_result = NameErr | Name sockname nat

datatype name_func = Getpeername | Getsockname

record auth_sys =
  a_live :: "nat set"
  a_next :: nat
  a_peernames :: "name_result list"
  a_socknames :: "name_result list"
  a_hostname :: "string option"
  a_moves :: bool
  a_nonce :: u32
  a_pid :: u32
  a_time :: u32

definition a_malloc :: "os \<Rightarrow> auth_sys \<Rightarrow> nat option \<times> os \<times> auth_sys" where
  "a_malloc w a = (let (ok, w) = malloc_ok w in
     if ok then (Some (a_next a), w, a\<lparr>a_live := insert (a_next a) (a_live a), a_next := a_next a + 1\<rparr>)
     else (None, w, a))"

definition a_free :: "nat option \<Rightarrow> auth_sys \<Rightarrow> auth_sys option" where
  "a_free p a = (case p of None \<Rightarrow> Some a
     | Some x \<Rightarrow> if x \<in> a_live a then Some (a\<lparr>a_live := a_live a - {x}\<rparr>) else None)"

text \<open>
  \<open>realloc\<close> of a live block. When it succeeds, it moves the block or grows it where it is, as
  \<open>a_moves\<close> says; after a move the old address is no longer live.
\<close>

definition a_realloc :: "nat \<Rightarrow> os \<Rightarrow> auth_sys \<Rightarrow> nat option \<times> os \<times> auth_sys" where
  "a_realloc p w a = (if a_moves a
     then let (q, w, a) = a_malloc w a in (q, w, if q = None then a else a\<lparr>a_live := a_live a - {p}\<rparr>)
     else let (ok, w) = malloc_ok w in (if ok then Some p else None, w, a))"

definition call_name :: "name_func \<Rightarrow> auth_sys \<Rightarrow> name_result \<times> auth_sys" where
  "call_name fn a = (case fn of
     Getpeername \<Rightarrow> (case a_peernames a of [] \<Rightarrow> (NameErr, a) | r # rs \<Rightarrow> (r, a\<lparr>a_peernames := rs\<rparr>))
   | Getsockname \<Rightarrow> (case a_socknames a of [] \<Rightarrow> (NameErr, a) | r # rs \<Rightarrow> (r, a\<lparr>a_socknames := rs\<rparr>)))"

section \<open>The functions of xcb_auth.c\<close>

definition XDM_name :: "byte list" where
  "XDM_name = map (of_nat \<circ> of_char) ''XDM-AUTHORIZATION-1''"

definition MIT_name :: "byte list" where
  "MIT_name = map (of_nat \<circ> of_char) ''MIT-MAGIC-COOKIE-1''"

datatype auth_protos = AUTH_XA1 | AUTH_MC1

definition authnames :: "auth_protos \<Rightarrow> byte list" where
  "authnames kind = (case kind of AUTH_XA1 \<Rightarrow> XDM_name | AUTH_MC1 \<Rightarrow> MIT_name)"

definition authname_match :: "auth_protos \<Rightarrow> byte list \<Rightarrow> bool" where
  "authname_match kind nm =
    (if length (authnames kind) \<noteq> length nm then False else if authnames kind \<noteq> nm then False else True)"

text \<open>\<open>memdup\<close>: the address of the copy, or null when there is nothing to copy or no memory.\<close>

definition memdup :: "byte list \<Rightarrow> os \<Rightarrow> auth_sys \<Rightarrow> nat option \<times> os \<times> auth_sys" where
  "memdup src w a = (if length src \<noteq> 0 then a_malloc w a else (None, w, a))"

definition INITIAL_SOCKNAME_SLACK :: nat where "INITIAL_SOCKNAME_SLACK = 108"

definition SOCKADDR_SIZE :: nat where "SOCKADDR_SIZE = 16"

text \<open>The result is null or the address of a block with the name in it.\<close>

definition get_peer_sock_name :: "name_func \<Rightarrow> os \<Rightarrow> auth_sys \<Rightarrow>
    ((nat \<times> sockname) option \<times> os \<times> auth_sys) option" where
  "get_peer_sock_name socket_func w a =
    (let socknamelen = SOCKADDR_SIZE + INITIAL_SOCKNAME_SLACK;
         (sock, w, a) = a_malloc w a
     in case sock of
          None \<Rightarrow> Some (None, w, a)
        | Some p \<Rightarrow> (case call_name socket_func a of
            (NameErr, a) \<Rightarrow> do { a \<leftarrow> a_free sock a; Some (None, w, a) }
          | (Name nm actual, a) \<Rightarrow>
              (if actual > socknamelen then
                 let socknamelen = actual;
                     (new_sock, w, a) = a_realloc p w a
                 in case new_sock of
                      None \<Rightarrow> do { a \<leftarrow> a_free sock a; Some (None, w, a) }
                    | Some q \<Rightarrow> (case call_name socket_func a of
                        (NameErr, a) \<Rightarrow> do { a \<leftarrow> a_free sock a; Some (None, w, a) }
                      | (Name nm actual, a) \<Rightarrow>
                          (if actual > socknamelen then do { a \<leftarrow> a_free sock a; Some (None, w, a) }
                           else Some (Some (q, nm), w, a)))
               else Some (Some (p, nm), w, a))))"

definition FamilyLocal :: u16 where "FamilyLocal = 256"
definition XCB_FAMILY_INTERNET :: u16 where "XCB_FAMILY_INTERNET = 0"
definition XCB_FAMILY_INTERNET_6 :: u16 where "XCB_FAMILY_INTERNET_6 = 6"

definition v4mapped :: "byte list \<Rightarrow> bool" where
  "v4mapped ip \<longleftrightarrow> take 12 ip = replicate 10 0 @ [255, 255]"

definition loopback6 :: "byte list \<Rightarrow> bool" where
  "loopback6 ip \<longleftrightarrow> ip = replicate 15 0 @ [1]"

text \<open>An entry of the authority file: the name of the protocol and its data.\<close>

record xauth =
  xa_name :: "byte list"
  xa_data :: "byte list"

type_synonym xau_lookup = "u16 \<Rightarrow> byte list \<Rightarrow> string \<Rightarrow> xauth option"

text \<open>The family and the address under which an entry is looked up; \<open>None\<close> for other families.\<close>

definition auth_address :: "sockname \<Rightarrow> (u16 \<times> byte list) option" where
  "auth_address nm =
    (let inet = (\<lambda>ip. Some (if ip \<noteq> [127, 0, 0, 1] then XCB_FAMILY_INTERNET else FamilyLocal, ip))
     in case nm of
       Sa_inet6 ip port \<Rightarrow> (if \<not> v4mapped ip then Some (if \<not> loopback6 ip then XCB_FAMILY_INTERNET_6 else FamilyLocal, ip)
                           else inet (drop 12 ip))
     | Sa_inet ip port \<Rightarrow> inet ip
     | Sa_unix \<Rightarrow> Some (FamilyLocal, [])
     | Sa_other \<Rightarrow> None)"

text \<open>An entry that was found is a block of its own, until \<open>XauDisposeAuth\<close> frees it.\<close>

definition xau_result :: "xauth option \<Rightarrow> auth_sys \<Rightarrow> (nat \<times> xauth) option \<times> auth_sys" where
  "xau_result r a = (case r of None \<Rightarrow> (None, a)
     | Some auth \<Rightarrow> (Some (a_next a, auth), a\<lparr>a_live := insert (a_next a) (a_live a), a_next := a_next a + 1\<rparr>))"

definition get_authptr :: "xau_lookup \<Rightarrow> sockname \<Rightarrow> int \<Rightarrow> auth_sys \<Rightarrow> (nat \<times> xauth) option \<times> auth_sys" where
  "get_authptr lookup_auth nm display a = (case auth_address nm of
     None \<Rightarrow> (None, a)
   | Some (family, addr) \<Rightarrow>
      (let dispbuf = take 39 (dec_int display) in
       if family = FamilyLocal then (case a_hostname a of
           None \<Rightarrow> (None, a)
         | Some h \<Rightarrow> xau_result (lookup_auth family (map (of_nat \<circ> of_char) h) dispbuf) a)
       else xau_result (lookup_auth family addr dispbuf) a))"

definition next_nonce :: "auth_sys \<Rightarrow> u32 \<times> auth_sys" where
  "next_nonce a = (a_nonce a, a\<lparr>a_nonce := a_nonce a + 1\<rparr>)"

text \<open>Network byte order.\<close>

definition htonl_bytes :: "u32 \<Rightarrow> byte list" where "htonl_bytes x = rev (bytes32 x)"

definition htons_bytes :: "u16 \<Rightarrow> byte list" where "htons_bytes x = rev (bytes16 x)"

text \<open>\<open>do_append\<close>: the bytes written so far and one more field; the buffer has 24 bytes.\<close>

definition do_append :: "byte list \<Rightarrow> byte list \<Rightarrow> byte list" where
  "do_append buf val = buf @ val"

text \<open>The address and the port that go into XDM authorization data; \<open>None\<close> for other families.\<close>

definition xdm_address :: "sockname \<Rightarrow> auth_sys \<Rightarrow> (byte list \<times> byte list) option \<times> auth_sys" where
  "xdm_address nm a = (case nm of
     Sa_inet ip port \<Rightarrow> (Some (ip, port), a)
   | Sa_inet6 ip port \<Rightarrow> (if v4mapped ip then (Some (take 4 (drop 12 ip), port), a) else (Some ([0, 0, 0, 0], [0, 0]), a))
   | Sa_unix \<Rightarrow> (let (n, a) = next_nonce a in (Some (htonl_bytes (0xffffffff - n), htons_bytes (ucast (a_pid a))), a))
   | Sa_other \<Rightarrow> (None, a))"

text \<open>What is encrypted: the result is what \<open>info->data\<close> holds before \<open>XdmcpWrap\<close>.\<close>

definition xdm_plain :: "xauth \<Rightarrow> byte list \<Rightarrow> byte list \<Rightarrow> u32 \<Rightarrow> byte list option" where
  "xdm_plain auth ip port now =
    (let buf = take 8 (xa_data auth);
         buf = do_append buf ip;
         buf = do_append buf port;
         buf = do_append buf (htonl_bytes now)
     in if length (xa_data auth) < 16 \<or> length buf > 24 then None
        else Some (buf @ replicate (24 - length buf) 0))"

text \<open>
  \<open>compute_auth\<close>: the address and the bytes of \<open>info->data\<close> when it returns 1. \<open>wrap\<close> is
  \<open>XdmcpWrap\<close> with the 8 bytes of the key.
\<close>

definition compute_auth :: "(byte list \<Rightarrow> byte list \<Rightarrow> byte list) \<Rightarrow> xauth \<Rightarrow> sockname \<Rightarrow> os \<Rightarrow> auth_sys \<Rightarrow>
    ((nat \<times> byte list) option \<times> os \<times> auth_sys) option" where
  "compute_auth wrap auth nm w a =
    (if authname_match AUTH_MC1 (xa_name auth) then
       let (data, w, a) = memdup (xa_data auth) w a
       in Some (case data of None \<Rightarrow> None | Some p \<Rightarrow> Some (p, xa_data auth), w, a)
     else if authname_match AUTH_XA1 (xa_name auth) then
       let (data, w, a) = a_malloc w a
       in case data of
            None \<Rightarrow> Some (None, w, a)
          | Some p \<Rightarrow> (case xdm_address nm a of
              (None, a) \<Rightarrow> if length (xa_data auth) < 8 then None else do { a \<leftarrow> a_free data a; Some (None, w, a) }
            | (Some (ip, port), a) \<Rightarrow> do {
                plain \<leftarrow> xdm_plain auth ip port (a_time a);
                Some (Some (p, wrap plain (take 8 (drop 8 (xa_data auth)))), w, a)
              })
     else Some (None, w, a))"

text \<open>The label \<open>no_auth\<close>.\<close>

definition no_auth :: "nat option \<Rightarrow> nat \<Rightarrow> os \<Rightarrow> auth_sys \<Rightarrow>
    ((nat \<times> nat \<times> xcb_auth_info_t) option \<times> os \<times> auth_sys) option" where
  "no_auth sock authptr w a = do {
     a \<leftarrow> a_free sock a;
     a \<leftarrow> a_free (Some authptr) a;
     Some (None, w, a)
   }"

text \<open>
  \<open>_xcb_get_auth_info\<close> once a socket name is there. The variable \<open>sockname\<close> is overwritten by the
  second call of \<open>get_peer_sock_name\<close>.
\<close>

definition auth_for_name :: "xau_lookup \<Rightarrow> (byte list \<Rightarrow> byte list \<Rightarrow> byte list) \<Rightarrow> int \<Rightarrow> bool \<Rightarrow> nat \<times> sockname \<Rightarrow> os \<Rightarrow> auth_sys \<Rightarrow>
    ((nat \<times> nat \<times> xcb_auth_info_t) option \<times> os \<times> auth_sys) option" where
  "auth_for_name lookup_auth wrap display gotsockname sock w a =
    (case get_authptr lookup_auth (snd sock) display a of
       (None, a) \<Rightarrow> do { a \<leftarrow> a_free (Some (fst sock)) a; Some (None, w, a) }
     | (Some (x, auth), a) \<Rightarrow>
        (let (name_ptr, w, a) = memdup (xa_name auth) w a in
         case name_ptr of
           None \<Rightarrow> no_auth (Some (fst sock)) x w a
         | Some n \<Rightarrow> do {
             (sock, w, a) \<leftarrow> (if gotsockname then Some (Some sock, w, a) else get_peer_sock_name Getsockname w a);
             case sock of
               None \<Rightarrow> do { a \<leftarrow> a_free name_ptr a; no_auth None x w a }
             | Some (q, nm) \<Rightarrow> do {
                 (data, w, a) \<leftarrow> compute_auth wrap auth nm w a;
                 case data of
                   None \<Rightarrow> do { a \<leftarrow> a_free name_ptr a; no_auth (Some q) x w a }
                 | Some (d, bytes) \<Rightarrow> do {
                     a \<leftarrow> a_free (Some q) a;
                     a \<leftarrow> a_free (Some x) a;
                     Some (Some (n, d, \<lparr>namelen = int (length (xa_name auth)), auth_name = xa_name auth,
                       datalen = int (length bytes), auth_data = bytes\<rparr>), w, a)
                   }
               }
           }))"

definition xcb_get_auth_info :: "xau_lookup \<Rightarrow> (byte list \<Rightarrow> byte list \<Rightarrow> byte list) \<Rightarrow> int \<Rightarrow> os \<Rightarrow> auth_sys \<Rightarrow>
    ((nat \<times> nat \<times> xcb_auth_info_t) option \<times> os \<times> auth_sys) option" where
  "xcb_get_auth_info lookup_auth wrap display w a = do {
     (sock, w, a) \<leftarrow> get_peer_sock_name Getpeername w a;
     case sock of
       Some sock \<Rightarrow> auth_for_name lookup_auth wrap display False sock w a
     | None \<Rightarrow> do {
         (sock, w, a) \<leftarrow> get_peer_sock_name Getsockname w a;
         case sock of
           None \<Rightarrow> Some (None, w, a)
         | Some (p, nm) \<Rightarrow>
             if nm \<noteq> Sa_unix then do { a \<leftarrow> a_free (Some p) a; Some (None, w, a) }
             else auth_for_name lookup_auth wrap display True (p, nm) w a
       }
   }"

section \<open>Memory\<close>

text \<open>Addresses not yet given out are not live.\<close>

definition heap_ok :: "auth_sys \<Rightarrow> bool" where
  "heap_ok a \<longleftrightarrow> (\<forall>x \<in> a_live a. x < a_next a)"

text \<open>The names of sockets fit into the first buffer, and addresses have the lengths of their families.\<close>

definition sockname_ok :: "sockname \<Rightarrow> bool" where
  "sockname_ok nm = (case nm of Sa_inet ip port \<Rightarrow> length ip = 4 \<and> length port = 2
     | Sa_inet6 ip port \<Rightarrow> length ip = 16 \<and> length port = 2 | _ \<Rightarrow> True)"

definition name_fits :: "name_result \<Rightarrow> bool" where
  "name_fits r = (case r of NameErr \<Rightarrow> True | Name nm actual \<Rightarrow> actual \<le> 124 \<and> sockname_ok nm)"

definition names_fit :: "auth_sys \<Rightarrow> bool" where
  "names_fit a \<longleftrightarrow> list_all name_fits (a_peernames a) \<and> list_all name_fits (a_socknames a)"

text \<open>One more block, at the next address, or none.\<close>

definition grows :: "auth_sys \<Rightarrow> nat option \<Rightarrow> auth_sys \<Rightarrow> bool" where
  "grows a p a' \<longleftrightarrow> heap_ok a' \<and> names_fit a' \<and> a_next a \<le> a_next a'
     \<and> a_live a' = a_live a \<union> set_option p \<and> (\<forall>x. p = Some x \<longrightarrow> a_next a \<le> x)"

lemma heap_ok_insert [simp]:
  "heap_ok a \<Longrightarrow> heap_ok (a\<lparr>a_live := insert (a_next a) (a_live a), a_next := Suc (a_next a)\<rparr>)"
  by (simp add: heap_ok_def less_Suc_eq)

lemma a_malloc_grows:
  "heap_ok a \<Longrightarrow> names_fit a \<Longrightarrow> a_malloc w a = (p, w', a') \<Longrightarrow> grows a p a' \<and> os_others w' = os_others w"
  by (auto simp: a_malloc_def grows_def names_fit_def Let_def dest!: call_frames(2) split: prod.splits if_splits)

lemma memdup_grows:
  "heap_ok a \<Longrightarrow> names_fit a \<Longrightarrow> memdup src w a = (p, w', a') \<Longrightarrow> grows a p a' \<and> os_others w' = os_others w"
  using a_malloc_grows [of a w p w' a'] by (auto simp: memdup_def grows_def split: if_splits)

lemma a_free_live:
  "heap_ok a \<Longrightarrow> names_fit a \<Longrightarrow> x \<in> a_live a \<Longrightarrow>
     \<exists>a'. a_free (Some x) a = Some a' \<and> a_live a' = a_live a - {x} \<and> a_next a' = a_next a \<and> heap_ok a' \<and> names_fit a'"
  by (auto simp: a_free_def heap_ok_def names_fit_def)

lemma call_name_ok:
  assumes "names_fit a" and "call_name fn a = (r, a')"
  shows "name_fits r \<and> names_fit a' \<and> a_live a' = a_live a \<and> a_next a' = a_next a"
  using assms by (auto simp: call_name_def names_fit_def name_fits_def split: name_func.splits list.splits)

lemma get_peer_sock_name_grows:
  assumes "heap_ok a" and "names_fit a"
  shows "\<exists>r w' a'. get_peer_sock_name fn w a = Some (r, w', a') \<and> grows a (map_option fst r) a' \<and> os_others w' = os_others w
    \<and> (\<forall>p nm. r = Some (p, nm) \<longrightarrow> sockname_ok nm)"
proof -
  obtain p w1 a1 where m: "a_malloc w a = (p, w1, a1)" by (metis prod_cases3)
  note g = a_malloc_grows [OF assms m]
  obtain r a2 where cn: "call_name fn a1 = (r, a2)" by (metis surj_pair)
  note c = call_name_ok [OF _ cn]
  have a1: "heap_ok a1" "names_fit a1" using g by (simp_all add: grows_def)
  show ?thesis
  proof (cases p)
    case None
    with m g show ?thesis by (auto simp: get_peer_sock_name_def)
  next
    case (Some x)
    have a2: "heap_ok a2" "names_fit a2" "x \<in> a_live a2" using c a1 g Some by (auto simp: heap_ok_def grows_def)
    have new: "x \<notin> a_live a" using g assms(1) Some by (auto simp: grows_def heap_ok_def)
    show ?thesis
    proof (cases r)
      case NameErr
      obtain a3 where "a_free (Some x) a2 = Some a3" "a_live a3 = a_live a2 - {x}" "a_next a3 = a_next a2" "heap_ok a3" "names_fit a3"
        using a_free_live [OF a2] by blast
      with m cn Some NameErr g c a1 new show ?thesis
        by (auto simp: get_peer_sock_name_def Let_def grows_def)
    next
      case (Name nm actual)
      with c a1 have "actual \<le> 124" "sockname_ok nm" by (auto simp: name_fits_def)
      with m cn Some Name g c a1 a2 show ?thesis
        by (auto simp: get_peer_sock_name_def SOCKADDR_SIZE_def INITIAL_SOCKNAME_SLACK_def Let_def grows_def)
    qed
  qed
qed

lemma get_authptr_grows:
  assumes "heap_ok a" and "names_fit a" and "get_authptr lookup_auth nm display a = (r, a')"
  shows "grows a (map_option fst r) a' \<and> (\<forall>x auth. r = Some (x, auth) \<longrightarrow> (\<exists>f ad d. lookup_auth f ad d = Some auth))"
proof -
  have none: "grows a None a" using assms(1,2) by (simp add: grows_def)
  have "xau_result (lookup_auth f ad d) a = (r, a') \<Longrightarrow> ?thesis" for f ad d
    using assms(1,2) none by (cases "lookup_auth f ad d") (auto simp: xau_result_def grows_def names_fit_def)
  then show ?thesis using assms(3) none
    by (auto simp: get_authptr_def Let_def split: option.splits prod.splits if_splits)
qed

lemma authname_match_iff: "authname_match kind nm \<longleftrightarrow> nm = authnames kind"
  by (auto simp: authname_match_def)

lemma htonl_length [simp]: "length (htonl_bytes x) = 4" "length (htons_bytes y) = 2"
  by (simp_all add: htonl_bytes_def htons_bytes_def)

lemma xdm_address_ok:
  assumes "sockname_ok nm" and "xdm_address nm a = (r, a')"
  shows "a_live a' = a_live a \<and> a_next a' = a_next a \<and> a_time a' = a_time a \<and> (names_fit a \<longrightarrow> names_fit a') \<and> (r = None \<longleftrightarrow> nm = Sa_other)
    \<and> (\<forall>ip port. r = Some (ip, port) \<longrightarrow> length ip = 4 \<and> length port = 2)"
  using assms by (auto simp: xdm_address_def sockname_ok_def next_nonce_def names_fit_def Let_def split: sockname.splits if_splits)

lemma xdm_plain_layout:
  assumes "16 \<le> length (xa_data auth)" and "length ip = 4" and "length port = 2"
  shows "xdm_plain auth ip port now = Some (take 8 (xa_data auth) @ ip @ port @ htonl_bytes now @ replicate 6 0)"
  using assms by (simp add: xdm_plain_def do_append_def Let_def)

definition key_ok :: "xauth \<Rightarrow> bool" where
  "key_ok auth \<longleftrightarrow> (xa_name auth = XDM_name \<longrightarrow> 16 \<le> length (xa_data auth))"

lemma compute_auth_grows:
  assumes "heap_ok a" and "names_fit a" and "sockname_ok nm"
  shows "compute_auth wrap auth nm w a = None \<and> \<not> key_ok auth
    \<or> (\<exists>data w' a'. compute_auth wrap auth nm w a = Some (data, w', a') \<and> grows a (map_option fst data) a' \<and> os_others w' = os_others w)"
proof -
  have none: "grows a None a" using assms(1,2) by (simp add: grows_def)
  consider (mit) "xa_name auth = MIT_name" | (xdm) "xa_name auth \<noteq> MIT_name" "xa_name auth = XDM_name"
    | (other) "xa_name auth \<noteq> MIT_name" "xa_name auth \<noteq> XDM_name" by blast
  then show ?thesis
  proof cases
    case mit
    obtain p w1 a1 where m: "memdup (xa_data auth) w a = (p, w1, a1)" by (metis prod_cases3)
    from memdup_grows [OF assms(1,2) m] m mit show ?thesis
      by (cases p) (auto simp: compute_auth_def authname_match_iff authnames_def)
  next
    case other
    with none show ?thesis by (auto simp: compute_auth_def authname_match_iff authnames_def)
  next
    case xdm
    obtain p w1 a1 where m: "a_malloc w a = (p, w1, a1)" by (metis prod_cases3)
    note g = a_malloc_grows [OF assms(1,2) m]
    obtain r a2 where ad: "xdm_address nm a1 = (r, a2)" by (metis surj_pair)
    note x = xdm_address_ok [OF assms(3) ad]
    show ?thesis
    proof (cases p)
      case None
      with xdm m g show ?thesis by (auto simp: compute_auth_def authname_match_iff authnames_def)
    next
      case (Some y)
      show ?thesis
      proof (cases r)
        case None
        have a2: "heap_ok a2" "names_fit a2" "y \<in> a_live a2" using x g Some by (auto simp: heap_ok_def grows_def)
        obtain a3 where "a_free (Some y) a2 = Some a3" "a_live a3 = a_live a2 - {y}" "a_next a3 = a_next a2" "heap_ok a3" "names_fit a3"
          using a_free_live [OF a2] by blast
        moreover have "y \<notin> a_live a" using g assms(1) Some by (auto simp: grows_def heap_ok_def)
        ultimately show ?thesis using xdm m g Some None ad x
          by (auto simp: compute_auth_def authname_match_iff authnames_def grows_def key_ok_def)
      next
        case r: (Some ipp)
        obtain ip port where ipp: "ipp = (ip, port)" by (cases ipp)
        with x r have len: "length ip = 4" "length port = 2" by auto
        show ?thesis
        proof (cases "16 \<le> length (xa_data auth)")
          case True
          from xdm m g Some r ipp ad x xdm_plain_layout [OF True len] show ?thesis
            by (auto simp: compute_auth_def authname_match_iff authnames_def grows_def heap_ok_def)
        next
          case False
          with xdm m Some r ipp ad show ?thesis
            by (simp add: compute_auth_def authname_match_iff authnames_def xdm_plain_def key_ok_def Let_def)
        qed
      qed
    qed
  qed
qed

text \<open>The blocks the caller gets from \<open>_xcb_get_auth_info\<close>: the name and the data.\<close>

definition owned :: "(nat \<times> nat \<times> xcb_auth_info_t) option \<Rightarrow> nat set" where
  "owned r = (case r of None \<Rightarrow> {} | Some (n, d, _) \<Rightarrow> {n, d})"

lemma free_one:
  assumes "heap_ok a" and "names_fit a" and "x \<in> a_live a"
  obtains a' where "a_free (Some x) a = Some a'" and "a_live a' = a_live a - {x}" and "heap_ok a'" and "names_fit a'"
  using a_free_live [OF assms] by blast

lemma no_auth_frees:
  assumes "heap_ok a" and "names_fit a" and "x \<in> a_live a" and "set_option sock \<subseteq> a_live a - {x}"
  shows "\<exists>a'. no_auth sock x w a = Some (None, w, a') \<and> heap_ok a' \<and> a_live a' = a_live a - insert x (set_option sock)"
proof (cases sock)
  case None
  obtain a1 where "a_free (Some x) a = Some a1" "a_live a1 = a_live a - {x}" "heap_ok a1" by (rule free_one [OF assms(1-3)])
  with None show ?thesis by (auto simp: no_auth_def a_free_def [of None])
next
  case (Some y)
  with assms have y: "y \<in> a_live a" "y \<noteq> x" by auto
  obtain a1 where a1: "a_free (Some y) a = Some a1" "a_live a1 = a_live a - {y}" "heap_ok a1" "names_fit a1"
    by (rule free_one [OF assms(1,2) y(1)])
  with assms(3) y have "x \<in> a_live a1" by simp
  obtain a2 where "a_free (Some x) a1 = Some a2" "a_live a2 = a_live a1 - {x}" "heap_ok a2"
    by (rule free_one [OF a1(3,4) \<open>x \<in> a_live a1\<close>])
  with a1 Some show ?thesis by (auto simp: no_auth_def)
qed

lemma growsD:
  assumes "grows a p a'" and "heap_ok a"
  shows "heap_ok a'" "names_fit a'" "a_live a' = a_live a \<union> set_option p" "set_option p \<inter> a_live a = {}"
    "p = Some x \<Longrightarrow> x \<in> a_live a' \<and> x \<notin> a_live a"
  using assms by (auto simp: grows_def heap_ok_def)

definition lookup_ok :: "xau_lookup \<Rightarrow> bool" where
  "lookup_ok lookup_auth \<longleftrightarrow> (\<forall>f ad d auth. lookup_auth f ad d = Some auth \<longrightarrow> key_ok auth)"

definition auth_memory :: "auth_sys \<Rightarrow> nat \<Rightarrow> bool \<Rightarrow> (nat \<times> nat \<times> xcb_auth_info_t) option \<Rightarrow> auth_sys \<Rightarrow> bool" where
  "auth_memory a s got r a' \<longleftrightarrow> heap_ok a' \<and> owned r \<inter> a_live a = {}
     \<and> (\<exists>leak \<subseteq> {s}. a_live a' = (a_live a - {s}) \<union> owned r \<union> leak
          \<and> (got \<longrightarrow> leak = {}) \<and> (\<not> got \<and> r \<noteq> None \<longrightarrow> leak = {s}))"

lemma auth_memoryI:
  "heap_ok a' \<Longrightarrow> owned r \<inter> a_live a = {} \<Longrightarrow> a_live a' = (a_live a - {s}) \<union> owned r \<union> leak \<Longrightarrow> leak \<subseteq> {s}
     \<Longrightarrow> (got \<Longrightarrow> leak = {}) \<Longrightarrow> (\<not> got \<Longrightarrow> r \<noteq> None \<Longrightarrow> leak = {s}) \<Longrightarrow> auth_memory a s got r a'"
  unfolding auth_memory_def by blast

text \<open>The last part of \<open>_xcb_get_auth_info\<close>: all blocks are there, only the authorization data is missing.\<close>

lemma finish_auth:
  assumes "heap_ok a" and "names_fit a" and "sockname_ok nm" and "compute_auth wrap auth nm w a \<noteq> None"
    and "{q, x, n} \<subseteq> a_live a" and "distinct [q, x, n]"
  shows "\<exists>r w' a'. (do {
      (data, w, a) \<leftarrow> compute_auth wrap auth nm w a;
      case data of
        None \<Rightarrow> do { a \<leftarrow> a_free (Some n) a; no_auth (Some q) x w a }
      | Some (d, bytes) \<Rightarrow> do {
          a \<leftarrow> a_free (Some q) a;
          a \<leftarrow> a_free (Some x) a;
          Some (Some (n, d, \<lparr>namelen = int (length (xa_name auth)), auth_name = xa_name auth,
            datalen = int (length bytes), auth_data = bytes\<rparr>), w, a)
        }
    }) = Some (r, w', a') \<and> os_others w' = os_others w \<and> heap_ok a'
    \<and> a_live a' = (a_live a - {q, x, n}) \<union> owned r \<and> owned r \<inter> (a_live a - {n}) = {}"
proof -
  obtain data w1 a1 where ca: "compute_auth wrap auth nm w a = Some (data, w1, a1)"
    and g: "grows a (map_option fst data) a1" and o1: "os_others w1 = os_others w"
    using compute_auth_grows [OF assms(1-3), of wrap auth w] assms(4) by blast
  note gd = growsD [OF g assms(1)]
  show ?thesis
  proof (cases data)
    case None
    with gd assms(5) have "n \<in> a_live a1" by auto
    then obtain a2 where a2: "a_free (Some n) a1 = Some a2" "a_live a2 = a_live a1 - {n}" "heap_ok a2" "names_fit a2"
      by (rule free_one [OF gd(1,2)])
    have "x \<in> a_live a2" "set_option (Some q) \<subseteq> a_live a2 - {x}" using a2 gd(3) assms(5,6) None by auto
    from no_auth_frees [OF a2(3,4) this, of w1] obtain a3 where "no_auth (Some q) x w1 a2 = Some (None, w1, a3)" "heap_ok a3"
      "a_live a3 = a_live a2 - {x, q}" by auto
    with ca None a2 gd(3) o1 show ?thesis by (auto simp: owned_def)
  next
    case (Some db)
    obtain d bytes where db: "db = (d, bytes)" by (cases db)
    have "q \<in> a_live a1" using gd(3) assms(5) by auto
    then obtain a2 where a2: "a_free (Some q) a1 = Some a2" "a_live a2 = a_live a1 - {q}" "heap_ok a2" "names_fit a2"
      by (rule free_one [OF gd(1,2)])
    have "x \<in> a_live a2" using a2 gd(3) assms(5,6) by auto
    then obtain a3 where a3: "a_free (Some x) a2 = Some a3" "a_live a3 = a_live a2 - {x}" "heap_ok a3" "names_fit a3"
      by (rule free_one [OF a2(3,4)])
    have "d \<notin> a_live a" "a_live a1 = insert d (a_live a)" using gd(3,4) Some db by auto
    then have "a_live a3 = (a_live a - {q, x, n}) \<union> {n, d}" "{n, d} \<inter> (a_live a - {n}) = {}"
      using a2(2) a3(2) assms(5,6) by auto
    with ca Some db a2 a3 o1 show ?thesis by (simp add: owned_def)
  qed
qed

lemma auth_for_name_memory:
  assumes "heap_ok a" and "names_fit a" and "s \<in> a_live a" and "sockname_ok nm"
  shows "auth_for_name lookup_auth wrap display got (s, nm) w a = None \<and> \<not> lookup_ok lookup_auth
    \<or> (\<exists>r w' a'. auth_for_name lookup_auth wrap display got (s, nm) w a = Some (r, w', a') \<and> os_others w' = os_others w
        \<and> auth_memory a s got r a')"
proof -
  obtain xr a1 where ga: "get_authptr lookup_auth nm display a = (xr, a1)" by (metis surj_pair)
  note g1 = get_authptr_grows [OF assms(1,2) ga]
  note d1 = growsD [OF conjunct1 [OF g1] assms(1)]
  show ?thesis
  proof (cases xr)
    case None
    have "s \<in> a_live a1" using d1(3) assms(3) by auto
    then obtain a2 where "a_free (Some s) a1 = Some a2" "a_live a2 = a_live a1 - {s}" "heap_ok a2"
      by (rule free_one [OF d1(1,2)])
    with None ga d1(3) show ?thesis by (auto simp: auth_for_name_def owned_def intro!: auth_memoryI [where leak = "{}"])
  next
    case (Some xa)
    obtain x auth where xa: "xa = (x, auth)" by (cases xa)
    have key: "\<not> lookup_ok lookup_auth" if "compute_auth wrap auth nm1 w1 a1 = None" "heap_ok a1" "names_fit a1" "sockname_ok nm1" for nm1 w1 a1
      using compute_auth_grows [OF that(2-4), of wrap auth w1] that(1) g1 Some xa by (auto simp: lookup_ok_def)
    have x: "a_live a1 = insert x (a_live a)" "x \<notin> a_live a" using d1(3,4) Some xa by auto
    obtain np w2 a2 where md: "memdup (xa_name auth) w a1 = (np, w2, a2)" by (metis prod_cases3)
    note g2 = memdup_grows [OF d1(1,2) md]
    note d2 = growsD [OF conjunct1 [OF g2] d1(1)]
    show ?thesis
    proof (cases np)
      case None
      have "x \<in> a_live a2" "set_option (Some s) \<subseteq> a_live a2 - {x}" using d2(3) x assms(3) by auto
      from no_auth_frees [OF d2(1,2) this, of w2] obtain a3 where "no_auth (Some s) x w2 a2 = Some (None, w2, a3)" "heap_ok a3"
        "a_live a3 = a_live a2 - {x, s}" by auto
      with None ga Some xa md d2(3) x g2 show ?thesis
        by (auto simp: auth_for_name_def owned_def intro!: auth_memoryI [where leak = "{}"])
    next
      case np: (Some n)
      have n: "a_live a2 = insert n (insert x (a_live a))" "n \<notin> insert x (a_live a)" using d2(3,4) np x by auto
      show ?thesis
      proof (cases got)
        case True
        have blocks: "{s, x, n} \<subseteq> a_live a2" "distinct [s, x, n]" using n x assms(3) by auto
        show ?thesis
        proof (cases "compute_auth wrap auth nm w2 a2 = None")
          case undefined: True
          with True ga Some xa md np key [OF undefined d2(1,2) assms(4)] show ?thesis by (simp add: auth_for_name_def)
        next
          case defined: False
          from finish_auth [OF d2(1,2) assms(4) defined blocks] obtain r w' a' where
            run: "auth_for_name lookup_auth wrap display got (s, nm) w a = Some (r, w', a')"
            and o: "os_others w' = os_others w2" and h: "heap_ok a'" and l: "a_live a' = (a_live a2 - {s, x, n}) \<union> owned r"
            and d: "owned r \<inter> (a_live a2 - {n}) = {}"
            using True ga Some xa md np by (auto simp: auth_for_name_def)
          have "a_live a' = (a_live a - {s}) \<union> owned r \<union> {}" "owned r \<inter> a_live a = {}" using l d n x by auto
          with run o h True g2 show ?thesis by (auto intro!: auth_memoryI [where leak = "{}"])
        qed
      next
        case False
        obtain qr w3 a3 where gp: "get_peer_sock_name Getsockname w2 a2 = Some (qr, w3, a3)"
          and g3: "grows a2 (map_option fst qr) a3" and o3: "os_others w3 = os_others w2"
          and ok: "\<And>p nm. qr = Some (p, nm) \<Longrightarrow> sockname_ok nm"
          using get_peer_sock_name_grows [OF d2(1,2)] by blast
        note d3 = growsD [OF g3 d2(1)]
        show ?thesis
        proof (cases qr)
          case None
          then have l3: "a_live a3 = a_live a2" using d3(3) by simp
          then have "n \<in> a_live a3" using n by simp
          then obtain a4 where a4: "a_free (Some n) a3 = Some a4" "a_live a4 = a_live a3 - {n}" "heap_ok a4" "names_fit a4"
            by (rule free_one [OF d3(1,2)])
          have "x \<in> a_live a4" "set_option None \<subseteq> a_live a4 - {x}" using a4 l3 n by auto
          from no_auth_frees [OF a4(3,4) this, of w3] obtain a5 where "no_auth None x w3 a4 = Some (None, w3, a5)" "heap_ok a5"
            "a_live a5 = a_live a4 - {x}" by auto
          with None False ga Some xa md np gp a4 l3 n x o3 g2 assms(3) show ?thesis
            by (auto simp: auth_for_name_def owned_def intro!: auth_memoryI [where leak = "{s}"])
        next
          case qr: (Some qn)
          obtain q nm' where qn: "qn = (q, nm')" by (cases qn)
          have q: "a_live a3 = insert q (a_live a2)" "q \<notin> a_live a2" using d3(3,4) qr qn by auto
          have "{q, x, n} \<subseteq> a_live a3" "distinct [q, x, n]" using n x q by auto
          have okn: "sockname_ok nm'" using ok qr qn by simp
          show ?thesis
          proof (cases "compute_auth wrap auth nm' w3 a3 = None")
            case undefined: True
            with False ga Some xa md np gp qr qn key [OF undefined d3(1,2) okn] show ?thesis by (simp add: auth_for_name_def)
          next
            case defined: False
            from finish_auth [OF d3(1,2) okn defined \<open>{q, x, n} \<subseteq> a_live a3\<close> \<open>distinct [q, x, n]\<close>] obtain r w' a' where
              run: "auth_for_name lookup_auth wrap display got (s, nm) w a = Some (r, w', a')"
              and o: "os_others w' = os_others w3" and h: "heap_ok a'" and l: "a_live a' = (a_live a3 - {q, x, n}) \<union> owned r"
              and d: "owned r \<inter> (a_live a3 - {n}) = {}"
              using False ga Some xa md np gp qr qn by (auto simp: auth_for_name_def)
            have "a_live a' = (a_live a - {s}) \<union> owned r \<union> {s}" "owned r \<inter> a_live a = {}" using l d n x q assms(3) by auto
            with run o h False g2 o3 show ?thesis by (auto intro!: auth_memoryI [where leak = "{s}"])
          qed
        qed
      qed
    qed
  qed
qed

lemma get_auth_info_runs:
  assumes "heap_ok a" and "names_fit a"
  shows "xcb_get_auth_info lookup_auth wrap display w a = None \<and> \<not> lookup_ok lookup_auth
    \<or> (\<exists>r w' a' leak. xcb_get_auth_info lookup_auth wrap display w a = Some (r, w', a') \<and> os_others w' = os_others w
        \<and> a_live a' = a_live a \<union> owned r \<union> leak \<and> owned r \<inter> a_live a = {} \<and> finite leak \<and> card leak \<le> 1 \<and> leak \<inter> a_live a = {})"
proof -
  have use: "\<exists>leak. a_live a' = a_live a \<union> owned r \<union> leak \<and> owned r \<inter> a_live a = {} \<and> finite leak \<and> card leak \<le> 1 \<and> leak \<inter> a_live a = {}"
    if am: "auth_memory a1 p got r a'" and p: "a_live a1 = insert p (a_live a)" "p \<notin> a_live a" for a1 p got r a'
  proof -
    from am obtain leak where l: "leak \<subseteq> {p}" "a_live a' = (a_live a1 - {p}) \<union> owned r \<union> leak" "owned r \<inter> a_live a1 = {}"
      by (auto simp: auth_memory_def)
    then have "card leak \<le> card {p}" by (intro card_mono) simp_all
    with l p show ?thesis by (intro exI [of _ leak]) (auto intro: finite_subset)
  qed
  obtain r1 w1 a1 where 1: "get_peer_sock_name Getpeername w a = Some (r1, w1, a1)"
    and g1: "grows a (map_option fst r1) a1" and o1: "os_others w1 = os_others w"
    and ok1: "\<And>p nm. r1 = Some (p, nm) \<Longrightarrow> sockname_ok nm"
    using get_peer_sock_name_grows [OF assms(1,2)] by blast
  note d1 = growsD [OF g1 assms(1)]
  show ?thesis
  proof (cases r1)
    case (Some pn)
    obtain p nm where pn: "pn = (p, nm)" by (cases pn)
    have p: "a_live a1 = insert p (a_live a)" "p \<notin> a_live a" using d1(3,4) Some pn by auto
    have "p \<in> a_live a1" "sockname_ok nm" using p ok1 Some pn by simp_all
    from auth_for_name_memory [OF d1(1,2) this, of lookup_auth wrap display False w1] show ?thesis
    proof (elim disjE exE conjE)
      fix r w' a'
      assume "auth_for_name lookup_auth wrap display False (p, nm) w1 a1 = Some (r, w', a')" "os_others w' = os_others w1"
        and am: "auth_memory a1 p False r a'"
      with 1 o1 Some pn use [OF am p] show ?thesis by (auto simp: xcb_get_auth_info_def)
    qed (use 1 Some pn in \<open>simp add: xcb_get_auth_info_def\<close>)
  next
    case None
    then have l1: "a_live a1 = a_live a" using d1(3) by simp
    obtain r2 w2 a2 where 2: "get_peer_sock_name Getsockname w1 a1 = Some (r2, w2, a2)"
      and g2: "grows a1 (map_option fst r2) a2" and o2: "os_others w2 = os_others w1"
      and ok2: "\<And>p nm. r2 = Some (p, nm) \<Longrightarrow> sockname_ok nm"
      using get_peer_sock_name_grows [OF d1(1,2)] by blast
    note d2 = growsD [OF g2 d1(1)]
    show ?thesis
    proof (cases r2)
      case r2: None
      with 1 2 None l1 d2(3) o1 o2 show ?thesis
        by (auto simp: xcb_get_auth_info_def owned_def intro!: exI [of _ "{}"])
    next
      case (Some pn)
      obtain p nm where pn: "pn = (p, nm)" by (cases pn)
      have p: "a_live a2 = insert p (a_live a)" "p \<notin> a_live a" using d2(3,4) Some pn l1 by auto
      show ?thesis
      proof (cases "nm = Sa_unix")
        case True
        have "p \<in> a_live a2" "sockname_ok nm" using p ok2 Some pn by simp_all
        from auth_for_name_memory [OF d2(1,2) this, of lookup_auth wrap display True w2] show ?thesis
        proof (elim disjE exE conjE)
          fix r w' a'
          assume "auth_for_name lookup_auth wrap display True (p, nm) w2 a2 = Some (r, w', a')" "os_others w' = os_others w2"
            and am: "auth_memory a2 p True r a'"
          with 1 2 o1 o2 None Some pn True use [OF am p] show ?thesis by (auto simp: xcb_get_auth_info_def)
        qed (use 1 2 None Some pn True in \<open>simp add: xcb_get_auth_info_def\<close>)
      next
        case False
        have "p \<in> a_live a2" using p by simp
        then obtain a3 where "a_free (Some p) a2 = Some a3" "a_live a3 = a_live a2 - {p}" by (rule free_one [OF d2(1,2)])
        with 1 2 None Some pn False p o1 o2 show ?thesis
          by (auto simp: xcb_get_auth_info_def owned_def intro!: exI [of _ "{}"])
      qed
    qed
  qed
qed

text \<open>
  C23: \<open>_xcb_get_auth_info\<close> and its memory, when socket names fit into the first buffer and addresses have the
  length of their family. Whatever calls fail on the way and whatever the authority file holds, one of two things happens.
  Either the call returns without freeing a block twice or leaving one: when it succeeds the caller owns exactly the name and
  the data, when it fails nothing; besides at most one block stays allocated that nobody owns. Or it has no
  defined result, and then an entry of the authority file for XDM-AUTHORIZATION-1 has fewer than the 16 bytes the code reads
  without asking for the length.
\<close>

theorem get_auth_info_memory:
  assumes "heap_ok a" and "names_fit a"
  shows "(\<exists>r w' a' leak. xcb_get_auth_info lookup_auth wrap display w a = Some (r, w', a')
      \<and> a_live a' = a_live a \<union> owned r \<union> leak \<and> owned r \<inter> a_live a = {} \<and> card leak \<le> 1 \<and> leak \<inter> a_live a = {})
    \<or> xcb_get_auth_info lookup_auth wrap display w a = None
      \<and> (\<exists>family addr disp auth. lookup_auth family addr disp = Some auth \<and> xa_name auth = XDM_name \<and> length (xa_data auth) < 16)"
proof -
  have short: "\<exists>family addr disp auth. lookup_auth family addr disp = Some auth \<and> xa_name auth = XDM_name \<and> length (xa_data auth) < 16"
    if "\<not> lookup_ok lookup_auth"
    using that by (auto simp: lookup_ok_def key_ok_def not_le)
  from get_auth_info_runs [OF assms, of lookup_auth wrap display w] show ?thesis
  proof
    assume "xcb_get_auth_info lookup_auth wrap display w a = None \<and> \<not> lookup_ok lookup_auth"
    with short show ?thesis by simp
  qed blast
qed

text \<open>A process without memory of its own, and an authority file with a cookie for every address.\<close>

definition sample_auth :: "name_result list \<Rightarrow> name_result list \<Rightarrow> auth_sys" where
  "sample_auth peers socks = \<lparr>a_live = {}, a_next = 0, a_peernames = peers, a_socknames = socks, a_hostname = Some ''h'',
     a_moves = True, a_nonce = 0, a_pid = 1000, a_time = 0\<rparr>"

definition cookie_lookup :: xau_lookup where
  "cookie_lookup f ad d = Some \<lparr>xa_name = MIT_name, xa_data = [1, 2, 3, 4]\<rparr>"

lemma MIT_not_XDM: "MIT_name \<noteq> XDM_name"
proof -
  have "length MIT_name = 18" "length XDM_name = 19" by (simp_all add: MIT_name_def XDM_name_def)
  then show ?thesis by auto
qed

theorem get_auth_info_memory_witness:
  "\<exists>r w' a' leak. xcb_get_auth_info cookie_lookup (\<lambda>p k. p) 0 quiet_os (sample_auth [Name Sa_unix 110] [Name Sa_unix 2]) = Some (r, w', a')
    \<and> a_live a' = owned r \<union> leak \<and> card leak \<le> 1"
proof -
  let ?a = "sample_auth [Name Sa_unix 110] [Name Sa_unix 2]"
  have "heap_ok ?a" "names_fit ?a"
    by (simp_all add: sample_auth_def heap_ok_def names_fit_def name_fits_def sockname_ok_def)
  from get_auth_info_memory [OF this, of cookie_lookup "\<lambda>p k. p" 0 quiet_os] show ?thesis
    using MIT_not_XDM by (auto simp: sample_auth_def cookie_lookup_def)
qed

text \<open>
  The case that is left: with an entry of fewer than 16 bytes for the local display, a client on a local
  socket makes \<open>compute_auth\<close> read behind its data.
\<close>

lemma short_key_overread:
  assumes "heap_ok a" and "a_peernames a = Name Sa_unix k # rs" and "a_socknames a = Name Sa_unix k' # rs'"
    and "k \<le> 124" and "k' \<le> 124" and "a_hostname a = Some h" and "os_mallocs w = []"
    and "\<And>f ad d. lookup_auth f ad d = Some \<lparr>xa_name = XDM_name, xa_data = bs\<rparr>" and "length bs < 16"
  shows "xcb_get_auth_info lookup_auth wrap display w a = None"
proof -
  have "XDM_name \<noteq> []" "XDM_name \<noteq> MIT_name" using MIT_not_XDM by (auto simp: XDM_name_def)
  with assms show ?thesis
    by (simp add: xcb_get_auth_info_def auth_for_name_def get_peer_sock_name_def a_malloc_def malloc_ok_def call_name_def
        get_authptr_def auth_address_def xau_result_def memdup_def compute_auth_def authname_match_iff authnames_def
        xdm_address_def xdm_plain_def next_nonce_def SOCKADDR_SIZE_def INITIAL_SOCKNAME_SLACK_def Let_def)
qed

text \<open>
  The name of the peer is lost. Whenever \<open>_xcb_get_auth_info\<close> succeeds on a socket whose peer has
  a name, the block with that name, the first one it allocated, is still allocated afterwards
  and does not belong to the caller.
\<close>

theorem peer_name_leaked:
  assumes "heap_ok a" and "names_fit a" and "lookup_ok lookup_auth" and "a_peernames a = Name nm k # rs" and "os_mallocs w = []"
    and "xcb_get_auth_info lookup_auth wrap display w a = Some (Some info, w', a')"
  shows "a_next a \<in> a_live a' \<and> a_next a \<notin> owned (Some info)"
proof -
  let ?a1 = "a\<lparr>a_live := insert (a_next a) (a_live a), a_next := a_next a + 1, a_peernames := rs\<rparr>"
  have fit: "k \<le> 124" "sockname_ok nm" using assms(2,4) by (simp_all add: names_fit_def name_fits_def)
  then have gp: "get_peer_sock_name Getpeername w a = Some (Some (a_next a, nm), w, ?a1)"
    using assms(4,5) by (simp add: get_peer_sock_name_def a_malloc_def malloc_ok_def call_name_def SOCKADDR_SIZE_def
        INITIAL_SOCKNAME_SLACK_def)
  have "heap_ok ?a1" "names_fit ?a1" using assms(1,2,4) by (simp_all add: heap_ok_def names_fit_def less_Suc_eq)
  then obtain r w2 a2 where run: "auth_for_name lookup_auth wrap display False (a_next a, nm) w ?a1 = Some (r, w2, a2)"
    and am: "auth_memory ?a1 (a_next a) False r a2"
    using auth_for_name_memory [OF _ _ _ fit(2), of ?a1 "a_next a" lookup_auth wrap display False w] assms(3) by fastforce
  from run gp assms(6) have "r = Some info" "a2 = a'" by (simp_all add: xcb_get_auth_info_def)
  with am have "auth_memory ?a1 (a_next a) False (Some info) a'" by simp
  then show ?thesis by (auto simp: auth_memory_def)
qed

theorem peer_name_leaked_witness:
  "\<exists>info w' a'. xcb_get_auth_info cookie_lookup (\<lambda>p k. p) 0 quiet_os (sample_auth [Name Sa_unix 110] [Name Sa_unix 2]) = Some (Some info, w', a')
    \<and> 0 \<in> a_live a' \<and> 0 \<notin> owned (Some info)"
proof -
  let ?a = "sample_auth [Name Sa_unix 110] [Name Sa_unix 2]"
  have ok: "heap_ok ?a" "names_fit ?a" "lookup_ok cookie_lookup"
    using MIT_not_XDM
    by (simp_all add: sample_auth_def heap_ok_def names_fit_def name_fits_def sockname_ok_def lookup_ok_def key_ok_def cookie_lookup_def)
  have "MIT_name \<noteq> []" by (simp add: MIT_name_def)
  then obtain info w' a' where run: "xcb_get_auth_info cookie_lookup (\<lambda>p k. p) 0 quiet_os ?a = Some (Some info, w', a')"
    by (simp add: xcb_get_auth_info_def auth_for_name_def get_peer_sock_name_def a_malloc_def malloc_ok_def call_name_def
        get_authptr_def auth_address_def xau_result_def cookie_lookup_def memdup_def compute_auth_def authname_match_iff
        authnames_def a_free_def SOCKADDR_SIZE_def INITIAL_SOCKNAME_SLACK_def sample_auth_def quiet_os_def Let_def)
  from peer_name_leaked [OF ok _ _ run, of Sa_unix 110 "[]"] run show ?thesis by (auto simp: sample_auth_def quiet_os_def)
qed

text \<open>
  C40: A long socket name can make \<open>get_peer_sock_name\<close> free a block twice. When the name of the peer
  does not fit into the first buffer, \<open>realloc\<close> moves the buffer, and the second call of \<open>getpeername\<close> then fails, the
  address before the move is freed again. When \<open>realloc\<close> grows the buffer where it is, the same path frees it once.
\<close>

theorem long_name_double_free:
  assumes "heap_ok a" and "a_peernames a = Name nm k # NameErr # rs" and "k > 124" and "os_mallocs w = []"
  shows "(a_moves a \<longrightarrow> xcb_get_auth_info lookup_auth wrap display w a = None)
    \<and> (\<not> a_moves a \<longrightarrow> (\<exists>a'. get_peer_sock_name Getpeername w a = Some (None, w, a') \<and> a_live a' = a_live a))"
proof -
  have "a_next a \<notin> a_live a" using assms(1) by (auto simp: heap_ok_def)
  with assms have "a_moves a \<longrightarrow> get_peer_sock_name Getpeername w a = None"
    "\<not> a_moves a \<longrightarrow> (\<exists>a'. get_peer_sock_name Getpeername w a = Some (None, w, a') \<and> a_live a' = a_live a)"
    by (simp_all add: get_peer_sock_name_def a_malloc_def a_realloc_def malloc_ok_def call_name_def SOCKADDR_SIZE_def
        INITIAL_SOCKNAME_SLACK_def a_free_def Let_def)
  then show ?thesis by (simp add: xcb_get_auth_info_def)
qed

theorem long_name_double_free_witness:
  "xcb_get_auth_info cookie_lookup (\<lambda>p k. p) 0 quiet_os (sample_auth [Name Sa_unix 125, NameErr] []) = None"
  using long_name_double_free [of "sample_auth [Name Sa_unix 125, NameErr] []" Sa_unix 125 "[]"]
  by (simp add: sample_auth_def heap_ok_def quiet_os_def)

text \<open>
  XDM-AUTHORIZATION-1 data for an Internet connection has the layout of the protocol: \<open>XdmcpWrap\<close>
  gets 24 bytes, which are the first eight bytes of the key data, the address and the port of the
  client, the time, and zeros, and the next eight bytes as the key. An IPv4 address written as a
  mapped IPv6 address gives the same data, and the entry of the authority file is looked up under
  the same family and address.
\<close>

theorem xdm_auth_layout:
  assumes "xa_name auth = XDM_name" and "16 \<le> length (xa_data auth)" and "length ip = 4" and "length port = 2"
    and "os_mallocs w = []"
  shows "(\<exists>p a' plain. compute_auth wrap auth (Sa_inet ip port) w a = Some (Some (p, wrap plain (take 8 (drop 8 (xa_data auth)))), w, a')
      \<and> plain = take 8 (xa_data auth) @ ip @ port @ htonl_bytes (a_time a) @ replicate 6 0 \<and> length plain = 24)
    \<and> compute_auth wrap auth (Sa_inet6 (replicate 10 0 @ [255, 255] @ ip) port) w a = compute_auth wrap auth (Sa_inet ip port) w a
    \<and> auth_address (Sa_inet6 (replicate 10 0 @ [255, 255] @ ip) port) = auth_address (Sa_inet ip port)"
proof (intro conjI)
  have name: "xa_name auth = XDM_name" "XDM_name \<noteq> MIT_name" using assms(1) MIT_not_XDM by auto
  have mapped: "xdm_address (Sa_inet6 (replicate 10 0 @ 255 # 255 # ip) port) b = xdm_address (Sa_inet ip port) b" for b
    using assms(3) by (simp add: xdm_address_def v4mapped_def numeral_eq_Suc)
  show "\<exists>p a' plain. compute_auth wrap auth (Sa_inet ip port) w a = Some (Some (p, wrap plain (take 8 (drop 8 (xa_data auth)))), w, a')
      \<and> plain = take 8 (xa_data auth) @ ip @ port @ htonl_bytes (a_time a) @ replicate 6 0 \<and> length plain = 24"
    using name assms(2-5) xdm_plain_layout [OF assms(2-4)]
    by (auto simp: compute_auth_def authname_match_iff authnames_def a_malloc_def malloc_ok_def xdm_address_def)
  obtain p w1 a1 where m: "a_malloc w a = (p, w1, a1)" by (metis prod_cases3)
  show "compute_auth wrap auth (Sa_inet6 (replicate 10 0 @ [255, 255] @ ip) port) w a = compute_auth wrap auth (Sa_inet ip port) w a"
    using name m by (cases p) (simp_all add: compute_auth_def authname_match_iff authnames_def mapped del: replicate.simps)
  show "auth_address (Sa_inet6 (replicate 10 0 @ [255, 255] @ ip) port) = auth_address (Sa_inet ip port)"
    by (simp add: auth_address_def v4mapped_def numeral_eq_Suc)
qed

theorem xdm_auth_layout_witness:
  "auth_address (Sa_inet6 (replicate 10 0 @ [255, 255] @ [10, 0, 0, 1]) [0, 9]) = auth_address (Sa_inet [10, 0, 0, 1] [0, 9])"
  using xdm_auth_layout [of "\<lparr>xa_name = XDM_name, xa_data = replicate 16 7\<rparr>" "[10, 0, 0, 1]" "[0, 9]" quiet_os]
  by (simp add: quiet_os_def)

end
