(* ===== verification/XcbConnect.thy ===== *)
theory XcbConnect
  imports XcbAuth
begin

text \<open>
  Connecting to a display by its name: \<open>xcb_connect_to_display_with_auth_info\<close> and \<open>xcb_connect\<close> of
  \<open>src/src/xcb_util.c\<close>, which put together the parser of display names, the opening of the
  socket, the authorization data and the connection setup.
\<close>

section \<open>Definitions\<close>

text \<open>What the functions take from outside: the resolver, the authority file, encryption and the refusal reasons.\<close>

record world =
  getaddrinfo :: resolver
  XauGetBestAuthByAddr :: xau_lookup
  XdmcpWrap :: "byte list \<Rightarrow> byte list \<Rightarrow> byte list"
  reasons :: setup_reasons

definition xcb_connect_to_display_with_auth_info ::
    "world \<Rightarrow> string option \<Rightarrow> string option \<Rightarrow> xcb_auth_info_t option \<Rightarrow> bool \<Rightarrow> int \<Rightarrow> os \<Rightarrow> sys \<Rightarrow> auth_sys \<Rightarrow>
     (conn_ptr \<times> int \<times> os \<times> sys \<times> auth_sys) option" where
  "xcb_connect_to_display_with_auth_info wd env displayname auth want_screen screen w s a =
    (let ((parsed, out), w) = xcb_parse_display_full True want_screen env displayname
           \<lparr>host = None, protocol = None, displayp = 0, screenp = screen\<rparr> w
     in if \<not> parsed then Some (Error_connection, screenp out, w, s, a)
        else do {
          hst \<leftarrow> host out;
          (f, w, s) \<leftarrow> xcb_open (getaddrinfo wd) hst (protocol out) (displayp out) w s;
          if f = - 1 then Some (Error_connection, screenp out, w, s, a)
          else case auth of
            Some info \<Rightarrow> do {
              (c, w, s) \<leftarrow> xcb_connect_to_fd (reasons wd) f (Some info) w s;
              Some (c, screenp out, w, s, a)
            }
          | None \<Rightarrow> do {
              (ourauth, w, a) \<leftarrow> xcb_get_auth_info (XauGetBestAuthByAddr wd) (XdmcpWrap wd) (displayp out) w a;
              case ourauth of
                Some (n, d, info) \<Rightarrow> do {
                  (c, w, s) \<leftarrow> xcb_connect_to_fd (reasons wd) f (Some info) w s;
                  a \<leftarrow> a_free (Some n) a;
                  a \<leftarrow> a_free (Some d) a;
                  Some (c, screenp out, w, s, a)
                }
              | None \<Rightarrow> do {
                  (c, w, s) \<leftarrow> xcb_connect_to_fd (reasons wd) f None w s;
                  Some (c, screenp out, w, s, a)
                }
            }
        })"

definition xcb_connect :: "world \<Rightarrow> string option \<Rightarrow> string option \<Rightarrow> bool \<Rightarrow> int \<Rightarrow> os \<Rightarrow> sys \<Rightarrow> auth_sys \<Rightarrow>
     (conn_ptr \<times> int \<times> os \<times> sys \<times> auth_sys) option" where
  "xcb_connect wd env displayname want_screen screen w s a =
    xcb_connect_to_display_with_auth_info wd env displayname None want_screen screen w s a"

section \<open>Lemmas\<close>

lemma ulong_to_int_range: "- (2 ^ 31) \<le> ulong_to_int v \<and> ulong_to_int v < 2 ^ 31"
  using sint_greater_eq [of "ucast v :: u32"] sint_less [of "ucast v :: u32"] by (simp add: ulong_to_int_def)

lemma parse_numbers_range: "parse_numbers t = Some (d, sc) \<Longrightarrow> - (2 ^ 31) \<le> d \<and> d < 2 ^ 31"
  using ulong_to_int_range by (auto simp: parse_numbers_def Let_def split: prod.splits if_splits)

lemma parse_host_ok:
  assumes "parse_host wp ws t out w = ((True, out'), w')"
  shows "host out' \<noteq> None \<and> - (2 ^ 31) \<le> displayp out' \<and> displayp out' < 2 ^ 31"
  using assms by (auto simp: parse_host_def parse_error_out_def Let_def dest: parse_numbers_range
      split: option.splits prod.splits if_splits)

lemma parse_host_others: "parse_host wp ws t out w = (r, w') \<Longrightarrow> os_others w' = os_others w"
  by (auto simp: parse_host_def Let_def dest!: call_frames(2) split: option.splits prod.splits if_splits)

lemma parse_display_ok:
  assumes "xcb_parse_display_full wp ws env t out w = ((True, out'), w')"
  shows "host out' \<noteq> None \<and> - (2 ^ 31) \<le> displayp out' \<and> displayp out' < 2 ^ 31"
  using assms by (auto simp: xcb_parse_display_full_def Let_def dest: parse_host_ok
      split: option.splits prod.splits if_splits)

lemma parse_display_others:
  assumes "xcb_parse_display_full wp ws env t out w = (r, w')"
  shows "os_others w' = os_others w"
  using assms by (auto simp: xcb_parse_display_full_def Let_def dest!: parse_host_others call_frames(2)
      split: option.splits prod.splits if_splits)

lemma open_others: "xcb_open gai hst prot display w s = Some (f, w', s') \<Longrightarrow> os_others w' = os_others w"
  by (auto simp: xcb_open_def open_local_def Let_def bind_eq_Some_conv2 dest!: call_frames(2)
      split: prod.splits if_splits)

text \<open>
  A connection attempt that keeps the descriptors: after a failure the open descriptors are those
  from before, after a success the connection has exactly one more, its own, and is fresh.
\<close>

definition keeps_descriptors :: "sys \<Rightarrow> conn_ptr \<Rightarrow> sys \<Rightarrow> bool" where
  "keeps_descriptors s p s' \<longleftrightarrow> (case p of Error_connection \<Rightarrow> sys_open s' = sys_open s
     | Conn c \<Rightarrow> sys_open s' = fd c # sys_open s \<and> fresh_conn (fd c) c \<and> queue_inv c)"

lemma connect_after_open:
  assumes "opened s (f, s1)" and "f \<noteq> - 1" and "xcb_connect_to_fd rs f auth w s1 = Some (p, w', s')" and "os_others w = []"
  shows "keeps_descriptors s p s'"
  using connect_outcome [OF assms(3,4)] assms(1,2)
  by (auto simp: keeps_descriptors_def opened_def fresh_conn_def split: conn_ptr.splits)

text \<open>The branch that looks the authorization up itself and frees it after the setup.\<close>

lemma connect_with_lookup:
  assumes op: "opened s (f, s2)" "f \<noteq> - 1" and w2: "os_others w2 = []"
    and ok: "heap_ok a" "names_fit a" "lookup_ok lookup"
    and run: "do {
       (ourauth, w, a) \<leftarrow> xcb_get_auth_info lookup wrap disp w2 a;
       case ourauth of
         Some (n, d, info) \<Rightarrow> do {
           (c, w, s) \<leftarrow> xcb_connect_to_fd rs f (Some info) w s2;
           a \<leftarrow> a_free (Some n) a;
           a \<leftarrow> a_free (Some d) a;
           Some (c, sc, w, s, a)
         }
       | None \<Rightarrow> do {
           (c, w, s) \<leftarrow> xcb_connect_to_fd rs f None w s2;
           Some (c, sc, w, s, a)
         }
     } = Some (p, scr, w', s', a')"
  shows "keeps_descriptors s p s' \<and> (\<exists>leak. a_live a' = a_live a \<union> leak \<and> card leak \<le> 1)"
proof -
  obtain r w3 a3 leak where gi: "xcb_get_auth_info lookup wrap disp w2 a = Some (r, w3, a3)"
    and o3: "os_others w3 = os_others w2" and live: "a_live a3 = a_live a \<union> owned r \<union> leak" "owned r \<inter> a_live a = {}"
    and leak: "finite leak" "card leak \<le> 1"
    using get_auth_info_runs [OF ok(1,2), of lookup wrap disp w2] ok(3) by blast
  note keeps = connect_after_open [OF op, where w = w3, unfolded o3, OF _ w2]
  show ?thesis
  proof (cases r)
    case None
    with run gi have "a' = a3" "xcb_connect_to_fd rs f None w3 s2 = Some (p, w', s')"
      by (auto simp: bind_eq_Some_conv2)
    with keeps live leak None show ?thesis by (auto simp: owned_def)
  next
    case (Some ndi)
    obtain n d info where ndi: "ndi = (n, d, info)" by (metis prod_cases3)
    with run gi Some obtain a4 where a4: "a_free (Some n) a3 = Some a4" "a_free (Some d) a4 = Some a'"
      and c: "xcb_connect_to_fd rs f (Some info) w3 s2 = Some (p, w', s')"
      by (auto simp: bind_eq_Some_conv2)
    have "a_live a' = a_live a3 - {n} - {d}" using a4 by (auto simp: a_free_def split: if_splits)
    then have "a_live a' = a_live a \<union> (leak - {n, d} - a_live a)" using live Some ndi by (auto simp: owned_def)
    moreover have "card (leak - {n, d} - a_live a) \<le> 1"
      by (rule order_trans [OF card_mono [OF leak(1)] leak(2)]) blast
    ultimately show ?thesis using keeps [OF c] by blast
  qed
qed


definition sample_world :: world where
  "sample_world = \<lparr>getaddrinfo = (\<lambda>_ _ _. None), XauGetBestAuthByAddr = (\<lambda>_ _ _. None), XdmcpWrap = (\<lambda>p k. p),
     reasons = sample_reasons\<rparr>"


end
