(* ===== verification/XcbSession.thy ===== *)
theory XcbSession
  imports XcbConnect XcbWait
begin

text \<open>
  A client at work: any number of requests, flushes and polls on one connection, in any order,
  while the kernel accepts and delivers bytes as it likes. The abstract specification is a pipe: a request appends its
  bytes to what has been sent, and nothing else changes that.
\<close>

section \<open>The steps of a session\<close>

text \<open>
  A state is the connection, the system, the bytes of all requests so far (the abstract pipe) and, for each
  request, its 64 bit number and what \<open>xcb_send_request\<close> returned for it. Requests are raw ones, and those whose preparation
  needs no round trip: core requests, and requests of extensions already in the cache, of ordinary length; a request the
  library refuses puts the connection in error. \<open>Kernel\<close> gives the system calls new results.
\<close>

type_synonym session = "xcb_connection_t \<times> os \<times> byte list \<times> (u64 \<times> u32) list"

text \<open>The buffers that go out for a request, without its sync request.\<close>

definition goes_out :: "generated \<Rightarrow> u32 \<Rightarrow> iovec list \<Rightarrow> xcb_protocol_request_t \<Rightarrow> xcb_connection_t \<Rightarrow> os \<Rightarrow> iovecs \<Rightarrow> u32 \<Rightarrow> bool" where
  "goes_out gen flags v req c w vs big \<longleftrightarrow>
    (if has_flag flags XCB_REQUEST_RAW then raw_buffers v = Some vs \<and> v \<noteq> [] \<and> big = 0 \<and> concat vs \<noteq> []
     else prepare_request gen v req c w = Some (Prepared vs big, c, w))"

inductive session_step :: "generated \<Rightarrow> session \<Rightarrow> session \<Rightarrow> bool" for gen where
  Send: "\<not> has_error c \<Longrightarrow> goes_out gen flags v req c w vs big
    \<Longrightarrow> xcb_send_request gen flags spare v req c w = Some (r, c', w')
    \<Longrightarrow> session_step gen (c, w, S, R)
         (c', w', S @ (if out_request (c_out c') = out_request (c_out c) + 1 then [] else sync_req) @ wire_form big vs,
          R @ [(out_request (c_out c'), r)])"
| Refuse: "\<not> has_error c \<Longrightarrow> \<not> has_flag flags XCB_REQUEST_RAW \<Longrightarrow> prepare_request gen v req c w = Some (Rejected, c1, w1)
    \<Longrightarrow> xcb_send_request gen flags spare v req c w = Some (r, c', w') \<Longrightarrow> session_step gen (c, w, S, R) (c', w', S, R)"
| Flush: "xcb_flush c w = Some (ret, c', w') \<Longrightarrow> session_step gen (c, w, S, R) (c', w', S, R)"
| Poll_event: "xcb_poll_for_event c w = Some (e, c', w') \<Longrightarrow> session_step gen (c, w, S, R) (c', w', S, R)"
| Poll_reply: "xcb_poll_for_reply k want c w = (e, c', w') \<Longrightarrow> session_step gen (c, w, S, R) (c', w', S, R)"
| Kernel: "session_step gen (c, w, S, R) (c, w\<lparr>os_polls := ps, os_writevs := ws, os_recvs := rs\<rparr>, S, R)"

text \<open>
  The concrete state implements the pipe; requests have increasing numbers, of which each uses up at most two, and
  what is returned is the low half of the number.
\<close>

definition session_ok :: "session \<Rightarrow> bool" where
  "session_ok s = (case s of (c, w, S, R) \<Rightarrow> alone c w \<and> queue_inv c \<and> outstream c w = S \<and> sorted_wrt (<) (map fst R)
     \<and> (\<forall>(n, r) \<in> set R. 0 < n \<and> n \<le> out_request (c_out c) \<and> r = ucast n) \<and> unat (out_request (c_out c)) \<le> 2 * length R)"

section \<open>Every step keeps the relation\<close>

lemma get_event_frame:
  "get_event c = (e, c') \<Longrightarrow> c_out c' = c_out c \<and> has_error c' = has_error c"
  by (auto simp: get_event_def split: list.splits)

text \<open>What the reading functions leave alone, as far as a session depends on it.\<close>

definition keeps_output :: "xcb_connection_t \<Rightarrow> os \<Rightarrow> xcb_connection_t \<Rightarrow> os \<Rightarrow> bool" where
  "keeps_output c w c' w' \<longleftrightarrow> c_out c' = c_out c \<and> (has_error c \<longrightarrow> has_error c') \<and> os_others w' = os_others w \<and> os_wire w' = os_wire w"

lemma poll_event_frame:
  assumes "xcb_poll_for_event c w = Some (e, c', w')"
  shows "keeps_output c w c' w'"
proof (cases "has_error c")
  case False
  obtain e1 c1 where ge: "get_event c = (e1, c1)" by (metis surj_pair)
  note g1 = get_event_frame [OF ge]
  show ?thesis
  proof (cases e1)
    case None
    with assms False ge obtain ok c2 w2 where rd: "xcb_in_read c1 w = Some (ok, c2, w2)"
      and res: "(if ok then let (e, c) = get_event c2 in Some (e, c, w2) else Some (None, c2, w2)) = Some (e, c', w')"
      by (auto simp: xcb_poll_for_event_def bind_eq_Some_conv2)
    from res have "c_out c' = c_out c2 \<and> has_error c' = has_error c2 \<and> w' = w2"
      by (auto split: if_splits prod.splits dest: get_event_frame)
    with reads_only_in_read(1) [OF rd] g1 False show ?thesis by (simp add: keeps_output_def reads_only_def)
  next
    case (Some x)
    with assms False ge g1 show ?thesis by (auto simp: xcb_poll_for_event_def keeps_output_def)
  qed
qed (use assms in \<open>simp add: xcb_poll_for_event_def keeps_output_def\<close>)

lemma reply_head_frame: "reply_head k c w = Some (h, c', w') \<Longrightarrow> keeps_output c w c' w'"
  by (auto simp: reply_head_def keeps_output_def Let_def dest!: call_frames(2) malloc_ok_frame
      split: if_splits prod.splits option.splits list.splits)

lemma poll_reply_frame:
  assumes "xcb_poll_for_reply k want c w = (e, c', w')"
  shows "keeps_output c w c' w'"
  using assms reply_head_frame
  by (auto simp: xcb_poll_for_reply_def poll_for_reply_def keeps_output_def split: if_splits option.splits)

lemma session_ok_output:
  assumes "session_ok (c, w, S, R)" and "keeps_output c w c' w'"
  shows "session_ok (c', w', S, R)"
  using assms by (auto simp: session_ok_def alone_def queue_inv_def outstream_def keeps_output_def)

lemma goes_out_send:
  assumes "goes_out gen flags v req c w vs big" and "\<not> has_error c"
    and "xcb_send_request gen flags spare v req c w = Some (r, c', w')"
  shows "send_prepared flags spare vs big req c w = Some (r, c', w') \<and> wire_form big vs \<noteq> []"
proof (cases "has_flag flags XCB_REQUEST_RAW")
  case True
  with assms show ?thesis by (auto simp: goes_out_def xcb_send_request_def wire_form_def)
next
  case False
  with assms have prep: "prepare_request gen v req c w = Some (Prepared vs big, c, w)" by (simp add: goes_out_def)
  from prepared_nonempty [OF this] False assms(2,3) prep show ?thesis by (simp add: xcb_send_request_def)
qed

lemma set_opcode_None: "set_opcode gen req b c w = Some (None, c', w') \<Longrightarrow> has_error c'"
  by (auto simp: set_opcode_def xcb_conn_shutdown_def bind_eq_Some_conv2 split: option.split_asm if_split_asm)

lemma encode_length_Rejected: "encode_length gen b vs c w = Some (Rejected, c', w') \<Longrightarrow> has_error c'"
  by (auto simp: encode_length_def xcb_conn_shutdown_def bind_eq_Some_conv2 Let_def split: option.split_asm if_split_asm)

lemma prepare_rejected:
  assumes "prepare_request gen v req c w = Some (Rejected, c', w')"
  shows "has_error c'"
proof -
  from assms obtain b rest where v: "v = Buf b # rest" "\<not> length b < 4"
    by (auto simp: prepare_request_def split: list.split_asm iovec.split_asm if_split_asm)
  with assms obtain b' c1 w1 where so: "set_opcode gen req b c w = Some (b', c1, w1)"
    by (auto simp: prepare_request_def bind_eq_Some_conv2)
  with assms v set_opcode_None show ?thesis
    by (cases b') (auto simp: prepare_request_def bind_eq_Some_conv2 dest: encode_length_Rejected)
qed

lemma session_ok_send:
  assumes "session_ok (c, w, S, R)" and "\<not> has_error c" and out: "goes_out gen flags v req c w vs big"
    and run: "xcb_send_request gen flags spare v req c w = Some (r, c', w')" and len: "length R + 1 < 2 ^ 62"
  shows "has_error c' \<or> session_ok (c', w',
    S @ (if out_request (c_out c') = out_request (c_out c) + 1 then [] else sync_req) @ wire_form big vs,
    R @ [(out_request (c_out c'), r)])"
proof -
  have al: "alone c w" and qi: "queue_inv c" and st: "outstream c w = S" and so: "sorted_wrt (<) (map fst R)"
    and R: "\<And>n x. (n, x) \<in> set R \<Longrightarrow> 0 < n \<and> n \<le> out_request (c_out c) \<and> x = ucast n"
    and two: "unat (out_request (c_out c)) \<le> 2 * length R"
    using assms(1) by (auto simp: session_ok_def)
  have lt63: "unat (out_request (c_out c)) + 2 < 2 ^ 63" using two len by simp
  from goes_out_send [OF out assms(2) run] have sp: "send_prepared flags spare vs big req c w = Some (r, c', w')"
    and ne: "wire_form big vs \<noteq> []" by simp_all
  from send_prepared_spec [OF sp al lt63] obtain synced where al': "alone c' w'"
    and num: "out_request (c_out c') = out_request (c_out c) + (if synced then 2 else 1)"
    and res: "r = ucast (out_request (c_out c')) \<and> outstream c' w' = outstream c w @ (if synced then sync_req else []) @ wire_form big vs
      \<or> r = 0 \<and> has_error c'" by blast
  have un: "unat (out_request (c_out c')) = unat (out_request (c_out c)) + (if synced then 2 else 1)"
    using num lt63 by (simp add: unat_word_ariths)
  have syn: "out_request (c_out c') = out_request (c_out c) + 1 \<longleftrightarrow> \<not> synced"
    using num by (cases synced) simp_all
  have more: "n < out_request (c_out c') \<and> n \<le> out_request (c_out c')" if "(n, x) \<in> set R" for n x
    using R [OF that] un by (auto simp: word_less_nat_alt word_le_nat_alt)
  show ?thesis
  proof (cases "has_error c'")
    case False
    with res have r: "r = ucast (out_request (c_out c'))"
      and o: "outstream c' w' = outstream c w @ (if synced then sync_req else []) @ wire_form big vs" by auto
    have "queue_inv c'" by (rule send_prepared_queue_inv [OF sp al qi lt63 ne])
    moreover have "sorted_wrt (<) (map fst (R @ [(out_request (c_out c'), r)]))"
      using so more by (auto simp: sorted_wrt_append)
    moreover have "\<forall>(n, x) \<in> set (R @ [(out_request (c_out c'), r)]). 0 < n \<and> n \<le> out_request (c_out c') \<and> x = ucast n"
      using R more r un by (auto simp: word_less_nat_alt)
    moreover have "unat (out_request (c_out c')) \<le> 2 * length (R @ [(out_request (c_out c'), r)])"
      using two un by simp
    ultimately show ?thesis using al' o st syn by (simp add: session_ok_def)
  qed simp
qed

lemma session_ok_flush:
  assumes "session_ok (c, w, S, R)" and "xcb_flush c w = Some (ret, c', w')" and "\<not> has_error c"
  shows "has_error c' \<or> session_ok (c', w', S, R)"
proof -
  from assms(2,3) have run: "xcb_out_flush_to (out_request (c_out c)) c w = Some (ret, c', w')"
    by (simp add: xcb_flush_def)
  have "alone c w" "queue_inv c" using assms(1) by (simp_all add: session_ok_def)
  from flush_to_spec [OF run this] assms(1) show ?thesis by (cases ret) (auto simp: session_ok_def outstream_def)
qed

text \<open>After \<open>2 ^ 62\<close> requests the 64 bit numbers may leave the range in which they compare as integers.\<close>

definition session_inv :: "session \<Rightarrow> bool" where
  "session_inv s \<longleftrightarrow> has_error (fst s) \<or> 2 ^ 62 \<le> length (snd (snd (snd s))) \<or> session_ok s"

lemma session_step_inv: "session_step gen s s' \<Longrightarrow> session_inv s \<Longrightarrow> session_inv s'"
proof (induction rule: session_step.induct)
  case (Send c flags v req w vs big spare r c' w' S R)
  show ?case
  proof (cases "length R + 1 < 2 ^ 62")
    case True
    with Send.prems Send.hyps(1) have "session_ok (c, w, S, R)" by (simp add: session_inv_def)
    from session_ok_send [OF this Send.hyps True] show ?thesis by (auto simp: session_inv_def)
  qed (simp add: session_inv_def)
next
  case (Refuse c flags v req w c1 w1 spare r c' w' S R)
  then have "c' = c1" by (cases "v = []") (simp_all add: xcb_send_request_def)
  with prepare_rejected [OF Refuse.hyps(3)] show ?case by (simp add: session_inv_def)
next
  case (Flush c w ret c' w' S R)
  then show ?case using session_ok_flush [of c w S R ret c' w']
    by (cases "has_error c") (auto simp: session_inv_def xcb_flush_def)
next
  case (Poll_event c w e c' w' S R)
  then show ?case using poll_event_frame [of c w e c' w'] session_ok_output [of c w S R c' w']
    by (auto simp: session_inv_def keeps_output_def)
next
  case (Poll_reply k want c w e c' w' S R)
  then show ?case using poll_reply_frame [of k want c w e c' w'] session_ok_output [of c w S R c' w']
    by (auto simp: session_inv_def keeps_output_def)
next
  case (Kernel c w S R ps ws rs)
  then show ?case by (auto simp: session_inv_def session_ok_def alone_def outstream_def)
qed

lemma session_reachable: "(session_step gen)\<^sup>*\<^sup>* s s' \<Longrightarrow> session_inv s \<Longrightarrow> session_inv s'"
  by (induction rule: rtranclp_induct) (auto intro: session_step_inv)

section \<open>The connection is a pipe\<close>

text \<open>
  C2: A connection implements a pipe. Start with a connection as \<open>xcb_connect_to_fd\<close> returns it. After any
  number of requests (raw, or prepared without a round trip), flushes and polls, fewer than \<open>2 ^ 62\<close> requests in all, with whatever the
  kernel accepts and delivers in between, either the connection is in error, or the bytes the kernel has taken
  followed by those in the output queue are exactly the bytes of the requests (and sync requests), in order,
  the 64 bit numbers of the requests increase from 1, and what was returned for a request is the low half of its number. So
  with fewer than \<open>2 ^ 31\<close> requests the numbers returned increase too and none is 0, the failure value.
\<close>

theorem session_is_pipe:
  assumes "fresh_conn f c" and "os_others w = []" and "(session_step gen)\<^sup>*\<^sup>* (c, w, os_wire w, []) (c', w', S, R)"
    and "length R < 2 ^ 62"
  shows "has_error c' \<or> os_wire w' @ out_queue (c_out c') = S \<and> queue_inv c'
    \<and> sorted_wrt (<) (map fst R) \<and> (\<forall>(n, r) \<in> set R. 0 < n \<and> r = ucast n)
    \<and> (length R < 2 ^ 31 \<longrightarrow> sorted_wrt (<) (map snd R) \<and> 0 \<notin> snd ` set R)"
proof -
  have "session_ok (c, w, os_wire w, [])"
    using assms(1,2) by (auto simp: session_ok_def fresh_conn_def alone_def queue_inv_def low_half_def outstream_def)
  then have "session_inv (c, w, os_wire w, [])" by (simp add: session_inv_def)
  from session_reachable [OF assms(3) this] assms(4) have inv: "has_error c' \<or> session_ok (c', w', S, R)"
    by (simp add: session_inv_def)
  have "sorted_wrt (<) (map snd R) \<and> 0 \<notin> snd ` set R" if ok: "session_ok (c', w', S, R)" and few: "length R < 2 ^ 31"
  proof -
    have low: "unat x = unat n" if "(n, x) \<in> set R" for n x
    proof -
      from that ok have "n \<le> out_request (c_out c')" "x = ucast n" "unat (out_request (c_out c')) \<le> 2 * length R"
        by (auto simp: session_ok_def)
      with few show ?thesis by (simp add: unat_low32 word_le_nat_alt)
    qed
    have "sorted_wrt (\<lambda>p q. fst p < fst q) R" using ok by (simp add: session_ok_def sorted_wrt_map)
    then have "sorted_wrt (\<lambda>p q. snd p < snd q) R"
      by (rule sorted_wrt_mono_rel [rotated]) (auto simp: word_less_nat_alt dest!: low)
    moreover have "0 \<notin> snd ` set R" using ok low by (force simp: session_ok_def word_less_nat_alt)
    ultimately show ?thesis by (simp add: sorted_wrt_map)
  qed
  with inv show ?thesis by (auto simp: session_ok_def outstream_def)
qed

theorem session_is_pipe_witness:
  "\<exists>c' w' S R. (session_step sample_gen)\<^sup>*\<^sup>* (session_conn, quiet_os, [], []) (c', w', S, R)
     \<and> S = [127, 0, 1, 0] \<and> R = [(1, 1)] \<and> os_wire w' @ out_queue (c_out c') = S"
proof -
  let ?c = "set_out_queue [127, 0, 1, 0] (bump_request session_conn)"
  have p: "prepare_request sample_gen [Buf [0, 0, 0, 0]] sample_req session_conn quiet_os
      = Some (Prepared [[127, 0, 1, 0]] 0, session_conn, quiet_os)"
    by (simp add: prepare_request_def set_opcode_def encode_length_def set_length_field_def bytes16_def
        sample_req_def session_conn_def sample_conn_def zero_defs)
  have h: "\<not> has_error session_conn" "\<not> has_flag 0 XCB_REQUEST_RAW" "out_request (c_out session_conn) = 0"
    by (simp_all add: session_conn_def sample_conn_def flag_consts zero_defs)
  have "send_prepared 0 2 [[127, 0, 1, 0]] 0 sample_req session_conn quiet_os = Some (1, ?c, quiet_os)"
    by (simp add: send_prepared_def glx_workaround_def number_request_def sync_loop.simps needs_sync_def
        add_prefix_def write_block_def XCB_QUEUE_BUFFER_SIZE_def sample_req_def session_conn_def sample_conn_def zero_defs)
  with h p have run: "xcb_send_request sample_gen 0 2 [Buf [0, 0, 0, 0]] sample_req session_conn quiet_os = Some (1, ?c, quiet_os)"
    by (simp add: xcb_send_request_def)
  have out: "goes_out sample_gen 0 [Buf [0, 0, 0, 0]] sample_req session_conn quiet_os [[127, 0, 1, 0]] 0"
    using h(2) p by (simp add: goes_out_def)
  have "session_step sample_gen (session_conn, quiet_os, os_wire quiet_os, []) (?c, quiet_os, [127, 0, 1, 0], [(1, 1)])"
    using session_step.Send [OF h(1) out run, of "[]" "[]"] h(3) by (simp add: bump_request_def wire_form_def quiet_os_def)
  then have st: "(session_step sample_gen)\<^sup>*\<^sup>* (session_conn, quiet_os, os_wire quiet_os, []) (?c, quiet_os, [127, 0, 1, 0], [(1, 1)])"
    by (rule r_into_rtranclp)
  have "fresh_conn 0 session_conn" "os_others quiet_os = []"
    by (simp_all add: fresh_conn_def session_conn_def sample_conn_def zero_defs)
  from session_is_pipe [OF this st] have "has_error ?c \<or> os_wire quiet_os @ out_queue (c_out ?c) = [127, 0, 1, 0]" by auto
  moreover have "\<not> has_error ?c" using h(1) by (simp add: bump_request_def set_out_queue_def)
  moreover have w: "os_wire quiet_os = []" by (simp add: quiet_os_def)
  ultimately show ?thesis using st [unfolded w] by blast
qed

end
