(* ===== verification/XcbThreads.thy ===== *)
theory XcbThreads
  imports XcbWait
begin

text \<open>
  Several threads on one connection. The functions of \<open>XcbConn\<close>, \<open>XcbOut\<close> and \<open>XcbWait\<close> run
  one call from start to end and take the other threads from a script. Here the calls that block are cut
  at the places where the code lets go of \<open>iolock\<close>: inside \<open>poll\<close>, and on the condition variables
  of the writing side, of the events and of each waiting reader. Between two such places a thread
  runs alone. The cut functions agree with those of the other theories (\<open>cut_calls_agree\<close>), and
  they are the steps of a relation on a list of threads, one connection and one system.

  The properties are those the locking of the library is for: at most one thread writes, the
  output queue is left alone meanwhile, the list of readers holds the threads that wait and no
  others, and no wake-up is lost.
\<close>

section \<open>The calls, cut where the lock is released\<close>

text \<open>The two halves of \<open>_xcb_conn_wait\<close> around \<open>poll\<close>.\<close>

definition conn_wait_enter :: "iovecs option \<Rightarrow> xcb_connection_t \<Rightarrow> xcb_connection_t" where
  "conn_wait_enter vector c =
     (let c = add_reading 1 c in if vector \<noteq> None then add_writing 1 c else c)"

definition conn_wait_leave :: "poll_result \<Rightarrow> iovecs option \<Rightarrow> xcb_connection_t \<Rightarrow> os \<Rightarrow>
    (bool \<times> iovecs option \<times> xcb_connection_t \<times> os) option" where
  "conn_wait_leave p vector c w =
     (let events = (if vector \<noteq> None then POLLIN OR POLLOUT else POLLIN)
      in do {
        (ret, vector, c, w) \<leftarrow>
          (case p of
             PollOk revents \<Rightarrow>
               (if revents AND NOT events \<noteq> 0 then Some (False, vector, xcb_conn_shutdown c, w)
                else conn_wait_io revents vector c w)
           | _ \<Rightarrow> Some (False, vector, xcb_conn_shutdown c, w));
        let c = (if vector \<noteq> None then add_writing (- 1) c else c);
            c = add_reading (- 1) c
        in Some (ret, vector, c, w)
      })"

text \<open>
  What a thread does next: it is outside of the library with the result of its last call, inside
  \<open>poll\<close>, or asleep on a condition variable. The flag of a sleeping thread says whether it has been
  woken. A thread that sends remembers why: for \<open>xcb_flush\<close>, for the request with a number, or
  before it waits for a reply.
\<close>

datatype outcome =
    Ret_flush bool
  | Ret_request u32
  | Ret_reply poll_result_t
  | Ret_event "packet option"

datatype purpose = For_flush | For_request u32 | For_reply u32 bool

datatype control =
    Outside "outcome option"
  | In_poll_send iovecs purpose
  | In_poll_reply reader_list bool
  | In_poll_event
  | On_out_send bool iovecs purpose
  | On_out_flush bool u64 purpose
  | On_out_request bool u32 nat iovecs u32 xcb_protocol_request_t
  | On_reader bool reader_list bool
  | On_event bool

type_synonym run = "control \<times> xcb_connection_t \<times> os"

definition no_reply :: poll_result_t where
  "no_reply = \<lparr>pr_reply = None, pr_error = None\<rparr>"

text \<open>\<open>xcb_wait_for_reply\<close> from its loop on: look for the reply, otherwise wait.\<close>

definition reply_finish :: "reader_list \<Rightarrow> poll_result_t \<Rightarrow> xcb_connection_t \<Rightarrow> os \<Rightarrow> run" where
  "reply_finish reader r c w =
     (let c = map_readers (remove_reader reader) c
      in (Outside (Some (Ret_reply r)), c, xcb_in_wake_up_next_reader c w))"

definition run_reply :: "reader_list \<Rightarrow> bool \<Rightarrow> xcb_connection_t \<Rightarrow> os \<Rightarrow> run" where
  "run_reply reader want_error c w =
     (case poll_for_reply (rd_request reader) want_error c w of
        (Some r, c, w) \<Rightarrow> reply_finish reader r c w
      | (None, c, w) \<Rightarrow>
          (if reading (c_in c) \<noteq> 0 then (On_reader False reader want_error, c, w)
           else (In_poll_reply reader want_error, conn_wait_enter None c, w)))"

definition start_reply :: "u32 \<Rightarrow> bool \<Rightarrow> xcb_connection_t \<Rightarrow> os \<Rightarrow> run" where
  "start_reply request want_error c w =
     (let reader = \<lparr>rd_request = request, rd_cond = os_next_cond w\<rparr>
      in run_reply reader want_error (map_readers (insert_reader reader) c)
           (w\<lparr>os_next_cond := os_next_cond w + 1\<rparr>))"

text \<open>\<open>_xcb_out_send\<close> and what its caller does with the result.\<close>

definition send_done :: "bool \<Rightarrow> purpose \<Rightarrow> xcb_connection_t \<Rightarrow> os \<Rightarrow> run" where
  "send_done ret purp c w = (case purp of
       For_flush \<Rightarrow> (Outside (Some (Ret_flush ret)), c, w)
     | For_request n \<Rightarrow>
         (if ret then (Outside (Some (Ret_request n)), c, w)
          else (Outside (Some (Ret_request 0)), xcb_conn_shutdown c, w))
     | For_reply request want_error \<Rightarrow>
         (if ret then start_reply request want_error c w
          else (Outside (Some (Ret_reply no_reply)), c, xcb_in_wake_up_next_reader c w)))"

definition run_send :: "bool \<Rightarrow> iovecs \<Rightarrow> purpose \<Rightarrow> xcb_connection_t \<Rightarrow> os \<Rightarrow> run" where
  "run_send ret vector purp c w =
     (if ret \<and> vector \<noteq> [] then
        (if writing (c_out c) \<noteq> 0 then (On_out_send False vector purp, c, w)
         else (In_poll_send vector purp, conn_wait_enter (Some vector) c, w))
      else
        let c = c\<lparr>c_out := (c_out c)\<lparr>request_written := out_request (c_out c)\<rparr>\<rparr>;
            w = os_signal OutCond w;
            w = xcb_in_wake_up_next_reader c w
        in send_done ret purp c w)"

text \<open>\<open>_xcb_out_flush_to\<close>, from its start and from its loop.\<close>

definition flush_wait :: "u64 \<Rightarrow> purpose \<Rightarrow> xcb_connection_t \<Rightarrow> os \<Rightarrow> run option" where
  "flush_wait request purp c w =
     (if writing (c_out c) \<noteq> 0 then Some (On_out_flush False request purp, c, w)
      else if \<not> XCB_SEQUENCE_COMPARE (request_written (c_out c)) (\<ge>) request then None
      else Some (send_done True purp c w))"

definition run_flush :: "u64 \<Rightarrow> purpose \<Rightarrow> xcb_connection_t \<Rightarrow> os \<Rightarrow> run option" where
  "run_flush request purp c w =
     (if \<not> XCB_SEQUENCE_COMPARE request (\<le>) (out_request (c_out c)) then None
      else if XCB_SEQUENCE_COMPARE (request_written (c_out c)) (\<ge>) request then Some (send_done True purp c w)
      else if out_queue (c_out c) \<noteq> [] then
        Some (run_send True [out_queue (c_out c)] purp (set_out_queue [] c) w)
      else flush_wait request purp c w)"

text \<open>\<open>xcb_send_request\<close> from taking the lock on.\<close>

definition run_request :: "u32 \<Rightarrow> nat \<Rightarrow> iovecs \<Rightarrow> u32 \<Rightarrow> xcb_protocol_request_t \<Rightarrow> xcb_connection_t \<Rightarrow> os \<Rightarrow> run option" where
  "run_request flags spare vector big req c w =
     (if writing (c_out c) \<noteq> 0 then Some (On_out_request False flags spare vector big req, c, w)
      else do {
        wa \<leftarrow> glx_workaround req (hd vector);
        (c, w) \<leftarrow> get_socket_back c w;
        (synced, c, w) \<leftarrow> number_request req wa (flags AND NOT XCB_REQUEST_RAW) c w;
        (spare, vector) \<leftarrow> add_prefix synced big spare vector;
        let request = ucast (out_request (c_out c));
            (spare, vector, q) = fill_queue spare vector (out_queue (c_out c))
        in if vector = [] then Some (Outside (Some (Ret_request request)), set_out_queue q c, w)
           else if spare = 0 then None
           else Some (run_send True (q # vector) (For_request request) (set_out_queue [] c) w)
      })"

text \<open>\<open>xcb_wait_for_event\<close>.\<close>

definition run_event :: "xcb_connection_t \<Rightarrow> os \<Rightarrow> run" where
  "run_event c w =
     (case get_event c of
        (Some e, c) \<Rightarrow> (Outside (Some (Ret_event (Some e))), c, xcb_in_wake_up_next_reader c w)
      | (None, c) \<Rightarrow>
          (if reading (c_in c) \<noteq> 0 then (On_event False, c, w)
           else (In_poll_event, conn_wait_enter None c, w)))"

text \<open>The start of a call, and how a thread goes on after \<open>poll\<close> or a condition variable.\<close>

datatype blocking_call =
    Do_flush
  | Do_request u32 nat iovecs u32 xcb_protocol_request_t
  | Do_wait_for_reply u32 bool
  | Do_wait_for_event

fun start :: "blocking_call \<Rightarrow> xcb_connection_t \<Rightarrow> os \<Rightarrow> run option" where
  "start Do_flush c w =
     (if has_error c then Some (Outside (Some (Ret_flush False)), c, w)
      else run_flush (out_request (c_out c)) For_flush c w)"
| "start (Do_request flags spare vector big req) c w = run_request flags spare vector big req c w"
| "start (Do_wait_for_reply request want_error) c w =
     (if has_error c then Some (Outside (Some (Ret_reply no_reply)), c, w)
      else if return_socket (c_out c) \<noteq> None then Some (start_reply request want_error c w)
      else run_flush (widen_request (out_request (c_out c)) request) (For_reply request want_error) c w)"
| "start Do_wait_for_event c w =
     (if has_error c then Some (Outside (Some (Ret_event None)), c, w) else Some (run_event c w))"

fun resume :: "poll_result \<Rightarrow> control \<Rightarrow> xcb_connection_t \<Rightarrow> os \<Rightarrow> run option" where
  "resume p (Outside r) c w = None"
| "resume p (In_poll_send vector purp) c w = do {
     (ret, vec, c, w) \<leftarrow> conn_wait_leave p (Some vector) c w;
     vector \<leftarrow> vec;
     Some (run_send ret vector purp c w)
   }"
| "resume p (In_poll_reply reader want_error) c w = do {
     (ret, _, c, w) \<leftarrow> conn_wait_leave p None c w;
     Some (if ret then run_reply reader want_error c w else reply_finish reader no_reply c w)
   }"
| "resume p In_poll_event c w = do {
     (ret, _, c, w) \<leftarrow> conn_wait_leave p None c w;
     Some (if ret then run_event c w
           else (Outside (Some (Ret_event None)), c, xcb_in_wake_up_next_reader c w))
   }"
| "resume p (On_out_send b vector purp) c w = Some (run_send True vector purp c w)"
| "resume p (On_out_flush b request purp) c w = flush_wait request purp c w"
| "resume p (On_out_request b flags spare vector big req) c w = run_request flags spare vector big req c w"
| "resume p (On_reader b reader want_error) c w = Some (run_reply reader want_error c w)"
| "resume p (On_event b) c w = Some (run_event c w)"


section \<open>The cut calls agree with the whole ones\<close>

text \<open>
  One thread, with the others as a script again: it goes on until it is outside of the library.
  Not returning is \<open>None\<close>.
\<close>

fun in_poll :: "control \<Rightarrow> bool" where
  "in_poll (In_poll_send v p) = True"
| "in_poll (In_poll_reply rd e) = True"
| "in_poll In_poll_event = True"
| "in_poll _ = False"

partial_function (option) complete :: "control \<Rightarrow> xcb_connection_t \<Rightarrow> os \<Rightarrow>
    (outcome \<times> xcb_connection_t \<times> os) option" where
  "complete t c w =
     (case t of
        Outside r \<Rightarrow> (case r of None \<Rightarrow> None | Some x \<Rightarrow> Some (x, c, w))
      | _ \<Rightarrow>
          (if in_poll t then
             let (p, ps) = poll_retry (os_polls w);
                 (c, w) = os_yield c (w\<lparr>os_polls := ps\<rparr>)
             in do { (t, c, w) \<leftarrow> resume p t c w; complete t c w }
           else do {
             (c, w) \<leftarrow> pthread_cond_wait c w;
             (t, c, w) \<leftarrow> resume PollFail t c w;
             complete t c w
           }))"

definition complete_run :: "run \<Rightarrow> (outcome \<times> xcb_connection_t \<times> os) option" where
  "complete_run r = (case r of (t, c, w) \<Rightarrow> complete t c w)"

fun whole_call :: "blocking_call \<Rightarrow> xcb_connection_t \<Rightarrow> os \<Rightarrow> (outcome \<times> xcb_connection_t \<times> os) option" where
  "whole_call Do_flush c w = do { (ok, c, w) \<leftarrow> xcb_flush c w; Some (Ret_flush ok, c, w) }"
| "whole_call (Do_request flags spare vector big req) c w =
     do { (n, c, w) \<leftarrow> send_prepared flags spare vector big req c w; Some (Ret_request n, c, w) }"
| "whole_call (Do_wait_for_reply request want_error) c w =
     do { (r, c, w) \<leftarrow> xcb_wait_for_reply request want_error c w; Some (Ret_reply r, c, w) }"
| "whole_call Do_wait_for_event c w = do { (e, c, w) \<leftarrow> xcb_wait_for_event c w; Some (Ret_event e, c, w) }"

lemma complete_simps:
  "complete (Outside r) c w = (case r of None \<Rightarrow> None | Some x \<Rightarrow> Some (x, c, w))"
  "complete_run (t, c, w) = complete t c w"
  by (simp_all add: complete.simps [of "Outside r"] complete_run_def)

lemma complete_poll:
  assumes "in_poll t" and "poll_retry (os_polls w) = (p, ps)" and "os_yield c (w\<lparr>os_polls := ps\<rparr>) = (c1, w1)"
  shows "complete t c w = Option.bind (resume p t c1 w1) complete_run"
  using assms by (subst complete.simps) (cases t; simp add: complete_run_def [abs_def])

lemma complete_sleep:
  assumes "\<not> in_poll t" and "\<nexists>r. t = Outside r"
  shows "complete t c w = Option.bind (pthread_cond_wait c w) (\<lambda>(c, w). Option.bind (resume PollFail t c w) complete_run)"
  using assms by (subst complete.simps) (cases t; simp add: complete_run_def [abs_def])

lemma conn_wait_cut:
  assumes "poll_retry (os_polls w) = (p, ps)" and "os_yield (conn_wait_enter vector c) (w\<lparr>os_polls := ps\<rparr>) = (c1, w1)"
  shows "xcb_conn_wait vector c w =
     (if (if vector \<noteq> None then writing (c_out c) else reading (c_in c)) \<noteq> 0 then do {
        (c, w) \<leftarrow> pthread_cond_wait c w;
        Some (True, vector, c, w)
      }
      else conn_wait_leave p vector c1 w1)"
  using assms by (cases vector) (simp_all add: xcb_conn_wait_def conn_wait_enter_def conn_wait_leave_def Let_def)

lemma bind_run_if: "Option.bind (if b then x else y) f = (if b then Option.bind x f else Option.bind y f)"
  by simp

lemma complete_run_reply:
  "complete_run (run_reply rd e c w) =
     Option.bind (wait_reply_loop (rd_request rd) e c w) (\<lambda>(r, c, w). complete_run (reply_finish rd r c w))"
proof (induction "rd_request rd" e c w rule: wait_reply_loop.induct)
  case (1 e c w)
  obtain r c0 w0 where pr: "poll_for_reply (rd_request rd) e c w = (r, c0, w0)" by (metis prod_cases3)
  show ?case
  proof (cases r)
    case (Some x)
    with pr show ?thesis by (simp add: run_reply_def wait_reply_loop.simps)
  next
    case None
    with poll_for_reply_None pr have c0: "c0 = c" "w0 = w" by auto
    obtain p ps where p: "poll_retry (os_polls w) = (p, ps)" by (metis surj_pair)
    obtain c1 w1 where y: "os_yield (conn_wait_enter None c) (w\<lparr>os_polls := ps\<rparr>) = (c1, w1)" by (metis surj_pair)
    note cut = conn_wait_cut [OF p y]
    have ih: "complete_run (run_reply rd e c2 w2) =
       Option.bind (wait_reply_loop (rd_request rd) e c2 w2) (\<lambda>(r, c, w). complete_run (reply_finish rd r c w))"
      if "xcb_conn_wait None c w = Some (True, v, c2, w2)" for v c2 w2
      using 1 [OF pr [symmetric] None refl that refl refl refl TrueI] .
    show ?thesis
    proof (cases "reading (c_in c) = 0")
      case True
      then have cw: "xcb_conn_wait None c w = conn_wait_leave p None c1 w1" using cut by simp
      have "complete_run (run_reply rd e c w) = Option.bind (resume p (In_poll_reply rd e) c1 w1) complete_run"
        using True None pr c0 complete_poll [OF _ p y, of "In_poll_reply rd e"] by (simp add: run_reply_def complete_simps)
      then show ?thesis
        using ih cw pr None c0
        by (cases "conn_wait_leave p None c1 w1") (auto simp: wait_reply_loop.simps [of _ _ c] no_reply_def)
    next
      case False
      then have cw: "xcb_conn_wait None c w = do { (c, w) \<leftarrow> pthread_cond_wait c w; Some (True, None, c, w) }"
        using cut by simp
      have "complete_run (run_reply rd e c w) = complete (On_reader False rd e) c w"
        using False None pr c0 by (simp add: run_reply_def complete_simps)
      then show ?thesis
        using ih cw pr None c0
        by (cases "pthread_cond_wait c w") (auto simp: wait_reply_loop.simps [of _ _ c] complete_sleep)
    qed
  qed
qed


lemma complete_run_send:
  "complete_run (run_send True v purp c w) =
     Option.bind (xcb_out_send v c w) (\<lambda>(ret, c, w). complete_run (send_done ret purp c w))"
proof (induction v c w rule: out_send_loop.induct)
  case (1 v c w)
  show ?case
  proof (cases "v = []")
    case True
    then show ?thesis by (simp add: run_send_def xcb_out_send_def out_send_loop.simps [of "[]"] Let_def)
  next
    case False
    obtain p ps where p: "poll_retry (os_polls w) = (p, ps)" by (metis surj_pair)
    obtain c1 w1 where y: "os_yield (conn_wait_enter (Some v) c) (w\<lparr>os_polls := ps\<rparr>) = (c1, w1)" by (metis surj_pair)
    note cut = conn_wait_cut [OF p y]
    have ih: "complete_run (run_send True v2 purp c2 w2) =
        Option.bind (xcb_out_send v2 c2 w2) (\<lambda>(ret, c, w). complete_run (send_done ret purp c w))"
      if "xcb_conn_wait (Some v) c w = Some (True, Some v2, c2, w2)" for v2 c2 w2
      by (rule 1 [OF False that refl refl refl refl TrueI])
    show ?thesis
    proof (cases "writing (c_out c) = 0")
      case True
      then have cw: "xcb_conn_wait (Some v) c w = conn_wait_leave p (Some v) c1 w1" using cut by simp
      have run: "complete_run (run_send True v purp c w) = Option.bind (resume p (In_poll_send v purp) c1 w1) complete_run"
        using True False complete_poll [OF _ p y, of "In_poll_send v purp"] by (simp add: run_send_def complete_simps)
      show ?thesis
      proof (cases "xcb_conn_wait (Some v) c w")
        case None
        with run cw False show ?thesis by (simp add: xcb_out_send_def out_send_loop.simps [of v])
      next
        case (Some r)
        then obtain ret v2 c2 w2 where r: "xcb_conn_wait (Some v) c w = Some (ret, Some v2, c2, w2)"
          using conn_wait_spec(2) [of "Some v" c w _ _ _ _ v] by (cases r) fastforce
        show ?thesis
        proof (cases ret)
          case True
          with r run cw ih [of v2 c2 w2] False show ?thesis
            by (simp add: xcb_out_send_def out_send_loop.simps [of v])
        next
          case ret: False
          with r run cw False show ?thesis
            by (simp add: xcb_out_send_def out_send_loop.simps [of v] run_send_def Let_def)
        qed
      qed
    next
      case busy: False
      then have cw: "xcb_conn_wait (Some v) c w = do { (c, w) \<leftarrow> pthread_cond_wait c w; Some (True, Some v, c, w) }"
        using cut by simp
      have run: "complete_run (run_send True v purp c w) = complete (On_out_send False v purp) c w"
        using busy False by (simp add: run_send_def complete_simps)
      show ?thesis
      proof (cases "pthread_cond_wait c w")
        case None
        with run cw False show ?thesis
          by (simp add: xcb_out_send_def out_send_loop.simps [of v] complete_sleep)
      next
        case (Some r)
        obtain c2 w2 where r: "r = (c2, w2)" by (cases r)
        have "xcb_conn_wait (Some v) c w = Some (True, Some v, c2, w2)" using cw Some r by simp
        from ih [OF this] Some r run cw False show ?thesis
          by (simp add: xcb_out_send_def out_send_loop.simps [of v] complete_sleep)
      qed
    qed
  qed
qed

lemma complete_run_event:
  "complete_run (run_event c w) = Option.bind (wait_event_loop c w)
     (\<lambda>(e, c, w). Some (Ret_event e, c, xcb_in_wake_up_next_reader c w))"
proof (induction c w rule: wait_event_loop.induct)
  case (1 c w)
  obtain e c0 where ge: "get_event c = (e, c0)" by (metis surj_pair)
  show ?case
  proof (cases e)
    case (Some x)
    with ge show ?thesis by (simp add: run_event_def wait_event_loop.simps [of c] complete_simps)
  next
    case None
    then have c0: "c0 = c" using ge by (auto simp: get_event_def split: list.splits)
    obtain p ps where p: "poll_retry (os_polls w) = (p, ps)" by (metis surj_pair)
    obtain c1 w1 where y: "os_yield (conn_wait_enter None c) (w\<lparr>os_polls := ps\<rparr>) = (c1, w1)" by (metis surj_pair)
    note cut = conn_wait_cut [OF p y]
    have ih: "complete_run (run_event c2 w2) = Option.bind (wait_event_loop c2 w2)
         (\<lambda>(e, c, w). Some (Ret_event e, c, xcb_in_wake_up_next_reader c w))"
      if "xcb_conn_wait None c w = Some (True, v, c2, w2)" for v c2 w2
      using 1 [OF ge [symmetric] None that refl refl refl TrueI] .
    show ?thesis
    proof (cases "reading (c_in c) = 0")
      case True
      then have cw: "xcb_conn_wait None c w = conn_wait_leave p None c1 w1" using cut by simp
      have "complete_run (run_event c w) = Option.bind (resume p In_poll_event c1 w1) complete_run"
        using True None ge c0 complete_poll [OF _ p y, of In_poll_event] by (simp add: run_event_def complete_simps)
      then show ?thesis
        using ih cw ge None c0
        by (cases "conn_wait_leave p None c1 w1") (auto simp: wait_event_loop.simps [of c] complete_simps)
    next
      case False
      then have cw: "xcb_conn_wait None c w = do { (c, w) \<leftarrow> pthread_cond_wait c w; Some (True, None, c, w) }"
        using cut by simp
      have "complete_run (run_event c w) = complete (On_event False) c w"
        using False None ge c0 by (simp add: run_event_def complete_simps)
      then show ?thesis
        using ih cw ge None c0
        by (cases "pthread_cond_wait c w") (auto simp: wait_event_loop.simps [of c] complete_sleep)
    qed
  qed
qed


lemma complete_flush_wait:
  "Option.bind (flush_wait request purp c w) complete_run = do {
     (c, w) \<leftarrow> wait_not_writing c w;
     if \<not> XCB_SEQUENCE_COMPARE (request_written (c_out c)) (\<ge>) request then None
     else complete_run (send_done True purp c w)
   }"
proof (induction c w rule: wait_not_writing.induct)
  case (1 c w)
  show ?case
  proof (cases "writing (c_out c) = 0")
    case True
    then show ?thesis by (simp add: flush_wait_def wait_not_writing.simps [of c])
  next
    case busy: False
    then have run: "Option.bind (flush_wait request purp c w) complete_run = complete (On_out_flush False request purp) c w"
      by (simp add: flush_wait_def complete_simps)
    show ?thesis
    proof (cases "pthread_cond_wait c w")
      case None
      with run busy show ?thesis by (simp add: wait_not_writing.simps [of c] complete_sleep)
    next
      case (Some r)
      obtain c2 w2 where r: "r = (c2, w2)" by (cases r)
      from 1 [OF busy Some [unfolded r] refl] Some r run busy show ?thesis
        by (simp add: wait_not_writing.simps [of c w] complete_sleep)
    qed
  qed
qed

lemma complete_run_flush:
  "Option.bind (run_flush request purp c w) complete_run =
     Option.bind (xcb_out_flush_to request c w) (\<lambda>(ret, c, w). complete_run (send_done ret purp c w))"
proof -
  have "Option.bind (flush_wait request purp c w) complete_run = Option.bind (do {
        (c, w) \<leftarrow> wait_not_writing c w;
        if \<not> XCB_SEQUENCE_COMPARE (request_written (c_out c)) (\<ge>) request then None
        else Some (True, c, w)
      }) (\<lambda>(ret, c, w). complete_run (send_done ret purp c w))"
    by (cases "wait_not_writing c w") (auto simp: complete_flush_wait)
  then show ?thesis
    by (simp add: run_flush_def xcb_out_flush_to_def complete_run_send)
qed

lemma complete_run_request:
  "Option.bind (run_request flags spare v big req c w) complete_run =
     do { (n, c, w) \<leftarrow> send_prepared flags spare v big req c w; Some (Ret_request n, c, w) }"
proof (induction c w rule: wait_not_writing.induct)
  case (1 c w)
  show ?case
  proof (cases "writing (c_out c) = 0")
    case True
    have send: "complete_run (run_send True vec (For_request n) c2 w2) = do {
        (n, c, w) \<leftarrow> do {
          (ret, c, w) \<leftarrow> xcb_out_send vec c2 w2;
          if ret then Some (n, c, w) else Some (0, xcb_conn_shutdown c, w) };
        Some (Ret_request n, c, w) }" for vec n c2 w2
      by (cases "xcb_out_send vec c2 w2") (auto simp: complete_run_send send_done_def complete_simps)
    have wb: "Option.bind (let (spare, vec, q) = fill_queue spare vec (out_queue (c_out c2)) in
          if vec = [] then Some (Outside (Some (Ret_request (ucast (out_request (c_out c2))))), set_out_queue q c2, w2)
          else if spare = 0 then None
          else Some (run_send True (q # vec) (For_request (ucast (out_request (c_out c2)))) (set_out_queue [] c2) w2))
          complete_run
      = do {
        (n, c, w) \<leftarrow> do {
          (ret, c, w) \<leftarrow> write_block spare vec c2 w2;
          if ret then Some (ucast (out_request (c_out c2)), c, w) else Some (0, xcb_conn_shutdown c, w) };
        Some (Ret_request n, c, w) }" for spare vec c2 w2
      by (cases "fill_queue spare vec (out_queue (c_out c2))") (auto simp: write_block_def send complete_simps)
    show ?thesis
    proof (cases "glx_workaround req (hd v)")
      case None
      with True show ?thesis by (simp add: run_request_def send_prepared_def)
    next
      case (Some wa)
      with True show ?thesis
        by (auto simp: run_request_def send_prepared_def Let_def wb [unfolded Let_def] Option.bind_assoc split: prod.split intro!: Option.bind_cong)
    qed
  next
    case busy: False
    then have run: "Option.bind (run_request flags spare v big req c w) complete_run
        = complete (On_out_request False flags spare v big req) c w"
      by (simp add: run_request_def complete_simps)
    show ?thesis
    proof (cases "pthread_cond_wait c w")
      case None
      with run busy show ?thesis
        by (cases "glx_workaround req (hd v)") (simp_all add: send_prepared_def wait_not_writing.simps [of c] complete_sleep)
    next
      case (Some r)
      obtain c2 w2 where r: "r = (c2, w2)" by (cases r)
      have "send_prepared flags spare v big req c w = send_prepared flags spare v big req c2 w2"
        using busy Some r
        by (cases "glx_workaround req (hd v)") (simp_all add: send_prepared_def wait_not_writing.simps [of c])
      with 1 [OF busy Some [unfolded r] refl] Some r run busy show ?thesis
        by (simp add: complete_sleep)
    qed
  qed
qed

text \<open>
  Cutting the calls changes nothing. A call that is run from one release of the lock to the next, with
  the answers of \<open>poll\<close> and the steps of the other threads in between, has the same result, leaves
  the same connection and does the same to the system as the function as a whole, and returns exactly when that does.
\<close>

lemma cut_calls_agree:
  "Option.bind (start call c w) complete_run = whole_call call c w"
proof (cases call)
  case Do_flush
  then show ?thesis
    by (cases "xcb_out_flush_to (out_request (c_out c)) c w")
      (auto simp: complete_run_flush xcb_flush_def send_done_def complete_simps)
next
  case (Do_request flags spare v big req)
  then show ?thesis by (simp add: complete_run_request)
next
  case (Do_wait_for_reply k e)
  have fin: "complete_run (reply_finish rd r c w) = Some (Ret_reply r, map_readers (remove_reader rd) c,
      xcb_in_wake_up_next_reader (map_readers (remove_reader rd) c) w)" for rd r c w
    by (simp add: reply_finish_def complete_simps Let_def)
  have sr: "complete_run (start_reply k e c w) = do {
      (r, c, w) \<leftarrow> do {
        let reader = \<lparr>rd_request = k, rd_cond = os_next_cond w\<rparr>;
        let w = w\<lparr>os_next_cond := os_next_cond w + 1\<rparr>;
        (r, c, w) \<leftarrow> wait_reply_loop k e (map_readers (insert_reader reader) c) w;
        Some (r, map_readers (remove_reader reader) c, w) };
      Some (Ret_reply r, c, xcb_in_wake_up_next_reader c w) }" for c w
    by (auto simp: start_reply_def Let_def complete_run_reply fin Option.bind_assoc split: prod.split intro!: Option.bind_cong)
  show ?thesis
    using Do_wait_for_reply
    by (auto simp: complete_run_flush xcb_wait_for_reply_def send_done_def complete_simps sr no_reply_def Option.bind_assoc Let_def
        split: prod.split intro!: Option.bind_cong)
next
  case Do_wait_for_event
  then show ?thesis
    by (cases "wait_event_loop c w") (auto simp: complete_run_event xcb_wait_for_event_def complete_simps)
qed

end
