(* ===== verification/XcbMonitor.thy ===== *)
theory XcbMonitor
  imports XcbThreads XcbSetup "HOL-Library.Multiset"
begin

text \<open>
  The threads of an application as one state machine: a list of control states from
  \<open>XcbThreads\<close>, one connection and one system. A step runs one thread from one release of the lock to
  the next and then wakes the threads its signals are for; \<open>poll\<close>, the other system calls and spurious
  wake-ups are up to the system.

  The lemmas describe what one stretch of code does to the state the threads share, given what the
  others account for: the counters \<open>reading\<close> and \<open>writing\<close>, the output queue, the list of readers, and the
  signals it owes them (\<open>ran\<close>, \<open>handed\<close>, \<open>announced\<close>). \<open>XcbInterleave\<close> puts them together.
\<close>

section \<open>Who waits for what\<close>

fun sleeps_on :: "control \<Rightarrow> cond option" where
  "sleeps_on (On_out_send b v p) = Some OutCond"
| "sleeps_on (On_out_flush b r p) = Some OutCond"
| "sleeps_on (On_out_request b fl sp v big req) = Some OutCond"
| "sleeps_on (On_reader b rd e) = Some (ReaderCond (rd_cond rd))"
| "sleeps_on (On_event b) = Some EventCond"
| "sleeps_on _ = None"

fun woken :: "control \<Rightarrow> bool" where
  "woken (On_out_send b v p) = b"
| "woken (On_out_flush b r p) = b"
| "woken (On_out_request b fl sp v big req) = b"
| "woken (On_reader b rd e) = b"
| "woken (On_event b) = b"
| "woken _ = False"

fun wake :: "control \<Rightarrow> control" where
  "wake (On_out_send b v p) = On_out_send True v p"
| "wake (On_out_flush b r p) = On_out_flush True r p"
| "wake (On_out_request b fl sp v big req) = On_out_request True fl sp v big req"
| "wake (On_reader b rd e) = On_reader True rd e"
| "wake (On_event b) = On_event True"
| "wake t = t"

definition blocked_on :: "cond \<Rightarrow> control \<Rightarrow> bool" where
  "blocked_on cnd t \<longleftrightarrow> sleeps_on t = Some cnd \<and> \<not> woken t"

definition runnable :: "control \<Rightarrow> bool" where
  "runnable t \<longleftrightarrow> in_poll t \<or> woken t"

text \<open>
  A signal: \<open>pthread_cond_broadcast\<close> for the writing side, \<open>pthread_cond_signal\<close> otherwise, which wakes at least one of
  the threads blocked on the condition variable if there is one.
\<close>

definition signalled :: "cond \<Rightarrow> control list \<Rightarrow> control list \<Rightarrow> bool" where
  "signalled cnd ts ts' \<longleftrightarrow>
     (if cnd = OutCond then ts' = map (\<lambda>t. if blocked_on cnd t then wake t else t) ts
      else list_all2 (\<lambda>t t'. t' = t \<or> blocked_on cnd t \<and> t' = wake t) ts ts'
        \<and> (list_ex (blocked_on cnd) ts \<longrightarrow> ts' \<noteq> ts))"

inductive signals :: "cond list \<Rightarrow> control list \<Rightarrow> control list \<Rightarrow> bool" where
  None: "signals [] ts ts"
| Next: "signalled cnd ts ts1 \<Longrightarrow> signals cs ts1 ts2 \<Longrightarrow> signals (cnd # cs) ts ts2"

section \<open>The machine\<close>

text \<open>The calls that never wait, as they are.\<close>

datatype quick_call = Do_poll_for_event | Do_poll_for_reply u32 bool | Do_discard_reply u32

fun run_quick :: "quick_call \<Rightarrow> xcb_connection_t \<Rightarrow> os \<Rightarrow> (xcb_connection_t \<times> os) option" where
  "run_quick Do_poll_for_event c w = do { (e, c, w) \<leftarrow> xcb_poll_for_event c w; Some (c, w) }"
| "run_quick (Do_poll_for_reply k e) c w = (let (r, c, w) = xcb_poll_for_reply k e c w in Some (c, w))"
| "run_quick (Do_discard_reply k) c w = Some (xcb_discard_reply k c w)"

text \<open>
  What the application has to keep to: a request is not empty and is a request of this connection when its
  reply is waited for, and fewer than \<open>2 ^ 31\<close> requests are sent.
\<close>

definition nonempty_request :: "iovecs \<Rightarrow> bool" where
  "nonempty_request v \<longleftrightarrow> v \<noteq> [] \<and> hd v \<noteq> []"

fun call_ok :: "blocking_call \<Rightarrow> xcb_connection_t \<Rightarrow> bool" where
  "call_ok (Do_request flags spare v big req) c = nonempty_request v"
| "call_ok (Do_wait_for_reply k e) c = (unat k \<le> unat (out_request (c_out c)))"
| "call_ok _ c = True"

definition room :: "xcb_connection_t \<Rightarrow> bool" where
  "room c \<longleftrightarrow> unat (out_request (c_out c)) + 2 < 2 ^ 31"

type_synonym machine = "control list \<times> xcb_connection_t \<times> os"

inductive machine_step :: "machine \<Rightarrow> machine \<Rightarrow> bool" where
  Begin: "i < length ts \<Longrightarrow> ts ! i = Outside r \<Longrightarrow> call_ok call c \<Longrightarrow> room c
    \<Longrightarrow> start call c (w\<lparr>os_signals := []\<rparr>) = Some (t, c', w')
    \<Longrightarrow> signals (os_signals w') (ts[i := Outside r]) ts' \<Longrightarrow> machine_step (ts, c, w) (ts'[i := t], c', w')"
| Continue: "i < length ts \<Longrightarrow> runnable (ts ! i) \<Longrightarrow> room c
    \<Longrightarrow> resume p (ts ! i) c (w\<lparr>os_signals := []\<rparr>) = Some (t, c', w')
    \<Longrightarrow> signals (os_signals w') (ts[i := Outside r]) ts' \<Longrightarrow> machine_step (ts, c, w) (ts'[i := t], c', w')"
| Quick: "run_quick q c (w\<lparr>os_signals := []\<rparr>) = Some (c', w') \<Longrightarrow> signals (os_signals w') ts ts'
    \<Longrightarrow> machine_step (ts, c, w) (ts', c', w')"
| Spurious: "i < length ts \<Longrightarrow> machine_step (ts, c, w) (ts[i := wake (ts ! i)], c, w)"
| System: "machine_step (ts, c, w)
    (ts, c, w\<lparr>os_mallocs := ms, os_recvs := rs, os_writevs := ws, os_polls := ps\<rparr>)"

section \<open>Counting\<close>

fun sending :: "control \<Rightarrow> bool" where
  "sending (In_poll_send v p) = True"
| "sending _ = False"

fun held :: "control \<Rightarrow> reader_list multiset" where
  "held (In_poll_reply rd e) = {#rd#}"
| "held (On_reader b rd e) = {#rd#}"
| "held _ = {#}"

definition pollers :: "control list \<Rightarrow> nat" where
  "pollers ts = (\<Sum>t\<leftarrow>ts. of_bool (in_poll t))"

definition senders :: "control list \<Rightarrow> nat" where
  "senders ts = (\<Sum>t\<leftarrow>ts. of_bool (sending t))"

definition waiting_readers :: "control list \<Rightarrow> reader_list multiset" where
  "waiting_readers ts = (\<Sum>t\<leftarrow>ts. held t)"

lemma sum_list_but_one:
  "i < length ts \<Longrightarrow> (\<Sum>t\<leftarrow>ts. f t) = f (ts ! i) + (\<Sum>t\<leftarrow>take i ts @ drop (Suc i) ts. (f t :: 'a :: comm_monoid_add))"
  by (subst id_take_nth_drop [of i ts]) (simp_all add: ac_simps)

definition others :: "nat \<Rightarrow> control list \<Rightarrow> control list" where
  "others i ts = take i ts @ drop (Suc i) ts"

lemma others_update [simp]: "others i (ts[i := t]) = others i ts"
  by (simp add: others_def)

lemma counts_but_one:
  assumes "i < length ts"
  shows "pollers ts = of_bool (in_poll (ts ! i)) + pollers (others i ts)"
    and "senders ts = of_bool (sending (ts ! i)) + senders (others i ts)"
    and "waiting_readers ts = held (ts ! i) + waiting_readers (others i ts)"
    and "set ts = insert (ts ! i) (set (others i ts))"
  using assms sum_list_but_one [OF assms, of "\<lambda>t. of_bool (in_poll t)"]
    sum_list_but_one [OF assms, of "\<lambda>t. of_bool (sending t)"] sum_list_but_one [OF assms, of held]
  unfolding pollers_def senders_def waiting_readers_def others_def
  by (simp_all del: map_append sum_list_append) (subst id_take_nth_drop [of i ts], simp_all)

lemma counts_zero:
  "pollers ts = 0 \<longleftrightarrow> (\<forall>t \<in> set ts. \<not> in_poll t)" "senders ts = 0 \<longleftrightarrow> (\<forall>t \<in> set ts. \<not> sending t)"
  by (induction ts) (simp_all add: pollers_def senders_def)

lemma in_waiting_readers: "rd \<in># waiting_readers ts \<longleftrightarrow> (\<exists>t \<in> set ts. rd \<in># held t)"
  by (induction ts) (simp_all add: waiting_readers_def)

section \<open>Signals only wake\<close>

definition awakened :: "control \<Rightarrow> control \<Rightarrow> bool" where
  "awakened t t' \<longleftrightarrow> t' = t \<or> t' = wake t"

lemma wake_simps [simp]:
  "in_poll (wake t) = in_poll t" "sending (wake t) = sending t" "held (wake t) = held t"
  "sleeps_on (wake t) = sleeps_on t" "wake (wake t) = wake t" "woken t \<Longrightarrow> woken (wake t)"
  "sleeps_on t \<noteq> None \<Longrightarrow> woken (wake t)"
  by (cases t; simp)+

lemma signalled_awakened: "signalled cnd ts ts' \<Longrightarrow> list_all2 awakened ts ts'"
  by (auto simp: signalled_def awakened_def list_all2_map2 intro: list_all2_refl split: if_splits elim!: list_all2_mono)

lemma awakened_trans: "list_all2 awakened ts ts1 \<Longrightarrow> list_all2 awakened ts1 ts2 \<Longrightarrow> list_all2 awakened ts ts2"
  by (erule (1) list_all2_trans [rotated]) (auto simp: awakened_def)

lemma signals_awakened: "signals cs ts ts' \<Longrightarrow> list_all2 awakened ts ts'"
proof (induction rule: signals.induct)
  case (None ts)
  show ?case by (rule list_all2_refl) (simp add: awakened_def)
next
  case (Next cnd ts ts1 cs ts2)
  from signalled_awakened [OF Next.hyps(1)] Next.IH show ?case by (rule awakened_trans)
qed

lemma awakened_counts:
  "list_all2 awakened ts ts' \<Longrightarrow> pollers ts' = pollers ts \<and> senders ts' = senders ts
     \<and> waiting_readers ts' = waiting_readers ts \<and> length ts' = length ts"
  by (induction rule: list_all2_induct) (auto simp: pollers_def senders_def waiting_readers_def awakened_def)

lemma awakened_nth: "list_all2 awakened ts ts' \<Longrightarrow> i < length ts \<Longrightarrow> ts' ! i = ts ! i \<or> ts' ! i = wake (ts ! i)"
  by (auto simp: list_all2_conv_all_nth awakened_def)

lemma awakened_back: "list_all2 awakened ts ts' \<Longrightarrow> t' \<in> set ts' \<Longrightarrow> \<exists>t \<in> set ts. t' = t \<or> t' = wake t"
  by (induction rule: list_all2_induct) (auto simp: awakened_def)

lemma awakened_forth: "list_all2 awakened ts ts' \<Longrightarrow> t \<in> set ts \<Longrightarrow> \<exists>t' \<in> set ts'. t' = t \<or> t' = wake t"
  by (induction rule: list_all2_induct) (auto simp: awakened_def)

lemma awakened_keeps_woken:
  assumes "list_all2 awakened ts ts'" and "t \<in> set ts" and "sleeps_on t = Some cnd" and "woken t"
  shows "\<exists>t' \<in> set ts'. sleeps_on t' = Some cnd \<and> woken t'"
proof -
  obtain t' where t': "t' \<in> set ts'" "t' = t \<or> t' = wake t" using awakened_forth [OF assms(1,2)] by blast
  have "sleeps_on t' = Some cnd \<and> woken t'" using t'(2) assms(3,4) by auto
  with t'(1) show ?thesis by blast
qed

lemma signalled_wakes:
  assumes "signalled cnd ts ts'" and "t \<in> set ts" and "sleeps_on t = Some cnd"
  shows "\<exists>t' \<in> set ts'. sleeps_on t' = Some cnd \<and> woken t'"
proof (cases "woken t")
  case True
  with awakened_keeps_woken [OF signalled_awakened [OF assms(1)]] assms(2,3) show ?thesis by blast
next
  case False
  then have b: "blocked_on cnd t" using assms(3) by (simp add: blocked_on_def)
  show ?thesis
  proof (cases "cnd = OutCond")
    case True
    with assms(1,2) b have "wake t \<in> set ts'" by (auto simp: signalled_def)
    with assms(3) show ?thesis by (intro bexI [of _ "wake t"]) simp_all
  next
    case False
    from False assms(1) have all: "list_all2 (\<lambda>t t'. t' = t \<or> blocked_on cnd t \<and> t' = wake t) ts ts'"
      and ne: "list_ex (blocked_on cnd) ts \<longrightarrow> ts' \<noteq> ts" by (simp_all add: signalled_def)
    from ne b assms(2) have "ts' \<noteq> ts" by (auto simp: list_ex_iff)
    moreover have len: "length ts' = length ts" using all by (simp add: list_all2_lengthD)
    ultimately obtain i where i: "i < length ts" "ts' ! i \<noteq> ts ! i" by (auto simp: list_eq_iff_nth_eq)
    with all have w: "blocked_on cnd (ts ! i)" "ts' ! i = wake (ts ! i)" by (auto simp: list_all2_conv_all_nth)
    then have "sleeps_on (ts' ! i) = Some cnd \<and> woken (ts' ! i)" by (simp add: blocked_on_def)
    with i(1) len show ?thesis by (intro bexI [of _ "ts' ! i"]) simp_all
  qed
qed

lemma signals_wake:
  assumes "signals cs ts ts'" and "cnd \<in> set cs" and "t \<in> set ts" and "sleeps_on t = Some cnd"
  shows "\<exists>t' \<in> set ts'. sleeps_on t' = Some cnd \<and> woken t'"
  using assms
proof (induction arbitrary: t rule: signals.induct)
  case (Next c1 ts ts1 cs ts2)
  show ?case
  proof (cases "c1 = cnd")
    case True
    from signalled_wakes [OF Next.hyps(1)] True Next.prems obtain t1 where "t1 \<in> set ts1" "sleeps_on t1 = Some cnd" "woken t1"
      by blast
    with awakened_keeps_woken [OF signals_awakened [OF Next.hyps(2)]] show ?thesis by blast
  next
    case False
    from awakened_forth [OF signalled_awakened [OF Next.hyps(1)] Next.prems(2)] Next.prems(3)
    obtain t1 where "t1 \<in> set ts1" "sleeps_on t1 = Some cnd" by auto
    with Next.IH False Next.prems(1) show ?thesis by auto
  qed
qed simp

lemma broadcast_wakes_all:
  assumes "signalled OutCond ts ts'" and "t' \<in> set ts'" and "sleeps_on t' = Some OutCond"
  shows "woken t'"
  using assms by (auto simp: signalled_def blocked_on_def split: if_splits)

lemma signals_broadcast:
  assumes "signals cs ts ts'" and "OutCond \<in> set cs" and "t' \<in> set ts'" and "sleeps_on t' = Some OutCond"
  shows "woken t'"
  using assms
proof (induction arbitrary: t' rule: signals.induct)
  case (Next c1 ts ts1 cs ts2)
  show ?case
  proof (cases "OutCond \<in> set cs")
    case True
    with Next show ?thesis by blast
  next
    case False
    with Next.prems(1) have "c1 = OutCond" by simp
    from awakened_back [OF signals_awakened [OF Next.hyps(2)] Next.prems(2)] obtain t1 where
      t1: "t1 \<in> set ts1" "t' = t1 \<or> t' = wake t1" by blast
    with Next.prems(3) have "sleeps_on t1 = Some OutCond" by auto
    with broadcast_wakes_all [OF _ t1(1)] Next.hyps(1) \<open>c1 = OutCond\<close> have "woken t1" by simp
    with t1(2) show ?thesis by auto
  qed
qed simp

section \<open>The list of readers\<close>

lemma seq32_le_small:
  fixes a b :: u32
  assumes "unat a < 2 ^ 31" and "unat b < 2 ^ 31"
  shows "XCB_SEQUENCE_COMPARE_32 a (\<le>) b \<longleftrightarrow> unat a \<le> unat b"
proof -
  have u: "uint a = int (unat a)" "uint b = int (unat b)" and pow: "(2 :: nat) ^ 31 = 2147483648" by simp_all
  have "a - b = word_of_int (uint a - uint b)" by simp
  moreover have "uint a - uint b < 2147483648" "- 2147483648 \<le> uint a - uint b"
    unfolding u using assms(1,2) unfolding pow by linarith+
  ultimately have "sint (a - b) = uint a - uint b" by (intro sint_diff_near) simp_all
  then show ?thesis by (simp add: XCB_SEQUENCE_COMPARE_32_def ucast32_id word_le_nat_alt [symmetric] word_le_def)
qed

definition readers_ok :: "nat \<Rightarrow> nat \<Rightarrow> reader_list list \<Rightarrow> bool" where
  "readers_ok fresh hi rds \<longleftrightarrow> distinct (map rd_cond rds)
     \<and> (\<forall>rd \<in> set rds. rd_cond rd < fresh \<and> unat (rd_request rd) \<le> hi)
     \<and> sorted_wrt (\<lambda>a b. unat (rd_request a) \<le> unat (rd_request b)) rds"

lemma readers_ok_mono: "readers_ok f hi rds \<Longrightarrow> f \<le> f' \<Longrightarrow> hi \<le> hi' \<Longrightarrow> readers_ok f' hi' rds"
  by (fastforce simp: readers_ok_def)

lemma mset_insert_reader: "mset (insert_reader rd rds) = add_mset rd (mset rds)"
  by (induction rds) auto

lemma set_insert_reader: "set (insert_reader rd rds) = insert rd (set rds)"
  by (metis mset_insert_reader set_mset_add_mset_insert set_mset_mset)

lemma insert_reader_ok:
  assumes "readers_ok f hi rds" and "hi < 2 ^ 31" and "unat k \<le> hi" and "rd = \<lparr>rd_request = k, rd_cond = f\<rparr>"
  shows "readers_ok (Suc f) hi (insert_reader rd rds)"
proof -
  have "sorted_wrt (\<lambda>a b. unat (rd_request a) \<le> unat (rd_request b)) (insert_reader rd rds)"
    using assms
  proof (induction rds)
    case (Cons r rds)
    from Cons.prems have "unat (rd_request r) \<le> hi" "readers_ok f hi rds" by (auto simp: readers_ok_def)
    with Cons.prems Cons.IH show ?case by (auto simp: readers_ok_def seq32_le_small set_insert_reader)
  qed simp
  moreover have "distinct (map rd_cond (insert_reader rd rds))"
    using assms by (induction rds) (auto simp: readers_ok_def set_insert_reader)
  ultimately show ?thesis
    using assms by (auto simp: readers_ok_def set_insert_reader less_Suc_eq)
qed

lemma remove_reader_eq:
  "readers_ok f hi rds \<Longrightarrow> hi < 2 ^ 31 \<Longrightarrow> rd \<in> set rds \<Longrightarrow> remove_reader rd rds = remove1 rd rds"
proof (induction rds)
  case (Cons r rds)
  from Cons.prems have "unat (rd_request r) \<le> unat (rd_request rd)" "unat (rd_request rd) \<le> hi" "unat (rd_request r) \<le> hi"
    by (auto simp: readers_ok_def)
  then have "XCB_SEQUENCE_COMPARE_32 (rd_request r) (\<le>) (rd_request rd)" using Cons.prems(2) by (simp add: seq32_le_small)
  moreover have "readers_ok f hi rds" using Cons.prems(1) by (simp add: readers_ok_def)
  moreover have "rd_cond r = rd_cond rd \<Longrightarrow> r = rd" using Cons.prems(1,3) by (force simp: readers_ok_def)
  ultimately show ?case using Cons.IH Cons.prems by auto
qed simp

lemma sorted_wrt_remove1: "sorted_wrt P xs \<Longrightarrow> sorted_wrt P (remove1 x xs)"
  by (induction xs) (auto dest: set_remove1_subset [THEN subsetD])

lemma distinct_map_remove1: "distinct (map f xs) \<Longrightarrow> distinct (map f (remove1 x xs))"
  by (induction xs) (auto dest: set_remove1_subset [THEN subsetD])

lemma remove_reader_ok:
  assumes "readers_ok f hi rds" and "hi < 2 ^ 31" and "mset rds = add_mset rd M"
  shows "readers_ok f hi (remove_reader rd rds) \<and> mset (remove_reader rd rds) = M"
proof -
  have "rd \<in> set rds" using assms(3) by (metis set_mset_mset union_single_eq_member)
  then have eq: "remove_reader rd rds = remove1 rd rds" by (rule remove_reader_eq [OF assms(1,2)])
  have "mset (remove1 rd rds) = M" using assms(3) by simp
  moreover have "readers_ok f hi (remove1 rd rds)"
    using assms(1) set_remove1_subset [of rd rds]
    by (auto simp: readers_ok_def sorted_wrt_remove1 intro: distinct_map_remove1)
  ultimately show ?thesis using eq by simp
qed

section \<open>What the threads share\<close>

text \<open>
  The shared state when \<open>n\<close> threads are in \<open>poll\<close>, \<open>m\<close> of them to write, and the readers \<open>M\<close> wait.
\<close>

definition shared_ok :: "nat \<Rightarrow> nat \<Rightarrow> reader_list multiset \<Rightarrow> xcb_connection_t \<Rightarrow> os \<Rightarrow> bool" where
  "shared_ok n m M c w \<longleftrightarrow> reading (c_in c) = int n \<and> writing (c_out c) = int m \<and> m \<le> 1
     \<and> mset (readers (c_in c)) = M \<and> readers_ok (os_next_cond w) (unat (out_request (c_out c))) (readers (c_in c))
     \<and> return_socket (c_out c) = None \<and> os_others w = []
     \<and> (m \<noteq> 0 \<longrightarrow> out_queue (c_out c) = []) \<and> length (out_queue (c_out c)) \<le> XCB_QUEUE_BUFFER_SIZE
     \<and> unat (request_written (c_out c)) \<le> unat (out_request (c_out c)) \<and> unat (out_request (c_out c)) < 2 ^ 31"

definition all_written :: "xcb_connection_t \<Rightarrow> bool" where
  "all_written c \<longleftrightarrow>
     (writing (c_out c) = 0 \<and> out_queue (c_out c) = [] \<longrightarrow> request_written (c_out c) = out_request (c_out c))"

fun purpose_ok :: "nat \<Rightarrow> purpose \<Rightarrow> bool" where
  "purpose_ok hi (For_reply k e) = (unat k \<le> hi)"
| "purpose_ok hi _ = True"

fun control_ok :: "nat \<Rightarrow> control \<Rightarrow> bool" where
  "control_ok hi (In_poll_send v p) = purpose_ok hi p"
| "control_ok hi (On_out_send b v p) = False"
| "control_ok hi (On_out_flush b r p) = purpose_ok hi p"
| "control_ok hi (On_out_request b fl sp v big req) = nonempty_request v"
| "control_ok hi _ = True"

lemma control_ok_mono: "control_ok hi t \<Longrightarrow> hi \<le> hi' \<Longrightarrow> control_ok hi' t"
  by (induction hi t rule: control_ok.induct; rename_tac p; case_tac p) auto

lemma control_ok_wake [simp]: "control_ok hi (wake t) = control_ok hi t"
  by (cases t) simp_all

text \<open>
  A thread that waits for a writer to flush up to request \<open>r\<close>: the writer takes it along, or
  it has been written.
\<close>

fun flush_safe :: "xcb_out_t \<Rightarrow> control \<Rightarrow> bool" where
  "flush_safe out (On_out_flush b r p) = (if writing out \<noteq> 0 then r \<le> out_request out else r \<le> request_written out)"
| "flush_safe out _ = True"

lemma flush_safe_wake [simp]: "flush_safe out (wake t) = flush_safe out t"
  by (cases t) simp_all

definition socket_sleeper :: "control \<Rightarrow> bool" where
  "socket_sleeper t \<longleftrightarrow> sleeps_on t \<noteq> None \<and> sleeps_on t \<noteq> Some OutCond"

definition out_sleeper :: "control \<Rightarrow> bool" where
  "out_sleeper t \<longleftrightarrow> sleeps_on t = Some OutCond"

definition next_cond :: "xcb_connection_t \<Rightarrow> cond" where
  "next_cond c = (case readers (c_in c) of rd # _ \<Rightarrow> ReaderCond (rd_cond rd) | [] \<Rightarrow> EventCond)"

lemma wake_up_next: "xcb_in_wake_up_next_reader c w = os_signal (next_cond c) w"
  by (simp add: xcb_in_wake_up_next_reader_def next_cond_def split: list.split)

text \<open>
  A stretch of code run by one thread, while the others account for \<open>n\<close>, \<open>m\<close> and \<open>M\<close>. It leaves
  the shared state in order, with the thread itself added; the thread goes to sleep only when another one is in \<open>poll\<close>, or
  writes. If it was in \<open>poll\<close> or woken before, it either stays there or hands the socket over
  (\<open>handed\<close>); a writer that is done tells the others (\<open>announced\<close>).
\<close>

definition ran :: "nat \<Rightarrow> nat \<Rightarrow> reader_list multiset \<Rightarrow> xcb_connection_t \<Rightarrow> os \<Rightarrow> run \<Rightarrow> bool" where
  "ran n m M c w r \<longleftrightarrow> (case r of (t, c', w') \<Rightarrow>
     shared_ok (of_bool (in_poll t) + n) (of_bool (sending t) + m) (held t + M) c' w' \<and> all_written c'
     \<and> control_ok (unat (out_request (c_out c'))) t \<and> flush_safe (c_out c') t
     \<and> out_request (c_out c) \<le> out_request (c_out c') \<and> request_written (c_out c) \<le> request_written (c_out c')
     \<and> (m \<noteq> 0 \<longrightarrow> out_request (c_out c') = out_request (c_out c))
     \<and> set (os_signals w) \<subseteq> set (os_signals w')
     \<and> (socket_sleeper t \<longrightarrow> n \<noteq> 0) \<and> (out_sleeper t \<longrightarrow> m \<noteq> 0))"

definition handed :: "nat \<Rightarrow> run \<Rightarrow> bool" where
  "handed n r \<longleftrightarrow> (case r of (t, c', w') \<Rightarrow> in_poll t \<or> n \<noteq> 0 \<or> next_cond c' \<in> set (os_signals w'))"

definition announced :: "run \<Rightarrow> bool" where
  "announced r \<longleftrightarrow> (case r of (t, c', w') \<Rightarrow> sending t
     \<or> OutCond \<in> set (os_signals w') \<and> request_written (c_out c') = out_request (c_out c'))"

text \<open>What looking for a reply or an event leaves alone.\<close>

definition undisturbed :: "xcb_connection_t \<Rightarrow> os \<Rightarrow> xcb_connection_t \<Rightarrow> os \<Rightarrow> bool" where
  "undisturbed c w c' w' \<longleftrightarrow> c_out c' = c_out c \<and> reading (c_in c') = reading (c_in c) \<and> readers (c_in c') = readers (c_in c)
     \<and> os_others w' = os_others w \<and> os_next_cond w' = os_next_cond w"

lemma undisturbed_shared: "undisturbed c w c' w' \<Longrightarrow> shared_ok n m M c' w' = shared_ok n m M c w"
  by (simp add: undisturbed_def shared_ok_def)

lemma undisturbed_written: "undisturbed c w c' w' \<Longrightarrow> all_written c' = all_written c"
  by (simp add: undisturbed_def all_written_def)

lemma reads_only_undisturbed: "reads_only c w c' w' \<Longrightarrow> undisturbed c w c' w'"
  by (simp add: reads_only_def undisturbed_def)

lemma reply_head_undisturbed:
  "reply_head k c w = Some (h, c', w') \<Longrightarrow> undisturbed c w c' w' \<and> os_signals w' = os_signals w"
  by (auto simp: reply_head_def undisturbed_def Let_def malloc_ok_def
      split: if_splits prod.splits option.splits list.splits)

lemma poll_for_reply_undisturbed:
  "poll_for_reply k e c w = (r, c', w') \<Longrightarrow> undisturbed c w c' w' \<and> os_signals w' = os_signals w"
  by (auto simp: poll_for_reply_def undisturbed_def split: option.splits prod.splits
      dest!: reply_head_undisturbed)

lemma get_event_undisturbed: "get_event c = (e, c') \<Longrightarrow> undisturbed c w c' w"
  by (auto simp: get_event_def undisturbed_def split: list.splits)

section \<open>What each stretch of code does\<close>

lemma next_cond_shutdown [simp]: "next_cond (xcb_conn_shutdown c) = next_cond c"
  by (simp add: next_cond_def xcb_conn_shutdown_def)

lemma shared_shutdown [simp]:
  "shared_ok n m M (xcb_conn_shutdown c) w = shared_ok n m M c w" "all_written (xcb_conn_shutdown c) = all_written c"
  by (simp_all add: shared_ok_def all_written_def xcb_conn_shutdown_def)

lemma shared_signal [simp]:
  "shared_ok n m M c (os_signal s w) = shared_ok n m M c w"
  "os_signals (os_signal s w) = os_signals w @ [s]"
  by (simp_all add: shared_ok_def os_signal_def)

lemma out_request_simps [simp]:
  "c_out (xcb_conn_shutdown c) = c_out c" "c_out (conn_wait_enter None c) = c_out c"
  "out_request (c_out (conn_wait_enter v c)) = out_request (c_out c)"
  "request_written (c_out (conn_wait_enter v c)) = request_written (c_out c)"
  by (simp_all add: xcb_conn_shutdown_def conn_wait_enter_def add_writing_def Let_def)

lemma shared_enter:
  "shared_ok n m M c w \<Longrightarrow> shared_ok (Suc n) m M (conn_wait_enter None c) w"
  "all_written (conn_wait_enter None c) = all_written c"
  "shared_ok n 0 M c w \<Longrightarrow> out_queue (c_out c) = [] \<Longrightarrow> shared_ok (Suc n) 1 M (conn_wait_enter (Some v) c) w"
  "writing (c_out c) = 0 \<Longrightarrow> all_written (conn_wait_enter (Some v) c)"
  by (simp_all add: shared_ok_def all_written_def conn_wait_enter_def add_reading_def add_writing_def Let_def)

lemma reply_finish_ran:
  assumes "shared_ok n m (add_mset rd M) c w" and "all_written c"
  shows "ran n m M c w (reply_finish rd r c w)" and "handed n (reply_finish rd r c w)"
proof -
  let ?c = "map_readers (remove_reader rd) c"
  have "shared_ok n m M ?c w"
    using assms(1) remove_reader_ok [of "os_next_cond w" "unat (out_request (c_out c))" "readers (c_in c)" rd M]
    by (simp add: shared_ok_def)
  moreover have "all_written ?c" using assms(2) by (simp add: all_written_def)
  ultimately show "ran n m M c w (reply_finish rd r c w)" "handed n (reply_finish rd r c w)"
    by (auto simp: reply_finish_def ran_def handed_def wake_up_next socket_sleeper_def out_sleeper_def Let_def)
qed

lemma run_reply_ran:
  assumes "shared_ok n m (add_mset rd M) c w" and "all_written c"
  shows "ran n m M c w (run_reply rd e c w)" and "handed n (run_reply rd e c w)"
proof -
  obtain r c1 w1 where pr: "poll_for_reply (rd_request rd) e c w = (r, c1, w1)" by (metis prod_cases3)
  note u = poll_for_reply_undisturbed [OF pr, THEN conjunct1] and sg = poll_for_reply_undisturbed [OF pr, THEN conjunct2]
  have s1: "shared_ok n m (add_mset rd M) c1 w1" and a1: "all_written c1"
    using assms undisturbed_shared [OF u] undisturbed_written [OF u] by simp_all
  have o: "c_out c1 = c_out c" using u by (simp add: undisturbed_def)
  have "ran n m M c w (run_reply rd e c w) \<and> handed n (run_reply rd e c w)"
  proof (cases r)
    case (Some x)
    with pr reply_finish_ran [OF s1 a1, of x] o sg show ?thesis
      by (simp add: run_reply_def ran_def)
  next
    case None
    with pr have run: "run_reply rd e c w =
        (if reading (c_in c1) \<noteq> 0 then (On_reader False rd e, c1, w1) else (In_poll_reply rd e, conn_wait_enter None c1, w1))"
      by (simp add: run_reply_def)
    show ?thesis
    proof (cases "reading (c_in c1) = 0")
      case True
      with run s1 a1 shared_enter(1) [OF s1] o sg show ?thesis
        by (simp add: ran_def handed_def socket_sleeper_def out_sleeper_def shared_enter(2))
    next
      case False
      then have "n \<noteq> 0" using s1 by (simp add: shared_ok_def)
      with run s1 a1 o sg False show ?thesis
        by (simp add: ran_def handed_def socket_sleeper_def out_sleeper_def)
    qed
  qed
  then show "ran n m M c w (run_reply rd e c w)" "handed n (run_reply rd e c w)" by simp_all
qed

lemma start_reply_ran:
  assumes "shared_ok n m M c w" and "all_written c" and "unat k \<le> unat (out_request (c_out c))"
  shows "ran n m M c w (start_reply k e c w)" and "handed n (start_reply k e c w)"
proof -
  let ?rd = "\<lparr>rd_request = k, rd_cond = os_next_cond w\<rparr>"
  let ?c = "map_readers (insert_reader ?rd) c" and ?w = "w\<lparr>os_next_cond := os_next_cond w + 1\<rparr>"
  have s: "shared_ok n m (add_mset ?rd M) ?c ?w"
    using assms(1,3) insert_reader_ok [of "os_next_cond w" "unat (out_request (c_out c))" "readers (c_in c)" k ?rd]
    by (simp add: shared_ok_def mset_insert_reader)
  have a: "all_written ?c" using assms(2) by (simp add: all_written_def)
  have "start_reply k e c w = run_reply ?rd e ?c ?w" by (simp add: start_reply_def Let_def)
  with run_reply_ran [OF s a, of e] show "ran n m M c w (start_reply k e c w)" "handed n (start_reply k e c w)"
    by (simp_all add: ran_def)
qed

lemma send_done_ran:
  assumes "shared_ok n m M c w" and "all_written c" and "purpose_ok (unat (out_request (c_out c))) p"
  shows "ran n m M c w (send_done ret p c w)"
    and "next_cond c \<in> set (os_signals w) \<Longrightarrow> handed n (send_done ret p c w)"
proof -
  have "ran n m M c w (send_done ret p c w)
    \<and> (next_cond c \<in> set (os_signals w) \<longrightarrow> handed n (send_done ret p c w))"
  proof (cases p)
    case (For_reply k e)
    with assms start_reply_ran [OF assms(1,2), of k e] show ?thesis
      by (auto simp: send_done_def wake_up_next ran_def handed_def socket_sleeper_def out_sleeper_def)
  qed (use assms in \<open>auto simp: send_done_def ran_def handed_def socket_sleeper_def out_sleeper_def\<close>)
  then show "ran n m M c w (send_done ret p c w)" "next_cond c \<in> set (os_signals w) \<Longrightarrow> handed n (send_done ret p c w)"
    by simp_all
qed

lemma ran_announced:
  assumes "ran n 0 M c w r" and "OutCond \<in> set (os_signals w)"
    and "request_written (c_out c) = out_request (c_out c)" and "\<And>t c' w'. r = (t, c', w') \<Longrightarrow> c_out c' = c_out c"
  shows "announced r"
  using assms by (auto simp: ran_def announced_def)

lemma start_reply_out:
  assumes "start_reply k e c w = (t, c', w')"
  shows "c_out c' = c_out c"
  using assms poll_for_reply_undisturbed
  by (fastforce simp: start_reply_def run_reply_def reply_finish_def undisturbed_def Let_def split: prod.splits option.splits if_splits)

lemma send_done_out: "send_done ret p c w = (t, c', w') \<Longrightarrow> c_out c' = c_out c"
  by (auto simp: send_done_def dest: start_reply_out split: purpose.splits if_splits)

lemma run_send_ran:
  assumes "shared_ok n 0 M c w" and "out_queue (c_out c) = []" and "purpose_ok (unat (out_request (c_out c))) p"
  shows "ran n 0 M c w (run_send ret v p c w)" and "handed n (run_send ret v p c w)"
    and "announced (run_send ret v p c w)"
proof -
  have w0: "writing (c_out c) = 0" using assms(1) by (simp add: shared_ok_def)
  have "ran n 0 M c w (run_send ret v p c w) \<and> handed n (run_send ret v p c w) \<and> announced (run_send ret v p c w)"
  proof (cases "ret \<and> v \<noteq> []")
    case True
    with w0 shared_enter(3) [OF assms(1,2), of v] shared_enter(4) [OF w0, of v] assms(3) show ?thesis
      by (simp add: run_send_def ran_def handed_def announced_def socket_sleeper_def out_sleeper_def)
  next
    case False
    let ?c = "c\<lparr>c_out := (c_out c)\<lparr>request_written := out_request (c_out c)\<rparr>\<rparr>"
    let ?w = "os_signal (next_cond ?c) (os_signal OutCond w)"
    have s: "shared_ok n 0 M ?c ?w" using assms(1) by (simp add: shared_ok_def os_signal_def)
    have a: "all_written ?c" by (simp add: all_written_def)
    have "purpose_ok (unat (out_request (c_out ?c))) p" using assms(3) by simp
    note d = send_done_ran [OF s a this, of ret]
    have "run_send ret v p c w = send_done ret p ?c ?w" using False by (auto simp: run_send_def wake_up_next Let_def)
    moreover have "handed n (send_done ret p ?c ?w)" using d(2) by simp
    moreover have "announced (send_done ret p ?c ?w)" using d(1) by (rule ran_announced) (auto dest: send_done_out)
    moreover have "request_written (c_out c) \<le> out_request (c_out c)" using assms(1) by (simp add: shared_ok_def word_le_nat_alt)
    then have "ran n 0 M c w (send_done ret p ?c ?w)" using d(1) by (auto simp: ran_def intro: order_trans)
    ultimately show ?thesis by simp
  qed
  then show "ran n 0 M c w (run_send ret v p c w)" "handed n (run_send ret v p c w)"
    "announced (run_send ret v p c w)" by simp_all
qed

lemma flush_wait_ran:
  assumes "shared_ok n m M c w" and "all_written c" and "purpose_ok (unat (out_request (c_out c))) p"
    and "flush_wait request p c w = Some r" and "writing (c_out c) \<noteq> 0 \<longrightarrow> request \<le> out_request (c_out c)"
  shows "ran n m M c w r"
proof (cases "writing (c_out c) = 0")
  case True
  with assms send_done_ran(1) [OF assms(1-3), of True] show ?thesis
    by (simp add: flush_wait_def split: if_splits)
next
  case False
  with assms show ?thesis
    by (auto simp: flush_wait_def ran_def socket_sleeper_def out_sleeper_def shared_ok_def)
qed

lemma run_flush_ran:
  assumes "shared_ok n m M c w" and "all_written c" and "purpose_ok (unat (out_request (c_out c))) p"
    and "run_flush request p c w = Some r" and "request \<le> out_request (c_out c)"
  shows "ran n m M c w r"
proof (cases "out_queue (c_out c) = []")
  case True
  with assms flush_wait_ran [OF assms(1-3)] send_done_ran(1) [OF assms(1-3), of True] show ?thesis
    by (auto simp: run_flush_def split: if_splits)
next
  case False
  then have m: "m = 0" using assms(1) by (auto simp: shared_ok_def)
  let ?c = "set_out_queue [] c"
  have "shared_ok n 0 M ?c w" using assms(1) m by (simp add: shared_ok_def)
  then have "ran n 0 M ?c w (run_send True v p ?c w)" for v
    using assms(3) by (intro run_send_ran(1)) simp_all
  then have "ran n 0 M c w (run_send True v p ?c w)" for v by (simp add: ran_def)
  with assms(4) False m send_done_ran(1) [OF assms(1-3), of True] show ?thesis
    by (auto simp: run_flush_def split: if_splits)
qed

lemma expect_reply_undisturbed:
  "xcb_in_expect_reply r wa fl c w = Some (ok, c', w') \<Longrightarrow> undisturbed c w c' w' \<and> os_signals w' = os_signals w"
  by (auto simp: xcb_in_expect_reply_def xcb_conn_shutdown_def undisturbed_def malloc_ok_def Let_def
      split: if_splits prod.splits list.splits)

definition same_waiters :: "xcb_connection_t \<Rightarrow> os \<Rightarrow> xcb_connection_t \<Rightarrow> os \<Rightarrow> bool" where
  "same_waiters c w c' w' \<longleftrightarrow> same_readers c c' \<and> os_others w' = os_others w \<and> os_next_cond w' = os_next_cond w
     \<and> os_signals w' = os_signals w"

lemma sync_loop_waiters:
  "sync_loop v s c w = Some (s', c', w') \<Longrightarrow> same_waiters c w c' w'"
proof (induction v s c w rule: sync_loop.induct)
  case (1 v s c w)
  show ?case
  proof (cases "needs_sync v (out_request (c_out c)) (request_expected (c_in c))")
    case True
    with "1.prems" obtain ok c1 w1 where
      e: "xcb_in_expect_reply (out_request (c_out c)) WORKAROUND_NONE XCB_REQUEST_DISCARD_REPLY c w = Some (ok, c1, w1)"
      and l: "sync_loop v True (bump_request (expect_up_to_here c1)) w1 = Some (s', c', w')"
      by (auto simp: sync_loop.simps [of v s] split: option.splits)
    from "1.IH" [OF True e refl refl l] expect_reply_undisturbed [OF e] show ?thesis
      by (simp add: same_waiters_def same_readers_def undisturbed_def)
  next
    case False
    with "1.prems" show ?thesis by (simp add: sync_loop.simps [of v s] same_waiters_def same_readers_def)
  qed
qed

lemma number_request_waiters:
  assumes "number_request req wa fl c w = Some (s, c', w')"
  shows "same_waiters c w c' w'"
proof -
  from assms obtain c1 w1 where sl: "sync_loop (isvoid req) False (bump_request c) w = Some (s, c1, w1)"
    and ex: "(\<exists>ok c2. xcb_in_expect_reply (out_request (c_out c1)) wa fl c1 w1 = Some (ok, c2, w')
        \<and> c' = (if isvoid req then c2 else expect_up_to_here c2))
      \<or> w' = w1 \<and> c' = (if isvoid req then c1 else expect_up_to_here c1)"
    by (fastforce simp: number_request_def bind_eq_Some_conv2 split: if_splits)
  from sync_loop_waiters [OF sl] ex show ?thesis
    by (auto simp: same_waiters_def same_readers_def undisturbed_def dest!: expect_reply_undisturbed)
qed

lemma add_prefix_nonempty:
  "add_prefix synced big spare v = Some (spare', v') \<Longrightarrow> nonempty_request v \<Longrightarrow> concat v' \<noteq> []"
  by (cases v) (auto simp: add_prefix_def nonempty_request_def sync_req_def bytes32_def split: if_splits)

lemma ran_from:
  assumes "ran n 0 M c1 w1 r" and "out_request (c_out c) \<le> out_request (c_out c1)"
    and "request_written (c_out c) \<le> request_written (c_out c1)" and "os_signals w1 = os_signals w"
  shows "ran n 0 M c w r"
  using assms by (auto simp: ran_def intro: order_trans)

lemma run_request_ran:
  assumes "shared_ok n m M c w" and "all_written c" and "nonempty_request v" and "room c"
    and "run_request flags spare v big req c w = Some r"
  shows "ran n m M c w r"
proof (cases "writing (c_out c) = 0")
  case False
  with assms show ?thesis
    by (auto simp: run_request_def ran_def socket_sleeper_def out_sleeper_def shared_ok_def)
next
  case True
  then have m: "m = 0" using assms(1) by (simp add: shared_ok_def)
  have none: "return_socket (c_out c) = None" using assms(1) by (simp add: shared_ok_def)
  have lt: "unat (out_request (c_out c)) < 2 ^ 63" using assms(4) by (simp add: room_def)
  obtain wa synced c1 w1 spare1 v1 where
    nr: "number_request req wa (flags AND NOT XCB_REQUEST_RAW) c w = Some (synced, c1, w1)"
    and ap: "add_prefix synced big spare v = Some (spare1, v1)" and wa: "glx_workaround req (hd v) = Some wa"
    using assms(5) True none by (auto simp: run_request_def bind_eq_Some_conv2)
  obtain spare2 v2 q where fq: "fill_queue spare1 v1 (out_queue (c_out c1)) = (spare2, v2, q)" by (metis prod_cases3)
  have r: "r = (if v2 = [] then (Outside (Some (Ret_request (ucast (out_request (c_out c1))))), set_out_queue q c1, w1)
        else run_send True (q # v2) (For_request (ucast (out_request (c_out c1)))) (set_out_queue [] c1) w1)"
    using assms(5) True none nr ap wa fq by (auto simp: run_request_def Let_def split: if_splits)
  note n = number_request_spec [OF nr lt] and wt = number_request_waiters [OF nr]
  have o: "unat (out_request (c_out c1)) = unat (out_request (c_out c)) + (if synced then 2 else 1)"
    using n(2) assms(4) by (simp add: room_def unat_word_ariths)
  have q1: "out_queue (c_out c1) = out_queue (c_out c)" using n(2) by simp
  note f = fill_queue_spec [OF fq] and ne = add_prefix_nonempty [OF ap assms(3)]
  have s1: "shared_ok n 0 M c1 w1"
    using assms(1,4) m wt n(2) o readers_ok_mono [of _ "unat (out_request (c_out c))" _ _ "unat (out_request (c_out c1))"]
    by (auto simp: shared_ok_def same_waiters_def same_readers_def room_def)
  have le: "out_request (c_out c) \<le> out_request (c_out c1)" using o by (simp add: word_le_nat_alt)
  have wr: "request_written (c_out c1) = request_written (c_out c)" using n(2) by simp
  show ?thesis
  proof (cases "v2 = []")
    case True
    with f ne have "q \<noteq> []" and "length q \<le> XCB_QUEUE_BUFFER_SIZE" using s1 by (auto simp: shared_ok_def)
    with s1 have "shared_ok n 0 M (set_out_queue q c1) w1" "all_written (set_out_queue q c1)"
      by (auto simp: shared_ok_def all_written_def)
    with r True m le wr wt show ?thesis by (simp add: ran_def socket_sleeper_def out_sleeper_def same_waiters_def)
  next
    case False
    have "shared_ok n 0 M (set_out_queue [] c1) w1" using s1 by (simp add: shared_ok_def)
    then have "ran n 0 M (set_out_queue [] c1) w1 (run_send True (q # v2) (For_request k) (set_out_queue [] c1) w1)" for k
      by (intro run_send_ran(1)) simp_all
    with r False have "ran n 0 M (set_out_queue [] c1) w1 r" by simp
    then show ?thesis unfolding m by (rule ran_from) (use le wr wt in \<open>simp_all add: same_waiters_def\<close>)
  qed
qed

lemma run_event_ran:
  assumes "shared_ok n m M c w" and "all_written c"
  shows "ran n m M c w (run_event c w)" and "handed n (run_event c w)"
proof -
  obtain e c1 where ge: "get_event c = (e, c1)" by (metis surj_pair)
  note u = get_event_undisturbed [OF ge, of w]
  have s1: "shared_ok n m M c1 w" and a1: "all_written c1"
    using assms undisturbed_shared [OF u] undisturbed_written [OF u] by simp_all
  have o: "c_out c1 = c_out c" using u by (simp add: undisturbed_def)
  have "ran n m M c w (run_event c w) \<and> handed n (run_event c w)"
  proof (cases e)
    case (Some x)
    with ge s1 a1 o show ?thesis
      by (auto simp: run_event_def ran_def handed_def wake_up_next socket_sleeper_def out_sleeper_def)
  next
    case None
    with ge have run: "run_event c w = (if reading (c_in c1) \<noteq> 0 then (On_event False, c1, w) else (In_poll_event, conn_wait_enter None c1, w))"
      by (simp add: run_event_def)
    show ?thesis
    proof (cases "reading (c_in c1) = 0")
      case True
      with run s1 a1 shared_enter(1) [OF s1] o show ?thesis
        by (simp add: ran_def handed_def socket_sleeper_def out_sleeper_def shared_enter(2))
    next
      case False
      then have "n \<noteq> 0" using s1 by (simp add: shared_ok_def)
      with run s1 a1 o False show ?thesis
        by (simp add: ran_def handed_def socket_sleeper_def out_sleeper_def)
    qed
  qed
  then show "ran n m M c w (run_event c w)" "handed n (run_event c w)" by simp_all
qed

text \<open>The end of a wait: the thread is no longer counted.\<close>

lemma conn_wait_leave_cases:
  assumes "conn_wait_leave p vec c w = Some (ret, vec', c', w')"
  obtains (io) revents c2 where "conn_wait_io revents vec c w = Some (ret, vec', c2, w')"
      "c' = add_reading (- 1) (if vec' \<noteq> None then add_writing (- 1) c2 else c2)"
  | (failed) "\<not> ret" "vec' = vec" "w' = w"
      "c' = add_reading (- 1) (if vec' \<noteq> None then add_writing (- 1) (xcb_conn_shutdown c) else xcb_conn_shutdown c)"
proof -
  let ?ev = "if vec \<noteq> None then POLLIN OR POLLOUT else POLLIN"
  define io where "io = (case p of
          PollOk revents \<Rightarrow>
            (if revents AND NOT ?ev \<noteq> 0 then Some (False, vec, xcb_conn_shutdown c, w) else conn_wait_io revents vec c w)
        | _ \<Rightarrow> Some (False, vec, xcb_conn_shutdown c, w))"
  have "conn_wait_leave p vec c w = do {
      (ret, vec, c, w) \<leftarrow> io;
      Some (ret, vec, add_reading (- 1) (if vec \<noteq> None then add_writing (- 1) c else c), w) }"
    by (simp only: conn_wait_leave_def Let_def io_def)
  with assms obtain c2 where io: "io = Some (ret, vec', c2, w')"
    and c': "c' = add_reading (- 1) (if vec' \<noteq> None then add_writing (- 1) c2 else c2)"
    by (auto simp: bind_eq_Some_conv2)
  show thesis
  proof (cases "\<exists>revents. conn_wait_io revents vec c w = Some (ret, vec', c2, w')")
    case True
    with c' that(1) show thesis by blast
  next
    case False
    with io have "c2 = xcb_conn_shutdown c" "w' = w" "vec' = vec" "\<not> ret"
      unfolding io_def by (auto split: poll_result.splits if_splits)
    with c' that(2) show thesis by blast
  qed
qed

lemma conn_wait_leave_spec:
  assumes "conn_wait_leave p vec c w = Some (ret, vec', c', w')"
  shows "reading (c_in c') = reading (c_in c) - 1 \<and> readers (c_in c') = readers (c_in c)
    \<and> os_others w' = os_others w \<and> os_next_cond w' = os_next_cond w
    \<and> c_out c' = (if vec = None then c_out c else (c_out c)\<lparr>writing := writing (c_out c) - 1\<rparr>)
    \<and> (vec' = None \<longleftrightarrow> vec = None)"
  using assms
proof (cases rule: conn_wait_leave_cases)
  case (io revents c2)
  from conn_wait_io_spec(1,2) [OF io(1)] have "vec' = None \<longleftrightarrow> vec = None" by (cases vec) auto
  with conn_wait_io_spec(4) [OF io(1)] io(2) show ?thesis
    by (auto simp: reads_only_def add_reading_def add_writing_def)
next
  case failed
  then show ?thesis by (auto simp: xcb_conn_shutdown_def add_reading_def add_writing_def)
qed

lemma leave_shared:
  assumes "conn_wait_leave p None c w = Some (ret, vec', c', w')" and "shared_ok (Suc n) m M c w" and "all_written c"
  shows "shared_ok n m M c' w'" and "all_written c'" and "c_out c' = c_out c"
  using conn_wait_leave_spec [OF assms(1)] assms(2,3) by (auto simp: shared_ok_def all_written_def)

lemma leave_shared_send:
  assumes "conn_wait_leave p (Some v) c w = Some (ret, vec', c', w')" and "shared_ok (Suc n) (Suc m) M c w"
  shows "shared_ok n 0 M c' w'" and "out_queue (c_out c') = []" and "m = 0" and "out_request (c_out c') = out_request (c_out c)"
    and "request_written (c_out c') = request_written (c_out c)"
  using conn_wait_leave_spec [OF assms(1)] assms(2) by (auto simp: shared_ok_def)

lemma start_ran:
  assumes "shared_ok n m M c w" and "all_written c" and "call_ok call c" and "room c" and "start call c w = Some r"
  shows "ran n m M c w r"
proof -
  have triv: "ran n m M c w (Outside x, c, w)" for x
    using assms(1,2) by (simp add: ran_def socket_sleeper_def out_sleeper_def shared_ok_def)
  have none: "return_socket (c_out c) = None" using assms(1) by (simp add: shared_ok_def)
  note fl = run_flush_ran [OF assms(1,2)]
  show ?thesis
  proof (cases call)
    case Do_flush
    with assms(5) triv fl [of For_flush] show ?thesis by (auto split: if_splits)
  next
    case (Do_request flags spare v big req)
    with assms(3,5) run_request_ran [OF assms(1,2) _ assms(4)] show ?thesis by simp
  next
    case (Do_wait_for_reply k e)
    with assms(3) have k: "(ucast k :: u64) \<le> out_request (c_out c)" by (simp add: word_le_nat_alt unat_ucast32)
    moreover have "unat (out_request (c_out c)) < 2 ^ 32" using assms(4) by (simp add: room_def)
    ultimately have "widen_request (out_request (c_out c)) (ucast (ucast k :: u64)) = ucast k"
      by (intro widen_request_eq) simp_all
    moreover have "(ucast (ucast k :: u64) :: u32) = k"
      using unat_low32 [of "ucast k"] unat_bound32 [of k] by (intro unat_eqI) (simp add: unat_ucast32)
    ultimately have "widen_request (out_request (c_out c)) k = ucast k" by simp
    with Do_wait_for_reply assms(3,5) none triv fl [of "For_reply k e"] k show ?thesis by (auto split: if_splits)
  next
    case Do_wait_for_event
    with assms(5) triv run_event_ran(1) [OF assms(1,2)] show ?thesis by (auto split: if_splits)
  qed
qed

text \<open>
  A thread in \<open>poll\<close>, or woken, goes on. A thread that waits for the writer need not hand the socket over, since it was
  not waiting for it; it may do so.
\<close>

lemma resume_ran:
  assumes "shared_ok (of_bool (in_poll t) + n) (of_bool (sending t) + m) (held t + M) c w" and "all_written c"
    and "control_ok (unat (out_request (c_out c))) t" and "runnable t" and "room c" and "resume p t c w = Some (t', c', w')"
    and "flush_safe (c_out c) t"
  obtains c1 w1 where "ran n m M c1 w1 (t', c', w')" and "out_request (c_out c1) = out_request (c_out c)"
    and "request_written (c_out c1) = request_written (c_out c)"
    and "in_poll t \<or> socket_sleeper t \<Longrightarrow> handed n (t', c', w')" and "sending t \<Longrightarrow> announced (t', c', w')"
proof (cases t)
  case (In_poll_send v p1)
  with assms(6) obtain ret v' c1 w1 where l: "conn_wait_leave p (Some v) c w = Some (ret, Some v', c1, w1)"
    and r: "(t', c', w') = run_send ret v' p1 c1 w1" by (auto simp: bind_eq_Some_conv2)
  from assms(1) In_poll_send have s: "shared_ok (Suc n) (Suc m) M c w" by simp
  note ls = leave_shared_send [OF l s]
  have "purpose_ok (unat (out_request (c_out c1))) p1" using assms(3) In_poll_send ls(4) by simp
  from run_send_ran [OF ls(1,2) this, of ret v'] r ls(3-5) show thesis by (intro that [of c1 w1]) simp_all
next
  case (In_poll_reply rd e)
  with assms(6) obtain ret v' c1 w1 where l: "conn_wait_leave p None c w = Some (ret, v', c1, w1)"
    and r: "(t', c', w') = (if ret then run_reply rd e c1 w1 else reply_finish rd no_reply c1 w1)"
    by (auto simp: bind_eq_Some_conv2)
  from assms(1) In_poll_reply have s: "shared_ok (Suc n) m (add_mset rd M) c w" by simp
  note ls = leave_shared [OF l s assms(2)]
  from run_reply_ran [OF ls(1,2), of e] reply_finish_ran [OF ls(1,2), of no_reply] r ls(3) In_poll_reply show thesis
    by (intro that [of c1 w1]) (auto split: if_splits)
next
  case In_poll_event
  with assms(6) obtain ret v' c1 w1 where l: "conn_wait_leave p None c w = Some (ret, v', c1, w1)"
    and r: "(t', c', w') = (if ret then run_event c1 w1 else (Outside (Some (Ret_event None)), c1, xcb_in_wake_up_next_reader c1 w1))"
    by (auto simp: bind_eq_Some_conv2)
  from assms(1) In_poll_event have s: "shared_ok (Suc n) m M c w" by simp
  note ls = leave_shared [OF l s assms(2)]
  let ?fin = "(Outside (Some (Ret_event None)), c1, xcb_in_wake_up_next_reader c1 w1)"
  have "ran n m M c1 w1 ?fin \<and> handed n ?fin"
    using ls(1,2) by (auto simp: ran_def handed_def wake_up_next socket_sleeper_def out_sleeper_def)
  with run_event_ran [OF ls(1,2)] r ls(3) In_poll_event show thesis
    by (intro that [of c1 w1]) (auto split: if_splits)
next
  case (On_out_flush b req p1)
  with assms flush_wait_ran [of n m M c w p1] show thesis
    by (intro that [of c w]) (auto simp: socket_sleeper_def)
next
  case (On_out_request b fl sp v big req)
  with assms run_request_ran [of n m M c w v] show thesis
    by (intro that [of c w]) (auto simp: socket_sleeper_def)
next
  case (On_reader b rd e)
  with assms run_reply_ran [of n m rd M c w e] show thesis by (intro that [of c w]) auto
next
  case (On_event b)
  with assms run_event_ran [of n m M c w] show thesis by (intro that [of c w]) auto
qed (use assms(3,6) in auto)

end
