(* ===== verification/XcbInterleave.thy ===== *)
theory XcbInterleave
  imports XcbMonitor
begin

text \<open>
  What holds in every state that threads on one connection can reach, whatever the order of their
  steps. The invariant counts the threads in \<open>poll\<close> and the threads that write, lists the readers that wait, and says
  that no wake-up has been lost. Its consequences are mutual exclusion of writers, that
  the list of readers never points into the stack of a call that has returned, and that some
  thread can always go on. One wake-up the code never sends is shown at the end.
\<close>

section \<open>The invariant\<close>

text \<open>
  No wake-up is lost: when a thread sleeps until it may read, another one is in \<open>poll\<close> or a
  sleeper has been woken; when a thread sleeps until a writer is done, there is a writer.
\<close>

definition no_lost_reader :: "control list \<Rightarrow> bool" where
  "no_lost_reader ts \<longleftrightarrow> ((\<exists>t \<in> set ts. socket_sleeper t) \<longrightarrow>
     (\<exists>t \<in> set ts. in_poll t) \<or> (\<exists>t \<in> set ts. socket_sleeper t \<and> woken t))"

definition no_lost_writer :: "control list \<Rightarrow> bool" where
  "no_lost_writer ts \<longleftrightarrow> ((\<exists>t \<in> set ts. out_sleeper t \<and> \<not> woken t) \<longrightarrow> (\<exists>t \<in> set ts. sending t))"

definition machine_inv :: "machine \<Rightarrow> bool" where
  "machine_inv s \<longleftrightarrow> (case s of (ts, c, w) \<Rightarrow>
     shared_ok (pollers ts) (senders ts) (waiting_readers ts) c w \<and> all_written c
     \<and> (\<forall>t \<in> set ts. control_ok (unat (out_request (c_out c))) t \<and> flush_safe (c_out c) t) \<and> no_lost_reader ts \<and> no_lost_writer ts)"

lemma sleeper_simps [simp]:
  "socket_sleeper (wake t) = socket_sleeper t" "out_sleeper (wake t) = out_sleeper t"
  "\<not> socket_sleeper (Outside r)" "\<not> out_sleeper (Outside r)"
  by (simp_all add: socket_sleeper_def out_sleeper_def)

lemma not_waiting_holds_none: "\<not> in_poll t \<Longrightarrow> \<not> socket_sleeper t \<Longrightarrow> held t = {#}"
  by (cases t) (simp_all add: socket_sleeper_def)

text \<open>
  Thread \<open>i\<close> ran and then sent its signals, which wake some of the others: \<open>us\<close> are the others
  before, \<open>us'\<close> after.
\<close>

lemma after_index:
  assumes index: "i < length ts" and sent_signals: "signals cs (ts[i := Outside r]) ts'"
  shows "i < length ts'" "ts' ! i = Outside r"
  using awakened_counts [OF signals_awakened [OF sent_signals]] awakened_nth [OF signals_awakened [OF sent_signals], of i] index by auto

lemma after_counts:
  assumes index: "i < length ts" and sent_signals: "signals cs (ts[i := Outside r]) ts'"
  shows "pollers (others i ts') = pollers (others i ts)" "senders (others i ts') = senders (others i ts)"
  "waiting_readers (others i ts') = waiting_readers (others i ts)"
  using awakened_counts [OF signals_awakened [OF sent_signals]] counts_but_one [OF after_index(1) [OF assms]]
    after_index(2) [OF assms] counts_but_one [of i "ts[i := Outside r]"] index
  by auto

lemma after_sets:
  assumes index: "i < length ts" and sent_signals: "signals cs (ts[i := Outside r]) ts'"
  shows "set ts = insert (ts ! i) (set (others i ts))" "set ts' = insert (Outside r) (set (others i ts'))"
  "set (ts[i := Outside r]) = insert (Outside r) (set (others i ts))"
  "set (ts'[i := t]) = insert t (set (others i ts'))"
  using counts_but_one(4) [OF index] counts_but_one(4) [OF after_index(1) [OF assms]] after_index [OF assms]
    counts_but_one(4) [of i "ts[i := Outside r]"] counts_but_one(4) [of i "ts'[i := t]"] index by simp_all

lemma other_back:
  assumes index: "i < length ts" and sent_signals: "signals cs (ts[i := Outside r]) ts'"
    and "t' \<in> set (others i ts')" and "sleeps_on t' \<noteq> None"
  shows "\<exists>t \<in> set (others i ts). t' = t \<or> t' = wake t"
  using awakened_back [OF signals_awakened [OF sent_signals], of t'] after_sets(2,3) [OF index sent_signals] assms(3,4)
  by (cases t') auto

lemma other_woken:
  assumes index: "i < length ts" and sent_signals: "signals cs (ts[i := Outside r]) ts'"
    and t: "t \<in> set (others i ts)" "sleeps_on t = Some cnd" "woken t \<or> cnd \<in> set cs"
  shows "\<exists>t' \<in> set (others i ts'). sleeps_on t' = Some cnd \<and> woken t'"
proof -
  note set_split = after_sets [OF index sent_signals]
  have "t \<in> set (ts[i := Outside r])" using t(1) set_split(3) by simp
  with t(2,3) signals_wake [OF sent_signals] awakened_keeps_woken [OF signals_awakened [OF sent_signals]]
  have "\<exists>t' \<in> set ts'. sleeps_on t' = Some cnd \<and> woken t'" by blast
  then show ?thesis using set_split(2) by auto
qed

lemma reader_kept:
  assumes index: "i < length ts" and sent_signals: "signals cs (ts[i := Outside r]) ts'"
    and "socket_sleeper t \<longrightarrow> pollers (others i ts) \<noteq> 0"
    and "mset (readers (c_in c')) = held t + waiting_readers (others i ts)"
    and "handed (pollers (others i ts)) (t, c', w') \<and> cs = os_signals w'
      \<or> \<not> in_poll (ts ! i) \<and> \<not> socket_sleeper (ts ! i) \<and> no_lost_reader ts"
  shows "no_lost_reader (ts'[i := t])"
proof -
  note set_split = after_sets [OF index sent_signals] and others_counts = after_counts [OF index sent_signals]
    and came_from = other_back [OF index sent_signals] and other_woken = other_woken [OF index sent_signals]
  show ?thesis
  proof (cases "in_poll t \<or> pollers (others i ts) \<noteq> 0")
    case True
    then have "\<exists>x \<in> set (ts'[i := t]). in_poll x"
      using set_split(4) others_counts(1) counts_zero(1) [of "others i ts'"] by auto
    then show ?thesis by (simp add: no_lost_reader_def)
  next
    case False
    then have t: "\<not> in_poll t" "\<not> socket_sleeper t" using assms(3) by simp_all
    have np: "\<not> in_poll x" if "x \<in> set (others i ts)" for x
      using False counts_zero(1) [of "others i ts"] that by simp
    have goal: "no_lost_reader (ts'[i := t])"
      if "x \<in> set (others i ts)" "sleeps_on x = Some cnd" "cnd \<noteq> OutCond" "woken x \<or> cnd \<in> set cs" for x cnd
      using other_woken [OF that(1,2,4)] that(3) set_split(4) by (auto simp: no_lost_reader_def socket_sleeper_def)
    show ?thesis
    proof (cases "\<exists>s \<in> set (others i ts). socket_sleeper s")
      case False
      have "\<not> socket_sleeper s'" if s': "s' \<in> set (others i ts')" for s'
      proof
        assume "socket_sleeper s'"
        with came_from [OF s'] obtain s where "s \<in> set (others i ts)" "s' = s \<or> s' = wake s" by (auto simp: socket_sleeper_def)
        with False \<open>socket_sleeper s'\<close> show False by auto
      qed
      then show ?thesis using t(2) set_split(4) by (auto simp: no_lost_reader_def)
    next
      case True
      then obtain s where s: "s \<in> set (others i ts)" "socket_sleeper s" by blast
      from assms(5) show ?thesis
      proof
        assume h: "handed (pollers (others i ts)) (t, c', w') \<and> cs = os_signals w'"
        then have nc: "next_cond c' \<in> set cs" using False t(1) by (simp add: handed_def)
        have rds: "mset (readers (c_in c')) = waiting_readers (others i ts)"
          using assms(4) not_waiting_holds_none [OF t] by simp
        show ?thesis
        proof (cases "readers (c_in c')")
          case Nil
          then have "waiting_readers (others i ts) = {#}" using rds by simp
          then have none: "rd \<notin># held s" for rd using in_waiting_readers [of rd "others i ts"] s(1) by auto
          then have "sleeps_on s = Some EventCond" using s(2) by (cases s) (auto simp: socket_sleeper_def)
          with goal [OF s(1)] nc Nil show ?thesis by (simp add: next_cond_def)
        next
          case (Cons rd rds')
          then have "rd \<in># waiting_readers (others i ts)" using rds by (metis list.set_intros(1) set_mset_mset)
          then obtain x where x: "x \<in> set (others i ts)" "rd \<in># held x" by (auto simp: in_waiting_readers)
          with np [OF x(1)] have "sleeps_on x = Some (ReaderCond (rd_cond rd))" by (cases x) auto
          with goal [OF x(1)] nc Cons show ?thesis by (simp add: next_cond_def)
        qed
      next
        assume "\<not> in_poll (ts ! i) \<and> \<not> socket_sleeper (ts ! i) \<and> no_lost_reader ts"
        with s np set_split(1) obtain x where x: "x \<in> set (others i ts)" "socket_sleeper x" "woken x"
          by (auto simp: no_lost_reader_def)
        then obtain cnd where "sleeps_on x = Some cnd" "cnd \<noteq> OutCond" by (auto simp: socket_sleeper_def)
        with goal [OF x(1)] x(3) show ?thesis by simp
      qed
    qed
  qed
qed

lemma writer_kept:
  assumes index: "i < length ts" and sent_signals: "signals cs (ts[i := Outside r]) ts'"
    and "out_sleeper t \<longrightarrow> senders (others i ts) \<noteq> 0"
    and "sending t \<or> OutCond \<in> set cs \<or> \<not> sending (ts ! i) \<and> no_lost_writer ts"
  shows "no_lost_writer (ts'[i := t])"
proof -
  note set_split = after_sets [OF index sent_signals] and others_counts = after_counts [OF index sent_signals]
    and came_from = other_back [OF index sent_signals] and other_woken = other_woken [OF index sent_signals]
  show ?thesis
  proof (cases "sending t \<or> senders (others i ts) \<noteq> 0")
    case True
    then have "\<exists>x \<in> set (ts'[i := t]). sending x"
      using set_split(4) others_counts(2) counts_zero(2) [of "others i ts'"] by auto
    then show ?thesis by (simp add: no_lost_writer_def)
  next
    case False
    have ns: "\<not> sending x" if "x \<in> set (others i ts)" for x
      using False counts_zero(2) [of "others i ts"] that by simp
    have "woken s" if s: "s \<in> set (ts'[i := t])" "out_sleeper s" for s
    proof -
      have s': "s \<in> set (others i ts')" using s assms(3) False set_split(4) by auto
      show ?thesis
      proof (cases "OutCond \<in> set cs")
        case True
        with signals_broadcast [OF sent_signals] s s' set_split(2) show ?thesis by (auto simp: out_sleeper_def)
      next
        case no: False
        with assms(4) False have "\<not> sending (ts ! i)" "no_lost_writer ts" by simp_all
        from came_from [OF s'] s(2) obtain s0 where s0: "s0 \<in> set (others i ts)" "s = s0 \<or> s = wake s0"
          by (auto simp: out_sleeper_def)
        with s(2) have "out_sleeper s0" by auto
        have "woken s0"
        proof (rule ccontr)
          assume "\<not> woken s0"
          with \<open>no_lost_writer ts\<close> \<open>out_sleeper s0\<close> s0(1) set_split(1) obtain x where "x \<in> set ts" "sending x"
            unfolding no_lost_writer_def by blast
          with ns \<open>\<not> sending (ts ! i)\<close> set_split(1) show False by auto
        qed
        with s0(2) show ?thesis by auto
      qed
    qed
    then show ?thesis by (auto simp: no_lost_writer_def)
  qed
qed

text \<open>One stretch of code by thread \<open>i\<close>, with its signals, keeps the invariant.\<close>

lemma section_keeps_inv:
  assumes i: "i < length ts" and sg: "signals (os_signals w') (ts[i := Outside r]) ts'"
    and ran: "ran (pollers (others i ts)) (senders (others i ts)) (waiting_readers (others i ts)) c1 w1 (t, c', w')"
    and same: "out_request (c_out c1) = out_request (c_out c)" "request_written (c_out c1) = request_written (c_out c)"
    and inv: "machine_inv (ts, c, w)"
    and rd: "in_poll (ts ! i) \<or> socket_sleeper (ts ! i) \<Longrightarrow> handed (pollers (others i ts)) (t, c', w')"
    and wr: "sending (ts ! i) \<Longrightarrow> announced (t, c', w')"
  shows "machine_inv (ts'[i := t], c', w')"
proof -
  note i' = after_index [OF i sg] and cnt = after_counts [OF i sg] and sets = after_sets [OF i sg]
  note n = counts_but_one [of i "ts'[i := t]"]
  have sh: "shared_ok (of_bool (in_poll t) + pollers (others i ts)) (of_bool (sending t) + senders (others i ts))
      (held t + waiting_readers (others i ts)) c' w'" and wrt: "all_written c'"
    and tok: "control_ok (unat (out_request (c_out c'))) t"
    and tfl: "flush_safe (c_out c') t" and mono: "out_request (c_out c) \<le> out_request (c_out c')"
      "request_written (c_out c) \<le> request_written (c_out c')"
    and sl: "socket_sleeper t \<longrightarrow> pollers (others i ts) \<noteq> 0" "out_sleeper t \<longrightarrow> senders (others i ts) \<noteq> 0"
    using ran same by (auto simp: ran_def)
  have le': "unat (out_request (c_out c)) \<le> unat (out_request (c_out c'))" using mono(1) by (simp add: word_le_nat_alt)
  have sh0: "writing (c_out c) = int (of_bool (sending (ts ! i)) + senders (others i ts))"
    "request_written (c_out c) \<le> out_request (c_out c)"
    and ok: "\<forall>x \<in> set ts. control_ok (unat (out_request (c_out c))) x \<and> flush_safe (c_out c) x"
    and nlr: "no_lost_reader ts" and nlw: "no_lost_writer ts"
    using inv counts_but_one(2) [OF i] by (auto simp: machine_inv_def shared_ok_def word_le_nat_alt)
  have fl: "flush_safe (c_out c') y" if y: "flush_safe (c_out c) y" for y
  proof (cases y)
    case (On_out_flush b r0 p)
    have r0: "r0 \<le> out_request (c_out c)" using y On_out_flush sh0(2) by (auto split: if_splits intro: order_trans)
    show ?thesis
    proof (cases "writing (c_out c') = 0")
      case True
      then have "int (of_bool (sending t) + senders (others i ts)) = 0" using sh by (simp add: shared_ok_def)
      then have t0: "\<not> sending t" "senders (others i ts) = 0" by (simp_all del: of_nat_add of_nat_of_bool)
      show ?thesis
      proof (cases "sending (ts ! i)")
        case s: True
        with wr t0 have "request_written (c_out c') = out_request (c_out c')" by (simp add: announced_def)
        with On_out_flush True r0 mono(1) show ?thesis by (simp add: order_trans)
      next
        case False
        with sh0(1) t0 y On_out_flush True mono(2) show ?thesis by (auto intro: order_trans)
      qed
    next
      case False
      with On_out_flush r0 mono(1) show ?thesis by (simp add: order_trans)
    qed
  qed simp_all
  have "control_ok (unat (out_request (c_out c'))) x \<and> flush_safe (c_out c') x" if "x \<in> set (others i ts')" for x
  proof -
    have "x \<in> set ts'" using that sets(2) by simp
    then obtain y where y: "y \<in> set (ts[i := Outside r])" "x = y \<or> x = wake y"
      using awakened_back [OF signals_awakened [OF sg]] by blast
    have "control_ok (unat (out_request (c_out c))) y \<and> flush_safe (c_out c) y"
      using y(1) sets(1,3) ok by auto
    with control_ok_mono [OF _ le', of y] fl [of y] y(2) show ?thesis by auto
  qed
  with tok tfl sets(4) [of t]
  have oks: "\<forall>x \<in> set (ts'[i := t]). control_ok (unat (out_request (c_out c'))) x \<and> flush_safe (c_out c') x" by simp
  have rds: "mset (readers (c_in c')) = held t + waiting_readers (others i ts)" using sh by (simp add: shared_ok_def)
  have "no_lost_reader (ts'[i := t])"
    using rd nlr by (intro reader_kept [OF i sg sl(1) rds]) auto
  moreover have "no_lost_writer (ts'[i := t])"
    using wr nlw by (intro writer_kept [OF i sg sl(2)]) (auto simp: announced_def)
  ultimately show ?thesis
    using sh wrt oks n i'(1) cnt by (simp add: machine_inv_def)
qed

lemma awakened_keeps_inv:
  assumes "machine_inv (ts, c, w)" and "list_all2 awakened ts ts'" and "undisturbed c w c' w'"
  shows "machine_inv (ts', c', w')"
proof -
  note cnt = awakened_counts [OF assms(2)]
  have o: "c_out c' = c_out c" using assms(3) by (simp add: undisturbed_def)
  have ok: "\<forall>t \<in> set ts'. control_ok (unat (out_request (c_out c'))) t \<and> flush_safe (c_out c') t"
    using assms(1) awakened_back [OF assms(2)] o by (fastforce simp: machine_inv_def)
  have "no_lost_reader ts'"
  proof (cases "\<exists>t \<in> set ts'. socket_sleeper t")
    case True
    then obtain t where "t \<in> set ts'" "socket_sleeper t" by blast
    with awakened_back [OF assms(2)] have "\<exists>t \<in> set ts. socket_sleeper t" by fastforce
    with assms(1) have "(\<exists>t \<in> set ts. in_poll t) \<or> (\<exists>t \<in> set ts. socket_sleeper t \<and> woken t)"
      by (auto simp: machine_inv_def no_lost_reader_def)
    then show ?thesis
    proof
      assume "\<exists>t \<in> set ts. in_poll t"
      then have "pollers ts \<noteq> 0" by (auto simp: counts_zero)
      then have "pollers ts' \<noteq> 0" using cnt by simp
      then show ?thesis by (auto simp: no_lost_reader_def counts_zero)
    next
      assume "\<exists>t \<in> set ts. socket_sleeper t \<and> woken t"
      then obtain t cnd where t: "t \<in> set ts" "sleeps_on t = Some cnd" "cnd \<noteq> OutCond" "woken t"
        by (auto simp: socket_sleeper_def)
      from awakened_keeps_woken [OF assms(2) t(1,2,4)] t(3) show ?thesis
        by (auto simp: no_lost_reader_def socket_sleeper_def)
    qed
  qed (simp add: no_lost_reader_def)
  moreover have "no_lost_writer ts'"
  proof (cases "\<exists>t \<in> set ts'. out_sleeper t \<and> \<not> woken t")
    case True
    then obtain t' where "t' \<in> set ts'" "out_sleeper t'" "\<not> woken t'" by blast
    with awakened_back [OF assms(2)] obtain t where "t \<in> set ts" "out_sleeper t" "\<not> woken t"
      by (metis sleeper_simps(2) wake_simps(6))
    with assms(1) have "senders ts \<noteq> 0" by (auto simp: machine_inv_def no_lost_writer_def counts_zero)
    then have "senders ts' \<noteq> 0" using cnt by simp
    then show ?thesis by (auto simp: no_lost_writer_def counts_zero)
  qed (auto simp: no_lost_writer_def)
  ultimately show ?thesis
    using assms(1) cnt ok undisturbed_shared [OF assms(3)] undisturbed_written [OF assms(3)]
    by (simp add: machine_inv_def)
qed

lemma discard_undisturbed:
  "discard_reply k c w = (c', w') \<Longrightarrow> undisturbed c w c' w'"
  by (auto simp: discard_reply_def insert_pending_discard_def undisturbed_def xcb_conn_shutdown_def Let_def malloc_ok_def
      split: if_splits prod.splits list.splits option.splits)

lemma run_quick_undisturbed:
  assumes "run_quick q c w = Some (c', w')"
  shows "undisturbed c w c' w'"
proof (cases q)
  case Do_poll_for_event
  with assms obtain e where e: "xcb_poll_for_event c w = Some (e, c', w')" by (auto simp: bind_eq_Some_conv2)
  show ?thesis
  proof (cases "has_error c")
    case True
    with e show ?thesis by (simp add: xcb_poll_for_event_def undisturbed_def)
  next
    case False
    obtain e1 c1 where ge: "get_event c = (e1, c1)" by (metis surj_pair)
    note u = get_event_undisturbed [OF ge, of w]
    show ?thesis
    proof (cases e1)
      case (Some x)
      with e False ge u show ?thesis by (simp add: xcb_poll_for_event_def)
    next
      case None
      with e False ge obtain ok c2 w2 where r: "xcb_in_read c1 w = Some (ok, c2, w2)"
        and res: "(if ok then let (e, c) = get_event c2 in Some (e, c, w2) else Some (None, c2, w2)) = Some (e, c', w')"
        by (auto simp: xcb_poll_for_event_def bind_eq_Some_conv2)
      have "undisturbed c2 w2 c' w'"
        using res get_event_undisturbed [of c2 _ _ w2] by (auto simp: undisturbed_def split: if_splits prod.splits)
      with u reads_only_undisturbed [OF reads_only_in_read(1) [OF r]] show ?thesis by (simp add: undisturbed_def)
    qed
  qed
next
  case (Do_poll_for_reply k e)
  with assms show ?thesis
    using poll_for_reply_undisturbed [of k e c w]
    by (auto simp: xcb_poll_for_reply_def undisturbed_def split: if_splits prod.splits)
next
  case (Do_discard_reply k)
  with assms discard_undisturbed show ?thesis
    by (auto simp: xcb_discard_reply_def undisturbed_def split: if_splits)
qed

section \<open>Every step keeps the invariant\<close>

lemma spurious_awakened: "list_all2 awakened ts (ts[i := wake (ts ! i)])"
proof -
  have "awakened (ts ! j) (ts[i := wake (ts ! i)] ! j)" if "j < length ts" for j
    using that by (cases "j = i") (simp_all add: awakened_def)
  then show ?thesis by (simp add: list_all2_conv_all_nth)
qed

lemma machine_step_inv: "machine_step s s' \<Longrightarrow> machine_inv s \<Longrightarrow> machine_inv s'"
proof (induction rule: machine_step.induct)
  case (Begin i ts r call c w t c' w' ts')
  note cnt = counts_but_one [OF Begin.hyps(1)]
  let ?w = "w\<lparr>os_signals := []\<rparr>"
  have "shared_ok (pollers (others i ts)) (senders (others i ts)) (waiting_readers (others i ts)) c ?w" "all_written c"
    using Begin.prems Begin.hyps(2) cnt by (simp_all add: machine_inv_def shared_ok_def)
  from start_ran [OF this Begin.hyps(3-5)]
  have "ran (pollers (others i ts)) (senders (others i ts)) (waiting_readers (others i ts)) c ?w (t, c', w')" .
  from section_keeps_inv [OF Begin.hyps(1,6) this refl refl Begin.prems] Begin.hyps(2) show ?case by simp
next
  case (Continue i ts c p w t c' w' r ts')
  note cnt = counts_but_one [OF Continue.hyps(1)]
  let ?w = "w\<lparr>os_signals := []\<rparr>"
  have sh: "shared_ok (of_bool (in_poll (ts ! i)) + pollers (others i ts)) (of_bool (sending (ts ! i)) + senders (others i ts))
      (held (ts ! i) + waiting_readers (others i ts)) c ?w" and aw: "all_written c"
    and ok: "control_ok (unat (out_request (c_out c))) (ts ! i)" and fl: "flush_safe (c_out c) (ts ! i)"
    using Continue.prems cnt by (simp_all add: machine_inv_def shared_ok_def)
  obtain c1 w1 where ran: "ran (pollers (others i ts)) (senders (others i ts)) (waiting_readers (others i ts)) c1 w1 (t, c', w')"
    and same: "out_request (c_out c1) = out_request (c_out c)" "request_written (c_out c1) = request_written (c_out c)"
    and hd: "in_poll (ts ! i) \<or> socket_sleeper (ts ! i) \<Longrightarrow> handed (pollers (others i ts)) (t, c', w')"
    and an: "sending (ts ! i) \<Longrightarrow> announced (t, c', w')"
    by (elim resume_ran [OF sh aw ok Continue.hyps(2,3,4) fl])
  show ?case by (rule section_keeps_inv [OF Continue.hyps(1,5) ran same Continue.prems hd an])
next
  case (Quick q c w c' w' ts ts')
  have u: "undisturbed c w c' w'" using run_quick_undisturbed [OF Quick.hyps(1)] by (simp add: undisturbed_def)
  show ?case by (rule awakened_keeps_inv [OF Quick.prems signals_awakened [OF Quick.hyps(2)] u])
next
  case (Spurious i ts c w)
  show ?case by (rule awakened_keeps_inv [OF Spurious.prems spurious_awakened]) (simp add: undisturbed_def)
next
  case (System ts c w ms rs ws ps)
  show ?case by (rule awakened_keeps_inv [OF System.prems]) (simp_all add: undisturbed_def list_all2_same awakened_def)
qed

lemma machine_reachable: "machine_step\<^sup>*\<^sup>* s s' \<Longrightarrow> machine_inv s \<Longrightarrow> machine_inv s'"
  by (induction rule: rtranclp_induct) (auto intro: machine_step_inv)

lemma counts_idle:
  "pollers (replicate k (Outside r)) = 0" "senders (replicate k (Outside r)) = 0" "waiting_readers (replicate k (Outside r)) = {#}"
  by (simp_all add: counts_zero) (induction k, simp_all add: waiting_readers_def)

lemma machine_start:
  assumes "fresh_conn f c" and "os_others w = []"
  shows "machine_inv (replicate k (Outside None), c, w)"
  using assms
  by (auto simp: machine_inv_def counts_idle shared_ok_def fresh_conn_def readers_ok_def all_written_def
      no_lost_reader_def no_lost_writer_def)

section \<open>A run of two threads\<close>

text \<open>
  Thread 1 sends request 1, which is checked and has no reply, and request 2, which has one. Thread 0
  then waits for events, and thread 1 for the error of request 1: it flushes both requests, finds thread 0 in
  \<open>poll\<close> and goes to sleep.
\<close>

definition two_sent :: xcb_connection_t where
  "two_sent = session_conn\<lparr>c_in := zero_in\<lparr>request_expected := 2, pending_replies :=
       [\<lparr>first_request = 1, last_request = 1, workaround = WORKAROUND_NONE, pend_flags = XCB_REQUEST_CHECKED\<rparr>]\<rparr>,
     c_out := zero_out\<lparr>out_request := 2, out_queue := [127, 0, 1, 0, 43, 0, 1, 0]\<rparr>\<rparr>"

definition reply_req :: xcb_protocol_request_t where
  "reply_req = \<lparr>req_ext = None, opcode = 43, isvoid = False\<rparr>"

lemma two_requests:
  "start (Do_request XCB_REQUEST_CHECKED 2 [[127, 0, 1, 0]] 0 sample_req) session_conn quiet_os = Some (Outside (Some (Ret_request 1)),
     session_conn\<lparr>c_in := zero_in\<lparr>pending_replies :=
       [\<lparr>first_request = 1, last_request = 1, workaround = WORKAROUND_NONE, pend_flags = XCB_REQUEST_CHECKED\<rparr>]\<rparr>,
     c_out := zero_out\<lparr>out_request := 1, out_queue := [127, 0, 1, 0]\<rparr>\<rparr>, quiet_os)"
  "start (Do_request 0 2 [[43, 0, 1, 0]] 0 reply_req) (session_conn\<lparr>c_in := zero_in\<lparr>pending_replies :=
       [\<lparr>first_request = 1, last_request = 1, workaround = WORKAROUND_NONE, pend_flags = XCB_REQUEST_CHECKED\<rparr>]\<rparr>,
     c_out := zero_out\<lparr>out_request := 1, out_queue := [127, 0, 1, 0]\<rparr>\<rparr>) quiet_os
   = Some (Outside (Some (Ret_request 2)), two_sent, quiet_os)"
  by (simp_all add: run_request_def glx_workaround_def number_request_def sync_loop.simps needs_sync_def xcb_in_expect_reply_def
      malloc_ok_def add_prefix_def XCB_QUEUE_BUFFER_SIZE_def flag_consts two_sent_def reply_req_def
      sample_req_def session_conn_def sample_conn_def zero_defs bump_request_def expect_up_to_here_def set_out_queue_def)

lemma quiet_signals [simp]: "quiet_os\<lparr>os_signals := []\<rparr> = quiet_os"
  by (simp add: quiet_os_def)

lemma signals_none: "list_all (\<lambda>t. sleeps_on t = None) ts \<Longrightarrow> signals cs ts ts"
proof (induction cs)
  case (Cons cnd cs)
  have "\<not> blocked_on cnd t" if "t \<in> set ts" for t
    using Cons.prems that by (auto simp: list_all_iff blocked_on_def)
  then have "signalled cnd ts ts" by (auto simp: signalled_def list_ex_iff list_all2_same intro: map_idI [symmetric])
  with Cons show ?case by (auto intro: signals.Next)
qed (rule signals.None)

definition run_conn :: xcb_connection_t where
  "run_conn = set_out_queue [] (conn_wait_enter None two_sent)"

definition run_reader :: reader_list where
  "run_reader = \<lparr>rd_request = 1, rd_cond = 0\<rparr>"

lemmas run_defs = run_conn_def conn_wait_enter_def two_sent_def session_conn_def sample_conn_def zero_defs add_reading_def
  add_writing_def set_out_queue_def

lemma begin_step:
  assumes "i < length ts" and "ts ! i = Outside r" and "call_ok call c" and "room c"
    and "start call c (w\<lparr>os_signals := []\<rparr>) = Some (t, c', w')" and "list_all (\<lambda>t. sleeps_on t = None) ts"
  shows "machine_step (ts, c, w) (ts[i := t], c', w')"
proof -
  have "list_all (\<lambda>t. sleeps_on t = None) (ts[i := Outside r])"
    using assms(1,2,6) by (metis list_update_id)
  from machine_step.Begin [OF assms(1-5) signals_none [OF this]] show ?thesis by simp
qed

lemma continue_step:
  assumes "i < length ts" and "runnable (ts ! i)" and "room c"
    and "resume p (ts ! i) c (w\<lparr>os_signals := []\<rparr>) = Some (t, c', w')"
    and "signals (os_signals w') (ts[i := Outside None]) (ts[i := Outside None])"
  shows "machine_step (ts, c, w) (ts[i := t], c', w')"
  using machine_step.Continue [OF assms] by simp

abbreviation "one_sent \<equiv> session_conn\<lparr>c_in := zero_in\<lparr>pending_replies :=
    [\<lparr>first_request = 1, last_request = 1, workaround = WORKAROUND_NONE, pend_flags = XCB_REQUEST_CHECKED\<rparr>]\<rparr>,
  c_out := zero_out\<lparr>out_request := 1, out_queue := [127, 0, 1, 0]\<rparr>\<rparr>"

lemma run_sends:
  "machine_step\<^sup>*\<^sup>* (replicate 2 (Outside None), session_conn, quiet_os)
     ([In_poll_event, In_poll_send [[127, 0, 1, 0, 43, 0, 1, 0]] (For_reply 1 True)],
      conn_wait_enter (Some [[127, 0, 1, 0, 43, 0, 1, 0]]) run_conn, quiet_os)"
proof -
  let ?v = "[[127, 0, 1, 0, 43, 0, 1, 0]]" and ?ec = "conn_wait_enter None two_sent"
  have room: "room session_conn" "room one_sent" "room two_sent" "room ?ec"
    by (simp_all add: room_def run_defs)
  have "machine_step\<^sup>*\<^sup>* ([Outside None, Outside None], session_conn, quiet_os) ([Outside None, Outside (Some (Ret_request 1))], one_sent, quiet_os)"
    by (rule r_into_rtranclp, rule begin_step [where i = 1 and call = "Do_request XCB_REQUEST_CHECKED 2 [[127, 0, 1, 0]] 0 sample_req"
        and ts = "[Outside None, Outside None]", OF _ _ _ room(1), simplified]) (use two_requests(1) in \<open>simp_all add: nonempty_request_def\<close>)
  also have "machine_step \<dots> ([Outside None, Outside (Some (Ret_request 2))], two_sent, quiet_os)"
    by (rule begin_step [where i = 1 and call = "Do_request 0 2 [[43, 0, 1, 0]] 0 reply_req"
        and ts = "[Outside None, Outside (Some (Ret_request 1))]", OF _ _ _ room(2), simplified])
      (use two_requests(2) in \<open>simp_all add: nonempty_request_def\<close>)
  also have "machine_step \<dots> ([In_poll_event, Outside (Some (Ret_request 2))], ?ec, quiet_os)"
    by (rule begin_step [where i = 0 and call = Do_wait_for_event and ts = "[Outside None, Outside (Some (Ret_request 2))]", OF _ _ _ room(3), simplified])
      (simp_all add: run_event_def get_event_def run_defs)
  also have "machine_step \<dots> ([In_poll_event, In_poll_send ?v (For_reply 1 True)], conn_wait_enter (Some ?v) run_conn, quiet_os)"
    by (rule begin_step [where i = 1 and call = "Do_wait_for_reply 1 True" and ts = "[In_poll_event, Outside (Some (Ret_request 2))]", OF _ _ _ room(4), simplified])
      (simp_all add: run_flush_def run_send_def run_defs widen_request_def XCB_SEQUENCE_COMPARE_def)
  finally show ?thesis by (simp add: numeral_2_eq_2)
qed

lemma run_sleeps:
  "machine_step\<^sup>*\<^sup>* (replicate 2 (Outside None), session_conn, quiet_os)
     ([In_poll_event, On_reader False run_reader True],
      map_readers (\<lambda>_. [run_reader]) (run_conn\<lparr>c_out := (c_out run_conn)\<lparr>request_written := 2\<rparr>\<rparr>),
      quiet_os\<lparr>os_wire := [127, 0, 1, 0, 43, 0, 1, 0], os_signals := [OutCond, EventCond], os_next_cond := 1\<rparr>)"
proof -
  let ?v = "[[127, 0, 1, 0, 43, 0, 1, 0]]"
  let ?sc = "conn_wait_enter (Some ?v) run_conn"
  let ?w = "quiet_os\<lparr>os_writevs := [WAccept 8]\<rparr>"
  have room: "room ?sc" by (simp add: room_def run_defs)
  note run_sends
  also have "machine_step ([In_poll_event, In_poll_send ?v (For_reply 1 True)], ?sc, quiet_os)
      ([In_poll_event, In_poll_send ?v (For_reply 1 True)], ?sc, ?w)"
    using machine_step.System [of _ ?sc quiet_os "[]" "[WAccept 8]" "[]" "[]"] by (simp add: quiet_os_def)
  also have "machine_step \<dots> ([In_poll_event, On_reader False run_reader True],
      map_readers (\<lambda>_. [run_reader]) (run_conn\<lparr>c_out := (c_out run_conn)\<lparr>request_written := 2\<rparr>\<rparr>),
      quiet_os\<lparr>os_wire := [127, 0, 1, 0, 43, 0, 1, 0], os_signals := [OutCond, EventCond], os_next_cond := 1\<rparr>)"
    by (rule continue_step [where i = 1 and ts = "[In_poll_event, In_poll_send ?v (For_reply 1 True)]" and p = "PollOk POLLOUT",
          OF _ _ room, simplified])
      (simp_all add: runnable_def conn_wait_leave_def conn_wait_io_def write_vec_def os_writev_def POLLIN_def POLLOUT_def
        run_send_def send_done_def start_reply_def run_reply_def poll_for_reply_def reply_head_def XCB_SEQUENCE_COMPARE_32_def
        xcb_in_wake_up_next_reader_def os_signal_def map_readers_def run_reader_def run_defs Let_def signals_none)
  finally show ?thesis .
qed

text \<open>The reply to request 2 arrives: it settles request 1, but nobody is told.\<close>

definition waiting_conn :: xcb_connection_t where
  "waiting_conn = map_readers (\<lambda>_. [run_reader]) (run_conn\<lparr>c_out := (c_out run_conn)\<lparr>request_written := 2\<rparr>\<rparr>)"

definition settled_conn :: xcb_connection_t where
  "settled_conn = waiting_conn\<lparr>c_in := (c_in waiting_conn)\<lparr>request_read := 2, request_completed := 1, pending_replies := [],
     current_reply := [plain_reply (packet32 XCB_REPLY 2 0)]\<rparr>\<rparr>"

lemma reply_settles:
  assumes "os_recvs w = [RData (packet32 XCB_REPLY 2 0)]" and "os_mallocs w = []"
  shows "xcb_in_read waiting_conn w = Some (True, settled_conn, w\<lparr>os_recvs := []\<rparr>)"
proof -
  let ?bs = "packet32 XCB_REPLY 2 0"
  let ?g = "\<lparr>response_type = XCB_REPLY, sequence = 2, rep_length = 0\<rparr>"
  let ?c = "set_queue ?bs waiting_conn" and ?w = "w\<lparr>os_recvs := []\<rparr>"
  let ?c1 = "?c\<lparr>c_in := (c_in ?c)\<lparr>request_read := 2, request_completed := 1, pending_replies := []\<rparr>\<rparr>"
  have ts: "track_sequence ?g ?c ?w = (?c1, ?w)"
    by (simp add: track_sequence_def widen_sequence_def XCB_SEQUENCE_COMPARE_def packet_consts waiting_conn_def
        map_readers_def set_queue_def run_defs)
  have rp: "read_packet ?c ?w = Some (True, add_reply (plain_reply ?bs) (set_queue [] ?c1),
      signal_reader (request_read (c_in ?c1)) (readers (c_in ?c1)) ?w)"
    by (rule read_packet_reply [OF _ _ ts refl])
      (simp_all add: packet_pend_def current_pend_def packet_route_def pend_has_def packet_length_def packet_consts assms)
  have sg: "signal_reader (request_read (c_in ?c1)) (readers (c_in ?c1)) ?w = ?w"
    by (simp add: set_queue_def waiting_conn_def run_reader_def XCB_SEQUENCE_COMPARE_32_def map_readers_def)
  have c': "add_reply (plain_reply ?bs) (set_queue [] ?c1) = settled_conn"
    by (simp add: add_reply_def set_queue_def settled_conn_def waiting_conn_def map_readers_def run_defs)
  have "read_packets ?c ?w = Some (settled_conn, ?w)"
    using rp sg c'
    by (simp add: read_packets.simps [of ?c] read_packets.simps [of settled_conn] read_packet_def [of settled_conn])
      (simp add: settled_conn_def waiting_conn_def map_readers_def run_defs)
  moreover have "os_recv (IN_QUEUE_SIZE - length (in_queue (c_in waiting_conn))) (os_recvs w) = (Got ?bs, [])"
    using assms(1) by (simp add: IN_QUEUE_SIZE_def waiting_conn_def map_readers_def run_defs packet32_def)
  moreover have "in_queue (c_in waiting_conn) = []" by (simp add: waiting_conn_def map_readers_def run_defs)
  ultimately show ?thesis by (simp add: xcb_in_read_def)
qed

lemma run_settles:
  "\<exists>w'. machine_step\<^sup>*\<^sup>* (replicate 2 (Outside None), session_conn, quiet_os)
     ([In_poll_event, On_reader False run_reader True], settled_conn, w') \<and> os_recvs w' = []"
proof -
  let ?ts = "[In_poll_event, On_reader False run_reader True]"
  let ?w = "quiet_os\<lparr>os_wire := [127, 0, 1, 0, 43, 0, 1, 0], os_signals := [OutCond, EventCond], os_next_cond := 1\<rparr>"
  let ?w1 = "?w\<lparr>os_recvs := [RData (packet32 XCB_REPLY 2 0)]\<rparr>"
  let ?w2 = "?w\<lparr>os_signals := [], os_recvs := []\<rparr>"
  have room: "room waiting_conn" by (simp add: room_def waiting_conn_def map_readers_def run_defs)
  have s: "machine_step\<^sup>*\<^sup>* (replicate 2 (Outside None), session_conn, quiet_os) (?ts, waiting_conn, ?w)"
    using run_sleeps by (simp add: waiting_conn_def)
  also have "machine_step (?ts, waiting_conn, ?w) (?ts, waiting_conn, ?w1)"
    using machine_step.System [of ?ts waiting_conn ?w "[]" "[]" "[RData (packet32 XCB_REPLY 2 0)]" "[]"]
    by (simp add: quiet_os_def)
  also have "machine_step \<dots> (?ts, settled_conn, ?w2)"
  proof -
    have "xcb_in_read waiting_conn (?w1\<lparr>os_signals := []\<rparr>) = Some (True, settled_conn, ?w1\<lparr>os_signals := [], os_recvs := []\<rparr>)"
      by (rule reply_settles) (simp_all add: quiet_os_def)
    then have "resume (PollOk POLLIN) In_poll_event waiting_conn (?w1\<lparr>os_signals := []\<rparr>) = Some (In_poll_event, settled_conn, ?w2)"
      by (simp add: conn_wait_leave_def conn_wait_io_def POLLIN_def run_event_def get_event_def)
        (simp add: settled_conn_def waiting_conn_def map_readers_def run_defs)
    then show ?thesis
      by (intro continue_step [where i = 0 and ts = ?ts and p = "PollOk POLLIN", OF _ _ room, simplified])
        (simp_all add: runnable_def signals.None)
  qed
  finally show ?thesis by (intro exI [of _ ?w2]) simp
qed

section \<open>Properties\<close>

text \<open>
  C6: One writer at a time. Any number of threads send, flush, and wait for replies and events on a connection as
  \<open>xcb_connect_to_fd\<close> returns it, interleaved in any way. At every moment \<open>writing\<close> and \<open>reading\<close> are the numbers of
  threads inside \<open>poll\<close> to write and at all, at most one writes, and while it does the
  output queue stays empty. So no bytes of two threads are mixed, the assertion of \<open>write_vec\<close> holds, no thread
  ever sleeps inside \<open>_xcb_out_send\<close>, and when a writer is done, what a waiting flush asked for has been written, which is the
  assertion at the end of \<open>_xcb_out_flush_to\<close>.
\<close>

theorem one_writer_at_a_time:
  assumes "fresh_conn f c" and "os_others w = []"
    and "machine_step\<^sup>*\<^sup>* (replicate k (Outside None), c, w) (ts, c', w')"
  shows "writing (c_out c') = int (senders ts) \<and> reading (c_in c') = int (pollers ts) \<and> senders ts \<le> 1
    \<and> (senders ts = 1 \<longrightarrow> out_queue (c_out c') = [])
    \<and> (\<forall>b v p. On_out_send b v p \<notin> set ts)
    \<and> (\<forall>b r p. On_out_flush b r p \<in> set ts \<and> writing (c_out c') = 0 \<longrightarrow> r \<le> request_written (c_out c'))"
proof -
  have inv: "machine_inv (ts, c', w')" by (rule machine_reachable [OF assms(3) machine_start [OF assms(1,2)]])
  have "\<forall>t \<in> set ts. control_ok (unat (out_request (c_out c'))) t \<and> flush_safe (c_out c') t"
    using inv by (simp add: machine_inv_def)
  then have "(\<forall>b v p. On_out_send b v p \<notin> set ts)
    \<and> (\<forall>b r p. On_out_flush b r p \<in> set ts \<and> writing (c_out c') = 0 \<longrightarrow> r \<le> request_written (c_out c'))"
    by fastforce
  with inv show ?thesis by (auto simp: machine_inv_def shared_ok_def)
qed

theorem one_writer_at_a_time_witness:
  "\<exists>ts c w. machine_step\<^sup>*\<^sup>* (replicate 2 (Outside None), session_conn, quiet_os) (ts, c, w)
     \<and> senders ts = 1 \<and> pollers ts = 2 \<and> writing (c_out c) = 1 \<and> reading (c_in c) = 2 \<and> out_queue (c_out c) = []"
proof -
  have "os_others quiet_os = []" by (simp add: quiet_os_def)
  from one_writer_at_a_time [OF fresh_session_conn this run_sends] run_sends show ?thesis
    by (force simp: senders_def pollers_def)
qed

text \<open>
  C4: No wake-up is lost. In every reachable state with a call that has not returned, some thread can go on: it
  is in \<open>poll\<close>, and so returns when the server sends, or it has been woken. More precisely,
  a thread that sleeps until it may read has a reader of the socket or a woken sleeper beside it, and one
  that sleeps for a writer has a writer beside it. So the library never deadlocks by itself.
\<close>

theorem no_wakeup_lost:
  assumes "fresh_conn f c" and "os_others w = []"
    and "machine_step\<^sup>*\<^sup>* (replicate k (Outside None), c, w) (ts, c', w')"
  shows "((\<exists>t \<in> set ts. \<forall>r. t \<noteq> Outside r) \<longrightarrow> (\<exists>t \<in> set ts. runnable t))
    \<and> no_lost_reader ts \<and> no_lost_writer ts"
proof -
  have inv: "no_lost_reader ts" "no_lost_writer ts"
    using machine_reachable [OF assms(3) machine_start [OF assms(1,2)]] by (simp_all add: machine_inv_def)
  have "\<exists>t \<in> set ts. runnable t" if "t \<in> set ts" "\<forall>r. t \<noteq> Outside r" for t
  proof (cases "runnable t")
    case False
    then have "socket_sleeper t \<or> out_sleeper t \<and> \<not> woken t"
      using that(2) by (cases t) (auto simp: runnable_def socket_sleeper_def out_sleeper_def)
    moreover have "sending x \<Longrightarrow> in_poll x" for x by (cases x) simp_all
    ultimately show ?thesis
      using inv that(1) unfolding no_lost_reader_def no_lost_writer_def runnable_def by blast
  qed (use that in blast)
  with inv show ?thesis by blast
qed

theorem no_wakeup_lost_witness:
  "\<exists>ts c w. machine_step\<^sup>*\<^sup>* (replicate 2 (Outside None), session_conn, quiet_os) (ts, c, w)
     \<and> socket_sleeper (ts ! 1) \<and> \<not> runnable (ts ! 1) \<and> (\<exists>t \<in> set ts. runnable t)"
proof -
  let ?ts = "[In_poll_event, On_reader False run_reader True]"
  have "os_others quiet_os = []" by (simp add: quiet_os_def)
  from no_wakeup_lost [OF fresh_session_conn this run_sleeps] have "\<exists>t \<in> set ?ts. runnable t" by auto
  moreover have "socket_sleeper (?ts ! 1)" "\<not> runnable (?ts ! 1)" by (simp_all add: socket_sleeper_def runnable_def)
  ultimately show ?thesis using run_sleeps by blast
qed

text \<open>
  C12: The list of readers. The nodes of \<open>c->in.readers\<close> live in the stack frames of calls of
  \<open>xcb_wait_for_reply\<close>. In every reachable state they are exactly those of the calls
  that wait, each once, in the order of their requests: a call that has
  returned is never in the list.
\<close>

theorem readers_are_the_waiters:
  assumes "fresh_conn f c" and "os_others w = []"
    and "machine_step\<^sup>*\<^sup>* (replicate k (Outside None), c, w) (ts, c', w')"
  shows "mset (readers (c_in c')) = waiting_readers ts \<and> distinct (map rd_cond (readers (c_in c')))
    \<and> sorted_wrt (\<lambda>a b. unat (rd_request a) \<le> unat (rd_request b)) (readers (c_in c'))"
  using machine_reachable [OF assms(3) machine_start [OF assms(1,2)]]
  by (simp add: machine_inv_def shared_ok_def readers_ok_def)

theorem readers_are_the_waiters_witness:
  "\<exists>ts c w. machine_step\<^sup>*\<^sup>* (replicate 2 (Outside None), session_conn, quiet_os) (ts, c, w)
     \<and> waiting_readers ts = {#run_reader#} \<and> readers (c_in c) = [run_reader]"
proof -
  have "os_others quiet_os = []" by (simp add: quiet_os_def)
  from readers_are_the_waiters [OF fresh_session_conn this run_sleeps] run_sleeps show ?thesis
    by (force simp: waiting_readers_def)
qed

lemma signal_reader_only:
  "set (os_signals (signal_reader rr rds w)) \<subseteq> set (os_signals w) \<union> {ReaderCond (rd_cond rd) | rd. rd \<in> set rds \<and> rd_request rd = ucast rr}"
  by (induction rr rds w rule: signal_reader.induct) (auto simp: seq32_eq ucast32_id os_signal_def)

text \<open>
  C27: A wake-up that is never sent. A packet wakes only a reader that waits for exactly the request it
  answers. It also settles every earlier request, but a thread that waits for one of those stays asleep as long as
  another thread stays in \<open>poll\<close>: here one thread waits for events, and another for the outcome of request 1, which has no reply; the
  answer to request 2 has come, \<open>poll_for_reply\<close> would return at once, nothing more is on its way, and the
  waiting thread has not been woken.
\<close>

theorem settled_waiter_not_woken:
  "set (os_signals (signal_reader rr rds w)) \<subseteq> set (os_signals w) \<union> {ReaderCond (rd_cond rd) | rd. rd \<in> set rds \<and> rd_request rd = ucast rr}
   \<and> (\<exists>c w. machine_step\<^sup>*\<^sup>* (replicate 2 (Outside None), session_conn, quiet_os) ([In_poll_event, On_reader False run_reader True], c, w)
     \<and> os_recvs w = [] \<and> poll_for_reply (rd_request run_reader) True c w = (Some no_reply, c, w))"
proof -
  have "poll_for_reply (rd_request run_reader) True settled_conn w' = (Some no_reply, settled_conn, w')" for w'
    by (simp add: poll_for_reply_def reply_head_def XCB_SEQUENCE_COMPARE_32_def split_reply_def no_reply_def run_reader_def)
      (simp add: split_reply_def settled_conn_def waiting_conn_def map_readers_def run_defs)
  with run_settles signal_reader_only show ?thesis by blast
qed

end
