(* ===== verification/XcbLengths.thy ===== *)
theory XcbLengths
  imports XcbIn
begin

text \<open>
  What \<open>read_packet\<close> of \<open>src/src/xcb_in.c\<close> does with the lengths the server announces. The
  length field of a packet counts words; the code multiplies it by four in an \<open>int\<close>, adds the
  length of the packet proper, and allocates and copies as much. The product wraps and may be
  negative, and the sum need not show it.
\<close>

section \<open>The size of the buffer\<close>

lemma scast_plus_four: "sint (scast (x :: u32) + 4 :: u64) = sint x + 4"
proof -
  have "sint x < 2 ^ 31" "- (2 ^ 31) \<le> sint x"
    using sint_lt [of x] sint_ge [of x] by simp_all
  then show ?thesis
    by (simp add: sint_word_ariths signed_take_bit_int_eq_self sint_up_scast is_up)
qed

lemma half_address_space: "unat (sz :: u64) < 2 ^ 63 \<longleftrightarrow> 0 \<le> sint sz"
proof -
  have u: "0 \<le> uint sz" "uint sz < 18446744073709551616" using uint_lt2p [of sz] by simp_all
  have "unat sz < 2 ^ 63 \<longleftrightarrow> uint sz < 9223372036854775808"
    by (subst uint_nat, subst of_nat_less_iff [where 'a = int, symmetric]) simp
  also have "\<dots> \<longleftrightarrow> 0 \<le> (uint sz + 9223372036854775808) mod 18446744073709551616 - 9223372036854775808"
    using u by (cases "uint sz < 9223372036854775808") (simp_all add: mod_pos_geq)
  also have "\<dots> \<longleftrightarrow> 0 \<le> sint sz"
    by (simp add: sint_uint signed_take_bit_eq_take_bit_shift take_bit_eq_mod)
  finally show ?thesis .
qed

lemma malloc_packet_ok:
  assumes "os_mallocs w = []"
  shows "malloc_size (scast (len :: u32)) w = (0 \<le> sint len, w)"
    and "malloc_size (scast (len :: u32) + 4) w = (- 4 \<le> sint len, w)"
proof -
  have "sint (scast len :: u64) = sint len" by (simp add: sint_up_scast is_up)
  with assms show "malloc_size (scast len) w = (0 \<le> sint len, w)"
    by (simp add: malloc_size_def half_address_space [simplified] malloc_none)
  show "malloc_size (scast len + 4) w = (- 4 \<le> sint len, w)"
    using assms by (auto simp: malloc_size_def half_address_space [simplified] scast_plus_four malloc_none)
qed

text \<open>
  The extra length of an XGE event, as an \<open>int\<close>, and the sum with the 32 bytes of the packet
  proper: the buffer is allocated although it is too small exactly when the extra length is
  between -36 and -1.
\<close>

lemma xge_sum:
  assumes "sint (e :: u32) < 0"
  shows "sint (32 + e) = 32 + sint e"
proof -
  have "- (2 ^ 31) \<le> sint e" using sint_ge [of e] by simp
  with assms show ?thesis by (simp add: sint_word_ariths signed_take_bit_int_eq_self)
qed

section \<open>Copies\<close>

lemma read_block_negative: "len < 0 \<Longrightarrow> xcb_in_read_block len c w = None"
  by (simp add: xcb_in_read_block_def Let_def)

lemma read_block_queued:
  assumes "0 \<le> len" and "len \<le> int (length (in_queue (c_in c)))"
  shows "xcb_in_read_block len c w
    = Some (len, take (nat len) (in_queue (c_in c)), set_queue (drop (nat len) (in_queue (c_in c))) c, w)"
  using assms by (auto simp: xcb_in_read_block_def Let_def set_queue_def)

text \<open>
  The packet proper always fits: a negative length is caught by the allocation, and what the
  first copy does is defined.
\<close>

definition overruns :: "xcb_generic_reply_t \<Rightarrow> bool" where
  "overruns g \<longleftrightarrow> response_type g = XCB_XGE_EVENT
     \<and> - 36 \<le> sint (rep_length g * 4) \<and> sint (rep_length g * 4) < 0"

lemma xge_length_cases:
  "response_type g = XCB_XGE_EVENT \<and> xge_length g = rep_length g * 4
   \<or> response_type g \<noteq> XCB_XGE_EVENT \<and> xge_length g = 0"
  by (simp add: xge_length_def)

lemma overruns_sum: "overruns g \<longleftrightarrow> response_type g = XCB_XGE_EVENT
    \<and> - 4 \<le> sint (32 + xge_length g) \<and> sint (xge_length g) < 0"
  using xge_sum [of "rep_length g * 4"] by (auto simp: overruns_def xge_length_def)

lemma read_packet_None:
  assumes none: "read_packet c w = None" and mal: "os_mallocs w = []"
  shows "32 \<le> length (in_queue (c_in c)) \<and> overruns (get_genrep (in_queue (c_in c)))"
proof -
  define g where g: "g = get_genrep (in_queue (c_in c))"
  obtain c1 w1 where ts: "track_sequence g c w = (c1, w1)" by (cases "track_sequence g c w")
  define pend where pend: "pend = packet_pend g (c_in c1)"
  define len where len: "len = packet_length g pend (in_queue (c_in c))"
  note unf = read_packet_def Let_def g [symmetric] ts pend [symmetric] len [symmetric]
  have w1: "os_mallocs w1 = []" using track_sequence_mallocs [OF ts mal] .
  have q32: "32 \<le> length (in_queue (c_in c))"
    using none by (auto simp: read_packet_def split: if_splits)
  have q1: "in_queue (c_in c1) = in_queue (c_in c)" using track_sequence_frame(1) [OF ts] .
  show ?thesis
  proof (cases "response_type g = XCB_REPLY")
    case True
    then have xge: "xge_length g = 0" by (simp add: xge_length_def XCB_REPLY_def XCB_XGE_EVENT_def)
    show ?thesis
    proof (cases "0 \<le> sint len")
      case nonneg: True
      obtain r where "xcb_in_read_block (sint len) c1 w1 = Some r"
        using xcb_in_read_block_total [OF nonneg] by blast
      with none True nonneg xge q32 malloc_packet_ok(1) [OF w1, of len] show ?thesis
        by (auto simp: unf split: prod.splits if_splits route.splits)
    next
      case False
      with none True xge q32 malloc_packet_ok(1) [OF w1, of len] show ?thesis by (simp add: unf)
    qed
  next
    case False
    then have len32: "len = 32" by (simp add: len packet_length_other)
    have room: "- 4 \<le> sint (32 + xge_length g)"
      using none False q32 malloc_packet_ok(2) [OF w1, of "32 + xge_length g"]
      by (rule_tac ccontr) (simp add: unf len32)
    have first: "xcb_in_read_block 32 c1 w1 = Some (32, take 32 (in_queue (c_in c1)),
        set_queue (drop 32 (in_queue (c_in c1))) c1, w1)"
      using q32 q1 by (subst read_block_queued) simp_all
    have "xge_length g \<noteq> 0 \<and> sint (xge_length g) < 0"
    proof (rule ccontr)
      assume "\<not> ?thesis"
      then have "xge_length g = 0 \<or> 0 \<le> sint (xge_length g)" by auto
      then show False
      proof
        assume "xge_length g = 0"
        with none False q32 first malloc_packet_ok(2) [OF w1, of 32] show False
          by (auto simp: unf len32 split: prod.splits if_splits route.splits)
      next
        assume "0 \<le> sint (xge_length g)"
        from xcb_in_read_block_total [OF this] obtain r where
          "xcb_in_read_block (sint (xge_length g)) (set_queue (drop 32 (in_queue (c_in c1))) c1) w1
            = Some r" by blast
        with none False q32 first room malloc_packet_ok(2) [OF w1, of "32 + xge_length g"] show False
          by (auto simp: unf len32 split: prod.splits if_splits route.splits)
      qed
    qed
    with room xge_length_cases [of g] q32 show ?thesis by (auto simp: overruns_sum g)
  qed
qed

lemma read_packet_overruns:
  assumes mal: "os_mallocs w = []" and q32: "32 \<le> length (in_queue (c_in c))"
    and ov: "overruns (get_genrep (in_queue (c_in c)))"
  shows "read_packet c w = None"
proof -
  define g where g: "g = get_genrep (in_queue (c_in c))"
  obtain c1 w1 where ts: "track_sequence g c w = (c1, w1)" by (cases "track_sequence g c w")
  note unf = read_packet_def Let_def g [symmetric] ts
  from ov have ev: "response_type g \<noteq> XCB_REPLY" and neg: "sint (xge_length g) < 0"
    and room: "- 4 \<le> sint (32 + xge_length g)"
    by (auto simp: overruns_sum g XCB_REPLY_def XCB_XGE_EVENT_def)
  from neg have nz: "xge_length g \<noteq> 0" by auto
  have "xcb_in_read_block 32 c1 w1 = Some (32, take 32 (in_queue (c_in c1)),
      set_queue (drop 32 (in_queue (c_in c1))) c1, w1)"
    using q32 track_sequence_frame(1) [OF ts] by (subst read_block_queued) simp_all
  then show ?thesis
    using q32 ev nz room malloc_packet_ok(2) [OF track_sequence_mallocs [OF ts mal], of "32 + xge_length g"]
      read_block_negative [OF neg]
    by (simp add: unf packet_length_other)
qed

text \<open>
  C11: With working memory \<open>read_packet\<close> runs outside of its buffer for exactly one kind of packet,
  whatever the server sends and in whatever state the connection is: an XGE event whose extra
  length, as an \<open>int\<close>, lies between -36 and -1. The allocation of 36 bytes plus that length then
  succeeds, the packet proper is copied into less than 36 bytes, and the extra data are copied
  with a negative length. No length of a reply does this: it is caught by the allocation.
\<close>

theorem only_xge_overruns:
  assumes "os_mallocs w = []"
  shows "read_packet c w = None \<longleftrightarrow> 32 \<le> length (in_queue (c_in c))
    \<and> (let g = get_genrep (in_queue (c_in c)) in response_type g = XCB_XGE_EVENT
         \<and> - 36 \<le> sint (rep_length g * 4) \<and> sint (rep_length g * 4) < 0)"
  using read_packet_None [OF _ assms] read_packet_overruns [OF assms] by (auto simp: overruns_def Let_def)

text \<open>An event that announces \<open>2^30 - 8\<close> words: 4 bytes are allocated for it.\<close>

definition hostile_event :: "byte list" where
  "hostile_event = packet32 XCB_XGE_EVENT 1 0x3ffffff8"

theorem only_xge_overruns_witness:
  "read_packet (set_queue hostile_event zero_conn) quiet_os = None"
proof -
  have "os_mallocs quiet_os = []" by (simp add: quiet_os_def)
  from only_xge_overruns [OF this, of "set_queue hostile_event zero_conn"] show ?thesis
    by (simp add: hostile_event_def)
qed

section \<open>Replies that are never read\<close>

text \<open>
  A reply whose length wraps to 0: no byte of it is ever taken off the queue and the connection
  is not in error. The sequence numbers have been updated, doing so once more changes nothing,
  and every later call of \<open>read_packet\<close> stops there again.
\<close>

lemma wrapped_reply_stalls:
  assumes mal: "os_mallocs w = []" and q32: "32 \<le> length (in_queue (c_in c))"
    and g: "get_genrep (in_queue (c_in c)) = g" and reply: "response_type g = XCB_REPLY"
    and wrap: "rep_length g * 4 = - 32"
    and ts: "track_sequence g c w = (c1, w1)"
    and plain: "\<forall>p. packet_pend g (c_in c1) = Some p \<longrightarrow> workaround p \<noteq> WORKAROUND_GLX_GET_FB_CONFIGS_BUG"
  shows "read_packet c w = Some (False, c1, w1)"
proof -
  have w1: "os_mallocs w1 = []" using track_sequence_mallocs [OF ts mal] .
  have len: "packet_length g (packet_pend g (c_in c1)) (in_queue (c_in c)) = 0"
    using plain reply wrap by (auto simp: packet_length_def Let_def split: option.split)
  have "xcb_in_read_block 0 c1 w1 = Some (0, [], c1, w1)"
    by (simp add: read_block_queued set_queue_def)
  then show ?thesis
    using q32 reply malloc_packet_ok(1) [OF w1, of 0] len
    by (simp add: read_packet_def Let_def g ts xge_length_def XCB_REPLY_def XCB_XGE_EVENT_def)
qed

end
