(* ===== verification/XcbKept.thy ===== *)
theory XcbKept
  imports XcbWait XcbExt XcbXid XcbFlush XcbLengths
begin

text \<open>
  What every operation of the library keeps, stated once. A property of a connection that depends only on
  its stores (the byte queues, the mailboxes, the events, the descriptor, the setup data, what has been learnt
  about the server, and whether it is in error) and on what the server still sends, that other threads keep too, and that a few basic
  steps keep (shutting the connection down, receiving bytes, reading one packet, looking a reply up, discarding one, storing an answer to a
  question not answered yet), is kept by all other operations. The locale states this contract and carries it
  through the library from \<open>recv\<close> to \<open>xcb_send_request\<close>; \<open>XcbTyped\<close> interprets it for the types of packets,
  \<open>XcbEvents\<close> for the order of events, \<open>XcbLearnt\<close> for what is known about the server.
\<close>

section \<open>The contract\<close>

definition stores :: "xcb_connection_t \<Rightarrow> byte list \<times> byte list \<times> u64 \<times> packet list \<times> (u32 \<times> packet list) list
    \<times> packet list \<times> int \<times> xcb_setup_t option \<times> lazyreply list \<times> lazy_reply_tag \<times> u32 \<times> bool" where
  "stores c = (in_queue (c_in c), out_queue (c_out c), request_read (c_in c), current_reply (c_in c), replies (c_in c),
     events (c_in c), fd c, c_setup c, extensions c, maximum_request_length_tag (c_out c), maximum_request_length (c_out c),
     has_error c)"

abbreviation set_length :: "lazy_reply_tag \<Rightarrow> u32 \<Rightarrow> xcb_connection_t \<Rightarrow> xcb_connection_t" where
  "set_length t m c \<equiv> c\<lparr>c_out := (c_out c)\<lparr>maximum_request_length_tag := t, maximum_request_length := m\<rparr>\<rparr>"

text \<open>The functions generated from the protocol only send requests and wait for replies: they keep what the library keeps.\<close>

definition preserves :: "(xcb_connection_t \<Rightarrow> os \<Rightarrow> bool) \<Rightarrow> (xcb_connection_t \<Rightarrow> os \<Rightarrow> ('r \<times> xcb_connection_t \<times> os) option) \<Rightarrow> bool" where
  "preserves I f \<longleftrightarrow> (\<forall>c w r c' w'. f c w = Some (r, c', w') \<longrightarrow> I c w \<longrightarrow> I c' w')"

definition gen_preserves :: "(xcb_connection_t \<Rightarrow> os \<Rightarrow> bool) \<Rightarrow> generated \<Rightarrow> bool" where
  "gen_preserves I gen \<longleftrightarrow> (\<forall>n. preserves I (xcb_query_extension gen n))
     \<and> (\<forall>k. preserves I (xcb_query_extension_reply gen k))
     \<and> preserves I (xcb_big_requests_enable gen) \<and> (\<forall>k. preserves I (xcb_big_requests_enable_reply gen k))
     \<and> preserves I (xcb_xc_misc_get_xid_range gen) \<and> (\<forall>k. preserves I (xcb_xc_misc_get_xid_range_reply gen k))
     \<and> preserves I (xcb_get_input_focus gen) \<and> (\<forall>k. preserves I (xcb_get_input_focus_reply gen k))"

lemma preservesD: "f c w = Some (r, c', w') \<Longrightarrow> preserves I f \<Longrightarrow> I c w \<Longrightarrow> I c' w'"
  by (simp only: preserves_def)

lemma fill_queue_bound:
  "fill_queue n v q = (n', v', q') \<Longrightarrow> length q' \<le> max (length q) XCB_QUEUE_BUFFER_SIZE"
  by (induction n v q rule: fill_queue.induct) (fastforce split: if_splits)+

text \<open>An event that is handed out comes from the queue of a connection that has the property; null may also mean an error.\<close>

definition from_queue :: "(xcb_connection_t \<Rightarrow> os \<Rightarrow> bool) \<Rightarrow> packet option \<Rightarrow> xcb_connection_t \<Rightarrow> os \<Rightarrow> bool" where
  "from_queue I e c' w' \<longleftrightarrow> (\<exists>c. I c w' \<and> (get_event c = (e, c') \<or> e = None \<and> c' = c))"

lemma malloc_ids: "malloc_ok w = (b, w') \<Longrightarrow> os_global_id w' = os_global_id w"
  "malloc_size sz w = (b, w') \<Longrightarrow> os_global_id w' = os_global_id w"
  by (auto simp: malloc_size_def malloc_ok_def split: list.splits if_splits)

lemma signal_reader_ids [simp]: "os_global_id (signal_reader rr rds w) = os_global_id w"
  "os_global_id (os_signal sg w) = os_global_id w"
  by (metis signal_reader_eq os.select_convs os.surjective os.update_convs) (simp add: os_signal_def)

locale kept =
  fixes I :: "xcb_connection_t \<Rightarrow> os \<Rightarrow> bool" and R :: "u32 \<Rightarrow> poll_result_t \<Rightarrow> bool"
  assumes frame: "I c w \<Longrightarrow> stores c' = stores c \<Longrightarrow> os_others w' = os_others w \<Longrightarrow> os_recvs w' = os_recvs w
      \<Longrightarrow> os_global_id w' = os_global_id w \<Longrightarrow> I c' w'"
    and turn: "I c w \<Longrightarrow> os_others w = f # fs \<Longrightarrow> I (f c) (w\<lparr>os_others := fs\<rparr>)"
    and fail [simp]: "I c w \<Longrightarrow> I (xcb_conn_shutdown c) w"
    and receive: "os_recv (IN_QUEUE_SIZE - length (in_queue (c_in c))) (os_recvs w) = (n, rs) \<Longrightarrow> I c w
      \<Longrightarrow> I (case n of Got bs \<Rightarrow> set_queue (in_queue (c_in c) @ bs) c | _ \<Rightarrow> c) (w\<lparr>os_recvs := rs\<rparr>)"
    and out_requeue: "I c w \<Longrightarrow> length q \<le> max (length (out_queue (c_out c))) XCB_QUEUE_BUFFER_SIZE \<Longrightarrow> I (set_out_queue q c) w"
    and packet: "read_packet c w = Some (b, c', w') \<Longrightarrow> I c w \<Longrightarrow> I c' w'"
    and reply: "poll_for_reply k e c w = (r, c', w') \<Longrightarrow> I c w \<Longrightarrow> I c' w' \<and> (\<forall>x. r = Some x \<longrightarrow> R k x)"
    and no_answer [simp]: "R k \<lparr>pr_reply = None, pr_error = None\<rparr>"
    and name: "I c w \<Longrightarrow> I c (assign_global_id ext w)"
    and grow: "I c w \<Longrightarrow> I (c\<lparr>extensions := extensions c @ replicate sz Lazy_None\<rparr>) w"
    and learn_extension: "I c w \<Longrightarrow> \<forall>r. extensions c ! i \<noteq> Lazy_Forced r \<Longrightarrow> I c' w' \<Longrightarrow> I (set_lazyreply i v c') w'"
    and learn_length: "I c w \<Longrightarrow> maximum_request_length_tag (c_out c) \<noteq> LAZY_FORCED \<Longrightarrow> maximum_request_length_tag (c_out c) \<le> t
      \<Longrightarrow> I c' w' \<Longrightarrow> I (set_length t m c') w'"
    and discard: "discard_reply k c w = (c', w') \<Longrightarrow> I c w \<Longrightarrow> I c' w'"
begin

named_theorems keeps \<open>an operation keeps the property\<close>

lemma same: "stores c' = stores c \<Longrightarrow> os_others w' = os_others w \<Longrightarrow> os_recvs w' = os_recvs w
    \<Longrightarrow> os_global_id w' = os_global_id w \<Longrightarrow> I c' w' = I c w"
  by (metis frame)

lemma same_os: "os_others w' = os_others w \<Longrightarrow> os_recvs w' = os_recvs w \<Longrightarrow> os_global_id w' = os_global_id w \<Longrightarrow> I c w' = I c w"
  by (rule same) simp_all

text \<open>System calls.\<close>

lemma keep_os [keeps]:
  "malloc_ok w = (b, w') \<Longrightarrow> I c w \<Longrightarrow> I c w'"
  "malloc_size sz w = (b, w') \<Longrightarrow> I c w \<Longrightarrow> I c w'"
  by (auto dest: malloc_ok_frame malloc_size_frame malloc_ids elim!: frame)

lemma keep_yield [keeps]: "os_yield c w = (c', w') \<Longrightarrow> I c w \<Longrightarrow> I c' w'"
  by (auto simp: os_yield_def turn split: list.splits)

lemma keep_cond_wait [keeps]: "pthread_cond_wait c w = Some (c', w') \<Longrightarrow> I c w \<Longrightarrow> I c' w'"
  by (auto simp: pthread_cond_wait_def turn split: list.splits)

lemma keep_simps [simp]:
  "I (add_reading d c) w = I c w" "I (add_writing d c) w = I c w"
  "I (map_readers f c) w = I c w"
  "I c (os_signal s w) = I c w"
  "I c (signal_reader rr rds w) = I c w"
  "I c (xcb_in_wake_up_next_reader c' w) = I c w"
  "I (set_xid a b c) w = I c w"
  "I (bump_request c) w = I c w" "I (expect_up_to_here c) w = I c w"
  "I (xcb_in_replies_done c) w = I c w"
  by (rule same; simp add: stores_def add_reading_def add_writing_def map_readers_def
      xcb_in_wake_up_next_reader_def set_xid_def bump_request_def expect_up_to_here_def
      xcb_in_replies_done_def Let_def split: list.split)+

lemma keep_read_packets [keeps]: "read_packets c w = Some (c', w') \<Longrightarrow> I c w \<Longrightarrow> I c' w'"
  by (induction rule: read_packets_rule) (auto dest: packet)

lemma keep_in_read [keeps]:
  assumes rd: "xcb_in_read c w = Some (b, c', w')" and inv: "I c w"
  shows "I c' w'"
proof -
  obtain n rs where n: "os_recv (IN_QUEUE_SIZE - length (in_queue (c_in c))) (os_recvs w) = (n, rs)"
    by (cases "os_recv (IN_QUEUE_SIZE - length (in_queue (c_in c))) (os_recvs w)")
  note received = receive [OF n inv]
  with rd n received show ?thesis
    by (auto simp: xcb_in_read_def Let_def bind_eq_Some_conv2 dest: keep_read_packets split: recv_outcome.splits)
qed

lemma keep_os_writev: "os_writev v w = (r, w') \<Longrightarrow> I c w' = I c w"
  by (rule same_os) (auto simp: os_writev_def Let_def split: list.splits writev_result.splits)

lemma keep_write_vec [keeps]: "write_vec v c w = Some (b, v', c', w') \<Longrightarrow> I c w \<Longrightarrow> I c' w'"
  by (auto simp: write_vec_def keep_os_writev split: if_splits prod.splits writev_outcome.splits)

lemma keep_wait_io [keeps]:
  "conn_wait_io r v c w = Some (b, v', c', w') \<Longrightarrow> I c w \<Longrightarrow> I c' w'"
  by (cases v) (auto simp: conn_wait_io_def bind_eq_Some_conv2 dest: keeps split: if_splits)

lemma keep_polls: "I c (w\<lparr>os_polls := ps\<rparr>) = I c w"
  by (rule same_os) simp_all

lemma keep_conn_wait [keeps]:
  assumes cw: "xcb_conn_wait v c w = Some (b, v', c', w')" and inv: "I c w"
  shows "I c' w'"
proof (cases "(if v \<noteq> None then writing (c_out c) else reading (c_in c)) \<noteq> 0")
  case True
  with assms show ?thesis by (auto simp: xcb_conn_wait_def bind_eq_Some_conv2 dest: keeps)
next
  case False
  let ?c = "if v \<noteq> None then add_writing 1 (add_reading 1 c) else add_reading 1 c"
  obtain p ps where p: "poll_retry (os_polls w) = (p, ps)" by (cases "poll_retry (os_polls w)")
  obtain c1 w1 where y: "os_yield ?c (w\<lparr>os_polls := ps\<rparr>) = (c1, w1)"
    by (cases "os_yield ?c (w\<lparr>os_polls := ps\<rparr>)")
  have t1: "I c1 w1" using keep_yield [OF y] inv by (simp add: keep_polls)
  show ?thesis
    using False cw p y t1
    by (cases p) (auto simp: xcb_conn_wait_def Let_def bind_eq_Some_conv2 dest: keeps split: if_splits)
qed

lemma keep_send_loop [keeps]:
  "out_send_loop v c w = Some (b, v', c', w') \<Longrightarrow> I c w \<Longrightarrow> I c' w'"
proof (induction v c w rule: out_send_loop.induct)
  case (1 v c w)
  then show ?case
    by (subst (asm) (2) out_send_loop.simps)
      (auto dest: keeps split: if_splits option.splits)
qed

lemma keep_out_fields [simp]:
  "I (c\<lparr>c_out := (c_out c)\<lparr>socket_moving := b\<rparr>\<rparr>) w = I c w"
  "I (c\<lparr>c_out := (c_out c)\<lparr>return_socket := f, socket_closure := n\<rparr>\<rparr>) w = I c w"
  "I (c\<lparr>c_out := (c_out c)\<lparr>socket_moving := b, return_socket := f, socket_closure := n\<rparr>\<rparr>) w = I c w"
  "I (c\<lparr>c_out := (c_out c)\<lparr>out_request := r\<rparr>\<rparr>) w = I c w"
  "I (c\<lparr>c_out := (c_out c)\<lparr>request_written := r\<rparr>\<rparr>) w = I c w"
  "I c (w\<lparr>os_callbacks := cb\<rparr>) = I c w" "I c (w\<lparr>os_next_cond := k\<rparr>) = I c w"
  by (rule same; simp add: stores_def)+

lemma keep_out_send [keeps]:
  "xcb_out_send v c w = Some (b, c', w') \<Longrightarrow> I c w \<Longrightarrow> I c' w'"
  by (auto simp: xcb_out_send_def Let_def bind_eq_Some_conv2 dest: keep_send_loop)

lemma keep_wait_not_writing [keeps]:
  "wait_not_writing c w = Some (c', w') \<Longrightarrow> I c w \<Longrightarrow> I c' w'"
proof (induction c w rule: wait_not_writing.induct)
  case (1 c w)
  then show ?case
    by (subst (asm) (2) wait_not_writing.simps) (auto dest: keeps split: if_splits option.splits)
qed

lemma keep_wait_socket [keeps]:
  "wait_socket c w = Some (c', w') \<Longrightarrow> I c w \<Longrightarrow> I c' w'"
proof (induction c w rule: wait_socket.induct)
  case (1 c w)
  then show ?case
    by (subst (asm) (2) wait_socket.simps) (auto dest: keeps split: if_splits option.splits)
qed

lemma keep_flush_to [keeps]:
  "xcb_out_flush_to r c w = Some (b, c', w') \<Longrightarrow> I c w \<Longrightarrow> I c' w'"
  by (auto simp: xcb_out_flush_to_def bind_eq_Some_conv2 dest: keeps intro!: out_requeue elim!: keep_out_send
      split: if_splits)

lemma keep_write_block [keeps]:
  assumes wb: "write_block n v c w = Some (b, c', w')" and inv: "I c w"
  shows "I c' w'"
proof -
  obtain n' v' q where f: "fill_queue n v (out_queue (c_out c)) = (n', v', q)" by (metis prod_cases3)
  have "I (set_out_queue q c) w" "I (set_out_queue [] c) w"
    using fill_queue_bound [OF f] inv by (auto intro: out_requeue)
  with wb f show ?thesis
    by (auto simp: write_block_def Let_def dest!: keep_out_send split: if_splits)
qed

lemma keep_get_socket_back [keeps]:
  assumes gs: "get_socket_back c w = Some (c', w')" and inv: "I c w"
  shows "I c' w'"
proof -
  from gs obtain c1 w1 where ws: "wait_socket c w = Some (c1, w1)"
    by (auto simp: get_socket_back_def bind_eq_Some_conv2)
  have t1: "I c1 w1" using keep_wait_socket [OF ws inv] .
  show ?thesis
  proof (cases "return_socket (c_out c1)")
    case None
    with gs ws t1 show ?thesis by (simp add: get_socket_back_def)
  next
    case (Some f)
    let ?c = "c1\<lparr>c_out := (c_out c1)\<lparr>socket_moving := True\<rparr>\<rparr>"
    let ?w = "w1\<lparr>os_callbacks := os_callbacks w1 @ [(f, socket_closure (c_out c1))]\<rparr>"
    obtain c2 w2 where y: "os_yield ?c ?w = (c2, w2)" by (cases "os_yield ?c ?w")
    have t2: "I c2 w2" using keep_yield [OF y] t1 by simp
    with gs ws Some y show ?thesis by (auto simp: get_socket_back_def Let_def)
  qed
qed

lemma keep_generated [keeps]:
  "xcb_query_extension gen n c w = Some (r, c', w') \<Longrightarrow> gen_preserves I gen \<Longrightarrow> I c w \<Longrightarrow> I c' w'"
  "xcb_query_extension_reply gen k c w = Some (r1, c', w') \<Longrightarrow> gen_preserves I gen \<Longrightarrow> I c w \<Longrightarrow> I c' w'"
  "xcb_big_requests_enable gen c w = Some (r, c', w') \<Longrightarrow> gen_preserves I gen \<Longrightarrow> I c w \<Longrightarrow> I c' w'"
  "xcb_big_requests_enable_reply gen k c w = Some (r2, c', w') \<Longrightarrow> gen_preserves I gen \<Longrightarrow> I c w \<Longrightarrow> I c' w'"
  "xcb_xc_misc_get_xid_range gen c w = Some (r, c', w') \<Longrightarrow> gen_preserves I gen \<Longrightarrow> I c w \<Longrightarrow> I c' w'"
  "xcb_xc_misc_get_xid_range_reply gen k c w = Some (r3, c', w') \<Longrightarrow> gen_preserves I gen \<Longrightarrow> I c w \<Longrightarrow> I c' w'"
  "xcb_get_input_focus gen c w = Some (r, c', w') \<Longrightarrow> gen_preserves I gen \<Longrightarrow> I c w \<Longrightarrow> I c' w'"
  "xcb_get_input_focus_reply gen k c w = Some (r4, c', w') \<Longrightarrow> gen_preserves I gen \<Longrightarrow> I c w \<Longrightarrow> I c' w'"
  by (auto simp: gen_preserves_def dest: preservesD)

lemma keep_get_index [keeps]:
  "get_index n c w = (i, c', w') \<Longrightarrow> I c w \<Longrightarrow> I c' w'"
  by (auto simp: get_index_def Let_def intro: grow dest: keep_os split: if_split_asm prod.split_asm)

lemma keep_lazyreply [keeps]:
  assumes gl: "get_lazyreply gen ext c w = Some (i, c', w')" and gen: "gen_preserves I gen" and inv: "I c w"
  shows "I c' w'"
proof -
  let ?w = "assign_global_id ext w"
  obtain d c1 w1 where ix: "get_index (os_global_id ?w (ext_addr ext)) c ?w = (d, c1, w1)" by (metis prod_cases3)
  have t1: "I c1 w1" using keep_get_index [OF ix name [OF inv]] .
  show ?thesis
  proof (cases "\<exists>k. d = Some k \<and> extensions c1 ! k = Lazy_None")
    case True
    with gl ix obtain k cookie c2 w2 where k: "extensions c1 ! k = Lazy_None"
      "xcb_query_extension gen (ext_name ext) c1 w1 = Some (cookie, c2, w2)" "c' = set_lazyreply k (Lazy_Cookie cookie) c2" "w' = w2"
      by (auto simp: get_lazyreply_def Let_def bind_eq_Some_conv2)
    with learn_extension [OF t1, of k c2 w2] keep_generated(1) [OF k(2) gen t1] show ?thesis by simp
  next
    case False
    with gl ix t1 show ?thesis by (auto simp: get_lazyreply_def Let_def split: option.split_asm if_split_asm)
  qed
qed

lemma keep_extension_data [keeps]:
  assumes ed: "xcb_get_extension_data gen ext c w = Some (r, c', w')" and gen: "gen_preserves I gen" and inv: "I c w"
  shows "I c' w'"
proof (cases "has_error c")
  case True
  with ed inv show ?thesis by (simp add: xcb_get_extension_data_def)
next
  case False
  with ed obtain d c1 w1 where gl: "get_lazyreply gen ext c w = Some (d, c1, w1)"
    by (auto simp: xcb_get_extension_data_def bind_eq_Some_conv2)
  have t1: "I c1 w1" using keep_lazyreply [OF gl gen inv] .
  show ?thesis
  proof (cases "\<exists>i k. d = Some i \<and> extensions c1 ! i = Lazy_Cookie k")
    case True
    with ed False gl obtain i k c2 where k: "extensions c1 ! i = Lazy_Cookie k"
      "xcb_query_extension_reply gen k c1 w1 = Some (r, c2, w')" "c' = set_lazyreply i (Lazy_Forced r) c2"
      by (auto simp: xcb_get_extension_data_def bind_eq_Some_conv2)
    with learn_extension [OF t1, of i c2 w'] keep_generated(2) [OF k(2) gen t1] show ?thesis by simp
  next
    case noask: False
    with ed False gl t1 show ?thesis
      by (auto simp: xcb_get_extension_data_def split: option.split_asm lazyreply.split_asm)
  qed
qed

lemma keep_prefetch_extension [keeps]:
  "xcb_prefetch_extension_data gen ext c w = Some (c', w') \<Longrightarrow> gen_preserves I gen \<Longrightarrow> I c w \<Longrightarrow> I c' w'"
  by (auto simp: xcb_prefetch_extension_data_def bind_eq_Some_conv2 dest: keep_lazyreply split: if_split_asm)

lemma keep_tag: "maximum_request_length_tag (c_out c) = LAZY_NONE \<Longrightarrow> I c w \<Longrightarrow> I c' w'
    \<Longrightarrow> I (c'\<lparr>c_out := (c_out c')\<lparr>maximum_request_length_tag := t\<rparr>\<rparr>) w'
      \<and> I (c'\<lparr>c_out := (c_out c')\<lparr>maximum_request_length := m\<rparr>\<rparr>) w' \<and> I (set_length t m c') w'"
  using learn_length [of c w t c' w' m] learn_length [of c w t c' w' "maximum_request_length (c_out c')"]
    learn_length [of c w "maximum_request_length_tag (c_out c')" c' w' m]
  by simp

lemma keep_prefetch_length [keeps]:
  assumes pl: "xcb_prefetch_maximum_request_length gen c w = Some (c', w')" and gen: "gen_preserves I gen" and inv: "I c w"
  shows "I c' w'"
proof (cases "has_error c \<or> maximum_request_length_tag (c_out c) \<noteq> LAZY_NONE")
  case True
  with pl inv show ?thesis by (auto simp: xcb_prefetch_maximum_request_length_def split: if_split_asm)
next
  case False
  then have none: "maximum_request_length_tag (c_out c) = LAZY_NONE" by simp
  from False pl obtain x c1 w1 where ed: "xcb_get_extension_data gen (xcb_big_requests_id gen) c w = Some (x, c1, w1)"
    by (auto simp: xcb_prefetch_maximum_request_length_def bind_eq_Some_conv2)
  have t1: "I c1 w1" using keep_extension_data [OF ed gen inv] .
  note learn = keep_tag [OF none inv]
  show ?thesis
  proof (cases "x \<noteq> None \<and> present (the x)")
    case True
    let ?c = "c1\<lparr>c_out := (c_out c1)\<lparr>maximum_request_length_tag := LAZY_COOKIE\<rparr>\<rparr>"
    from True False pl ed obtain k c2 where k: "xcb_big_requests_enable gen ?c w1 = Some (k, c2, w')"
      "c' = c2\<lparr>c_out := (c_out c2)\<lparr>maximum_request_length := k\<rparr>\<rparr>"
      by (auto simp: xcb_prefetch_maximum_request_length_def Let_def bind_eq_Some_conv2)
    have "I c2 w'" using keep_generated(3) [OF k(1) gen] learn [OF t1] by blast
    with learn k(2) show ?thesis by blast
  next
    case absent: False
    with False pl ed obtain m where "c' = set_length LAZY_FORCED m c1" "w' = w1"
      by (auto simp: xcb_prefetch_maximum_request_length_def split: option.split_asm if_split_asm)
    with learn [OF t1] show ?thesis by blast
  qed
qed

lemma keep_maximum_length [keeps]:
  assumes ml: "xcb_get_maximum_request_length gen c w = Some (n, c', w')" and gen: "gen_preserves I gen" and inv: "I c w"
  shows "I c' w'"
proof (cases "has_error c")
  case True
  with ml inv show ?thesis by (simp add: xcb_get_maximum_request_length_def)
next
  case False
  with ml obtain c1 w1 where pl: "xcb_prefetch_maximum_request_length gen c w = Some (c1, w1)"
    by (auto simp: xcb_get_maximum_request_length_def bind_eq_Some_conv2)
  have t1: "I c1 w1" using keep_prefetch_length [OF pl gen inv] .
  show ?thesis
  proof (cases "maximum_request_length_tag (c_out c1) = LAZY_COOKIE")
    case True
    with False ml pl obtain x m c2 where x: "xcb_big_requests_enable_reply gen (maximum_request_length (c_out c1)) c1 w1 = Some (x, c2, w')"
      "c' = set_length LAZY_FORCED m c2"
      by (auto simp: xcb_get_maximum_request_length_def bind_eq_Some_conv2)
    with learn_length [OF t1, of LAZY_FORCED c2 w' m] keep_generated(4) [OF x(1) gen t1] True show ?thesis by simp
  next
    case told: False
    with False ml pl t1 show ?thesis by (auto simp: xcb_get_maximum_request_length_def)
  qed
qed

lemma keep_set_opcode [keeps]:
  assumes so: "set_opcode gen req b c w = Some (r, c', w')" and gen: "gen_preserves I gen" and inv: "I c w"
  shows "I c' w'"
proof (cases "req_ext req")
  case None
  with so inv show ?thesis by (simp add: set_opcode_def)
next
  case (Some ext)
  with so obtain x c1 w1 where ed: "xcb_get_extension_data gen ext c w = Some (x, c1, w1)"
    by (auto simp: set_opcode_def bind_eq_Some_conv2)
  from so Some ed keep_extension_data [OF ed gen inv] show ?thesis
    by (cases x) (auto simp: set_opcode_def split: if_split_asm)
qed

lemma keep_encode_length [keeps]:
  "encode_length gen b vs c w = Some (r, c', w') \<Longrightarrow> gen_preserves I gen \<Longrightarrow> I c w \<Longrightarrow> I c' w'"
  by (auto simp: encode_length_def Let_def bind_eq_Some_conv2 dest: keep_maximum_length split: if_split_asm option.split_asm)

lemma keep_prepare [keeps]:
  "prepare_request gen v req c w = Some (r, c', w') \<Longrightarrow> gen_preserves I gen \<Longrightarrow> I c w \<Longrightarrow> I c' w'"
  by (auto simp: prepare_request_def bind_eq_Some_conv2
      dest!: keep_set_opcode keep_encode_length split: if_split_asm option.split_asm list.split_asm iovec.split_asm)

lemma keep_pending [simp]:
  "I (c\<lparr>c_in := (c_in c)\<lparr>pending_replies := p\<rparr>\<rparr>) w = I c w"
  by (rule same) (simp_all add: stores_def)

lemma keep_expect_reply [keeps]:
  "xcb_in_expect_reply r wa fl c w = Some (b, c', w') \<Longrightarrow> I c w \<Longrightarrow> I c' w'"
  by (auto simp: xcb_in_expect_reply_def Let_def dest: keep_os split: if_split_asm prod.split_asm)

lemma keep_sync_loop [keeps]:
  "sync_loop v s c w = Some (b, c', w') \<Longrightarrow> I c w \<Longrightarrow> I c' w'"
proof (induction v s c w rule: sync_loop.induct)
  case (1 v s c w)
  then show ?case
    by (subst (asm) (2) sync_loop.simps) (auto dest!: keep_expect_reply split: if_split_asm option.split_asm)
qed

lemma keep_number_request [keeps]:
  "number_request req wa fl c w = Some (b, c', w') \<Longrightarrow> I c w \<Longrightarrow> I c' w'"
  by (auto simp: number_request_def bind_eq_Some_conv2 dest!: keep_sync_loop keep_expect_reply split: if_split_asm)

lemma keep_send_prepared [keeps]:
  "send_prepared fl n v big req c w = Some (k, c', w') \<Longrightarrow> I c w \<Longrightarrow> I c' w'"
  by (auto simp: send_prepared_def Let_def bind_eq_Some_conv2
      dest!: keep_wait_not_writing keep_get_socket_back keep_number_request keep_write_block split: if_split_asm)

lemma keep_send_request [keeps]:
  assumes sr: "xcb_send_request gen fl n v req c w = Some (k, c', w')" and gen: "gen_preserves I gen" and inv: "I c w"
  shows "I c' w'"
proof (cases "has_error c \<or> v = [] \<or> has_flag fl XCB_REQUEST_RAW")
  case True
  with sr inv show ?thesis
    by (auto simp: xcb_send_request_def bind_eq_Some_conv2 dest: keep_send_prepared split: if_split_asm)
next
  case False
  with sr obtain p c1 w1 where pr: "prepare_request gen v req c w = Some (p, c1, w1)"
    by (auto simp: xcb_send_request_def bind_eq_Some_conv2)
  from sr False pr keep_prepare [OF pr gen inv] show ?thesis
    by (cases p) (auto simp: xcb_send_request_def dest: keep_send_prepared)
qed

lemma keep_take_socket [keeps]:
  "xcb_take_socket f n fl c w = Some (r, c', w') \<Longrightarrow> I c w \<Longrightarrow> I c' w'"
  by (auto simp: xcb_take_socket_def Let_def bind_eq_Some_conv2
      dest!: keep_get_socket_back keep_flush_to keep_expect_reply split: if_split_asm)

lemma keep_writev [keeps]: "xcb_writev v n c w = Some (b, c', w') \<Longrightarrow> I c w \<Longrightarrow> I c' w'"
  by (auto simp: xcb_writev_def dest: keep_out_send split: if_split_asm)

lemma keep_flush [keeps]: "xcb_flush c w = Some (b, c', w') \<Longrightarrow> I c w \<Longrightarrow> I c' w'"
  by (auto simp: xcb_flush_def dest: keep_flush_to split: if_split_asm)

lemma keep_generate_id [keeps]:
  "xcb_generate_id gen c w = Some (n, c', w') \<Longrightarrow> gen_preserves I gen \<Longrightarrow> I c w \<Longrightarrow> I c' w'"
  by (auto simp: xcb_generate_id_def Let_def bind_eq_Some_conv2
      dest!: keep_extension_data keep_generated(5,6) split: if_split_asm option.split_asm)

lemma keep_wait_reply_loop:
  "wait_reply_loop k want c w = Some (r, c', w') \<Longrightarrow> I c w \<Longrightarrow> I c' w' \<and> R k r"
proof (induction k want c w rule: wait_reply_loop.induct)
  case (1 k want c w)
  obtain x c1 w1 where pr: "poll_for_reply k want c w = (x, c1, w1)" by (metis prod_cases3)
  show ?case
  proof (cases x)
    case (Some y)
    with "1.prems" pr reply [OF pr] show ?thesis by (subst (asm) wait_reply_loop.simps) auto
  next
    case None
    with "1.prems"(1) pr obtain ret v c2 w2 where cw: "xcb_conn_wait None c w = Some (ret, v, c2, w2)"
      by (subst (asm) wait_reply_loop.simps) (auto split: option.split_asm)
    have t2: "I c2 w2" using keep_conn_wait [OF cw "1.prems"(2)] .
    show ?thesis
    proof (cases ret)
      case False
      with "1.prems" pr None cw t2 show ?thesis by (subst (asm) wait_reply_loop.simps) auto
    next
      case True
      with "1.prems"(1) pr None cw have "wait_reply_loop k want c2 w2 = Some (r, c', w')"
        by (subst (asm) wait_reply_loop.simps) simp
      with "1.IH" [OF pr [symmetric] None refl cw refl refl refl True] t2 show ?thesis by auto
    qed
  qed
qed

lemma keep_wait_for_reply:
  "xcb_wait_for_reply k want c w = Some (r, c', w') \<Longrightarrow> I c w \<Longrightarrow> I c' w' \<and> R k r"
  by (auto simp: xcb_wait_for_reply_def Let_def bind_eq_Some_conv2
      dest!: keep_flush_to keep_wait_reply_loop split: if_split_asm)

lemma keep_poll_reply:
  "xcb_poll_for_reply k want c w = (r, c', w') \<Longrightarrow> I c w \<Longrightarrow> I c' w' \<and> (\<forall>x. r = Some x \<longrightarrow> R k x)"
  using reply by (auto simp: xcb_poll_for_reply_def split: if_split_asm)

lemma keep_request_check [keeps]:
  "xcb_request_check gen k c w = Some (e, c', w') \<Longrightarrow> gen_preserves I gen \<Longrightarrow> I c w
     \<Longrightarrow> I c' w' \<and> (\<exists>r. R k r \<and> e = pr_error r \<or> e = None)"
  by (auto simp: xcb_request_check_def bind_eq_Some_conv2 
      dest!: keep_generated(7,8) keep_wait_for_reply split: if_split_asm)

lemma keep_xcb_discard_reply: "xcb_discard_reply k c w = (c', w') \<Longrightarrow> I c w \<Longrightarrow> I c' w'"
  by (auto simp: xcb_discard_reply_def dest: discard split: if_split_asm)

text \<open>The calls that hand out events keep everything up to the moment when they take the event out of the queue.\<close>

lemma keep_wait_event_loop: "wait_event_loop c w = Some (e, c', w') \<Longrightarrow> I c w \<Longrightarrow> from_queue I e c' w'"
proof (induction c w rule: wait_event_loop.induct)
  case (1 c w)
  obtain x c1 where ge: "get_event c = (x, c1)" by (cases "get_event c")
  show ?case
  proof (cases x)
    case (Some y)
    with "1.prems" ge show ?thesis by (subst (asm) wait_event_loop.simps) (auto simp: from_queue_def)
  next
    case None
    with "1.prems"(1) ge obtain ret v c2 w2 where cw: "xcb_conn_wait None c w = Some (ret, v, c2, w2)"
      by (subst (asm) wait_event_loop.simps) (auto split: option.split_asm)
    have t2: "I c2 w2" using keep_conn_wait [OF cw "1.prems"(2)] .
    show ?thesis
    proof (cases ret)
      case False
      with "1.prems" ge None cw t2 show ?thesis by (subst (asm) wait_event_loop.simps) (auto simp: from_queue_def)
    next
      case True
      with "1.prems"(1) ge None cw have "wait_event_loop c2 w2 = Some (e, c', w')"
        by (subst (asm) wait_event_loop.simps) simp
      with "1.IH" [OF ge [symmetric] None cw refl refl refl True] t2 show ?thesis by auto
    qed
  qed
qed

lemma keep_wait_for_event: "xcb_wait_for_event c w = Some (e, c', w') \<Longrightarrow> I c w \<Longrightarrow> from_queue I e c' w'"
  by (auto simp: xcb_wait_for_event_def bind_eq_Some_conv2 from_queue_def split: if_split_asm
      dest: keep_wait_event_loop [unfolded from_queue_def])

lemma keep_poll_for_event:
  assumes pe: "xcb_poll_for_event c w = Some (e, c', w')" and inv: "I c w"
  shows "from_queue I e c' w'"
proof (cases "has_error c \<or> events (c_in c) \<noteq> []")
  case True
  with assms show ?thesis
    by (auto simp: xcb_poll_for_event_def get_event_def from_queue_def neq_Nil_conv split: if_split_asm)
next
  case False
  then have ge: "get_event c = (None, c)" by (simp add: get_event_def)
  with False pe obtain ok c2 w2 where rd: "xcb_in_read c w = Some (ok, c2, w2)"
    by (auto simp: xcb_poll_for_event_def bind_eq_Some_conv2)
  with False pe ge keep_in_read [OF rd inv] show ?thesis
    by (auto simp: xcb_poll_for_event_def from_queue_def split: if_split_asm prod.split_asm)
qed

end

end
