(* ===== verification/XcbTyped.thy ===== *)
theory XcbTyped
  imports XcbKept
begin

text \<open>
  The types of what a connection stores. The code keeps packets as \<open>void *\<close> and casts them: what
  comes out of a reply list to a reply or an \<open>xcb_generic_error_t\<close>, what comes out of the event
  queue to an \<open>xcb_generic_event_t\<close>. This theory says when these casts are right and shows that
  every operation of the library keeps the stores that way, and both byte queues within their
  buffers; what the public functions return is in \<open>XcbApi\<close>.
\<close>

section \<open>Well-typed packets\<close>

text \<open>
  A reply starts with its response type and has no trailer. An error is 32 bytes and the full
  sequence number behind them. An event is anything else; an event of the XGE extension carries
  the extra data it announces behind the full sequence number.
\<close>

definition is_reply :: "packet \<Rightarrow> bool" where
  "is_reply p \<longleftrightarrow> contents p \<noteq> [] \<and> contents p ! 0 = XCB_REPLY \<and> full_sequence p = None \<and> xge_data p = []"

definition is_error :: "packet \<Rightarrow> bool" where
  "is_error p \<longleftrightarrow> length (contents p) = 32 \<and> contents p ! 0 = XCB_ERROR \<and> full_sequence p \<noteq> None \<and> xge_data p = []"

definition is_event :: "packet \<Rightarrow> bool" where
  "is_event p \<longleftrightarrow> length (contents p) = 32 \<and> contents p ! 0 \<noteq> XCB_REPLY \<and> full_sequence p \<noteq> None
     \<and> length (xge_data p) = unat (xge_length (get_genrep (contents p)))"

text \<open>
  The mailbox of request \<open>k\<close> holds the answers to it: the number in the header of the packet is
  the low half of \<open>k\<close>, and an error carries \<open>k\<close> as its full sequence number.
\<close>

definition packet_sequence :: "packet \<Rightarrow> u16" where
  "packet_sequence p = sequence (get_genrep (contents p))"

definition in_mailbox :: "u32 \<Rightarrow> packet \<Rightarrow> bool" where
  "in_mailbox k p \<longleftrightarrow> packet_sequence p = ucast k \<and> (is_reply p \<or> is_error p \<and> full_sequence p = Some k)"

text \<open>
  A connection is well typed when its queues fit their arrays and its stores hold packets of the
  right type under the number of the request they answer; a list of replies in the map is never empty.
\<close>

definition stores_typed ::
    "byte list \<Rightarrow> byte list \<Rightarrow> u64 \<Rightarrow> packet list \<Rightarrow> (u32 \<times> packet list) list \<Rightarrow> packet list \<Rightarrow> bool" where
  "stores_typed iq oq rr cur m ev \<longleftrightarrow> length iq \<le> IN_QUEUE_SIZE \<and> length oq \<le> XCB_QUEUE_BUFFER_SIZE
     \<and> (\<forall>p \<in> set cur. in_mailbox (ucast rr) p)
     \<and> (\<forall>e \<in> set m. snd e \<noteq> [] \<and> (\<forall>p \<in> set (snd e). in_mailbox (fst e) p))
     \<and> (\<forall>p \<in> set ev. is_event p)"

definition conn_typed :: "xcb_connection_t \<Rightarrow> bool" where
  "conn_typed c \<longleftrightarrow> stores_typed (in_queue (c_in c)) (out_queue (c_out c)) (request_read (c_in c)) (current_reply (c_in c))
     (replies (c_in c)) (events (c_in c))"

text \<open>
  What other threads do is done by the same library, so they keep the types too. The descriptor
  and the setup data belong to the connection for good: \<open>own\<close> is that pair.
\<close>

definition owns :: "xcb_connection_t \<Rightarrow> int \<times> xcb_setup_t option" where
  "owns c = (fd c, c_setup c)"

definition others_typed :: "int \<times> xcb_setup_t option \<Rightarrow> (xcb_connection_t \<Rightarrow> xcb_connection_t) list \<Rightarrow> bool" where
  "others_typed own fs \<longleftrightarrow> (\<forall>f \<in> set fs. \<forall>c. conn_typed c \<and> owns c = own \<longrightarrow> conn_typed (f c) \<and> owns (f c) = own)"

definition typed :: "int \<times> xcb_setup_t option \<Rightarrow> xcb_connection_t \<Rightarrow> os \<Rightarrow> bool" where
  "typed own c w \<longleftrightarrow> conn_typed c \<and> owns c = own \<and> others_typed own (os_others w)"

lemma others_typed_Nil [simp]: "others_typed own []"
  and others_typed_Cons [simp]: "others_typed own (f # fs)
    \<longleftrightarrow> (\<forall>c. conn_typed c \<and> owns c = own \<longrightarrow> conn_typed (f c) \<and> owns (f c) = own) \<and> others_typed own fs"
  by (simp_all add: others_typed_def)

section \<open>Reading\<close>

named_theorems typed_dests \<open>an operation keeps a connection well typed\<close>

lemma typed_os [typed_dests]:
  "malloc_ok w = (b, w') \<Longrightarrow> typed own c w \<Longrightarrow> typed own c w'"
  "malloc_size sz w = (b, w') \<Longrightarrow> typed own c w \<Longrightarrow> typed own c w'"
  by (auto simp: typed_def dest: malloc_ok_frame malloc_size_frame)

lemma typed_frame: "typed own c w \<Longrightarrow> stores c' = stores c \<Longrightarrow> os_others w' = os_others w
    \<Longrightarrow> typed own c' w'"
  by (simp add: typed_def conn_typed_def owns_def stores_def)

lemma typed_learn [simp]:
  "typed own c (assign_global_id ext w) = typed own c w"
  "typed own (c\<lparr>extensions := xs\<rparr>) w = typed own c w"
  "typed own (set_lazyreply i v c) w = typed own c w"
  "typed own (set_length t m c) w = typed own c w"
  by (simp_all add: typed_def conn_typed_def owns_def assign_global_id_def set_lazyreply_def)

lemma typed_cong: "os_others w' = os_others w \<Longrightarrow> typed own c w' = typed own c w"
  by (simp add: typed_def)

lemma typed_shutdown [simp]: "typed own (xcb_conn_shutdown c) w = typed own c w"
  by (simp add: typed_def conn_typed_def owns_def xcb_conn_shutdown_def)

lemma typed_set_queue:
  "typed own c w \<Longrightarrow> length q \<le> max (length (in_queue (c_in c))) IN_QUEUE_SIZE \<Longrightarrow> typed own (set_queue q c) w"
  by (simp add: typed_def conn_typed_def owns_def stores_typed_def)

lemma typed_receive:
  assumes "os_recv (IN_QUEUE_SIZE - length (in_queue (c_in c))) (os_recvs w) = (n, rs)" and "typed own c w"
  shows "typed own (case n of Got bs \<Rightarrow> set_queue (in_queue (c_in c) @ bs) c | _ \<Rightarrow> c) (w\<lparr>os_recvs := rs\<rparr>)"
  using assms by (auto simp: typed_def conn_typed_def owns_def stores_typed_def dest: os_recv_Got split: recv_outcome.split)

lemma typed_set_out_queue:
  "typed own c w \<Longrightarrow> length q \<le> max (length (out_queue (c_out c))) XCB_QUEUE_BUFFER_SIZE \<Longrightarrow> typed own (set_out_queue q c) w"
  by (simp add: typed_def conn_typed_def owns_def stores_typed_def set_out_queue_def)

lemma typed_read_block [typed_dests]:
  assumes "xcb_in_read_block len c w = Some (ret, buf, c', w')" and "typed own c w"
  shows "typed own c' w'"
proof -
  let ?n = "nat (len - int (length (in_queue (c_in c))))"
  obtain ret1 more rs ps where rb: "read_block ?n (os_recvs w) (os_polls w) = (ret1, more, rs, ps)"
    by (metis prod_cases4)
  with assms show ?thesis
    by (auto simp: xcb_in_read_block_def Let_def typed_def conn_typed_def owns_def stores_typed_def xcb_conn_shutdown_def
        split: if_splits)
qed

lemma al_put_entries: "set (al_put k v m) = insert (k, v) (set m)"
  by (auto simp: al_put_def)

lemma al_remove_entries_subset: "set (snd (al_remove k m)) \<subseteq> set m"
  by (induction m) (auto split: prod.splits if_splits)

lemma al_remove_value: "al_remove k m = (Some v, m') \<Longrightarrow> (k, v) \<in> set m"
  by (induction m arbitrary: m') (auto split: prod.splits if_splits)

lemma track_sequence_replies:
  assumes "track_sequence g c w = (c', w')"
  shows "(request_read (c_in c') = request_read (c_in c) \<or> current_reply (c_in c) = [])
      \<and> current_reply (c_in c') = current_reply (c_in c) \<and> replies (c_in c') = replies (c_in c)
    \<or> current_reply (c_in c) \<noteq> [] \<and> current_reply (c_in c') = []
      \<and> (replies (c_in c') = replies (c_in c)
         \<or> replies (c_in c') = al_put (ucast (request_read (c_in c))) (current_reply (c_in c)) (replies (c_in c)))"
  using assms by (auto simp: track_sequence_def Let_def split: if_splits prod.splits)

lemma typed_track [typed_dests]:
  assumes ts: "track_sequence g c w = (c', w')" and typed: "typed own c w"
  shows "typed own c' w'"
  using track_sequence_replies [OF ts] track_sequence_frame [OF ts] typed
  by (auto simp: typed_def conn_typed_def owns_def stores_typed_def al_put_entries)

lemma typed_deliver_False [typed_dests]:
  "deliver_reply p c w = (False, c', w') \<Longrightarrow> typed own c w \<Longrightarrow> typed own c' w'"
  "deliver_event p c w = (False, c', w') \<Longrightarrow> typed own c w \<Longrightarrow> typed own c' w'"
  by (auto simp: deliver_reply_def deliver_event_def Let_def typed_dests split: prod.splits if_splits)

text \<open>The packet built from the bytes read has the type of the place it goes to.\<close>

lemma nonneg_sint: "0 \<le> sint (x :: u32) \<Longrightarrow> nat (sint x) = unat x"
proof -
  assume "0 \<le> sint x"
  moreover have "sint x < 2 ^ 31" using sint_lt [of x] by simp
  ultimately have "sint x = uint x" by (simp add: uint_sint take_bit_int_eq_self)
  then show ?thesis by simp
qed

lemma get_genrep_prefix: "32 \<le> length q \<Longrightarrow> get_genrep (take 32 q) = get_genrep q"
  by (simp add: get_genrep_def)

lemma reply_length_ge_4:
  assumes "0 < sint (packet_length g pend q)"
  shows "4 \<le> nat (sint (packet_length g pend q))"
proof -
  have "4 dvd unat (packet_length g pend q)"
    by (auto simp: packet_length_def unat_word_ariths Let_def dvd_mod split: option.split)
  moreover have "packet_length g pend q \<noteq> 0" using assms by auto
  then have "0 < unat (packet_length g pend q)" by (simp add: unat_gt_0)
  ultimately have "4 \<le> unat (packet_length g pend q)" by (rule dvd_imp_le)
  with assms show ?thesis by (simp add: nonneg_sint)
qed

lemma made_packet_typed:
  assumes q32: "32 \<le> length q" and g: "g = get_genrep q" and pre: "q @ later = buf @ rest"
    and buf: "length buf = nat (sint (packet_length g pend q))" "0 < sint (packet_length g pend q)"
    and ext: "length ext = nat (sint (xge_length g))" "0 \<le> sint (xge_length g)"
  shows "packet_route g pend = ToReply \<Longrightarrow> ucast rr = sequence g \<Longrightarrow> in_mailbox (ucast rr) (make_packet g rr buf ext)"
    and "packet_route g pend = ToEvent \<Longrightarrow> is_event (make_packet g rr buf ext)"
proof -
  from buf reply_length_ge_4 [OF buf(2)] have four: "4 \<le> length buf" by simp
  then have nonempty: "buf \<noteq> []" by auto
  have same: "buf ! k = q ! k" if "k < 4" for k
  proof -
    have "(q @ later) ! k = (buf @ rest) ! k" using pre by simp
    with that four q32 show ?thesis by (simp add: nth_append)
  qed
  then have first: "buf ! 0 = response_type g" by (simp add: g get_genrep_def)
  have sq: "sequence (get_genrep buf) = sequence g" using same by (simp add: g get_genrep_def)
  have whole: "buf = take 32 q" if "response_type g \<noteq> XCB_REPLY"
  proof -
    from that buf have "length buf = 32" by (simp add: packet_length_other)
    with arg_cong [OF pre, of "take 32"] q32 show ?thesis by simp
  qed
  from ext have e: "length ext = unat (xge_length g)" by (simp add: nonneg_sint)
  show "in_mailbox (ucast rr) (make_packet g rr buf ext)" if "packet_route g pend = ToReply" "ucast rr = sequence g"
    using that first nonempty e whole q32 sq
    by (auto simp: packet_sequence_def low16_low32 packet_route_def make_packet_def in_mailbox_def is_reply_def is_error_def xge_length_def
        XCB_REPLY_def XCB_ERROR_def XCB_XGE_EVENT_def split: if_splits)
  show "is_event (make_packet g rr buf ext)" if "packet_route g pend = ToEvent"
  proof -
    from that have "response_type g \<noteq> XCB_REPLY" by (auto simp: packet_route_def split: if_splits)
    with whole first e q32 g show ?thesis by (auto simp: is_event_def make_packet_def get_genrep_prefix)
  qed
qed

lemma typed_add_reply: "in_mailbox (ucast (request_read (c_in c))) p \<Longrightarrow> typed own c w \<Longrightarrow> typed own (add_reply p c) w"
  and typed_add_event: "is_event p \<Longrightarrow> typed own c w \<Longrightarrow> typed own (add_event p c) w"
  by (auto simp: add_reply_def add_event_def typed_def conn_typed_def owns_def stores_typed_def)

lemma typed_packet_True:
  assumes rp: "read_packet c w = Some (True, c', w')" and typed: "typed own c w"
  shows "typed own c' w'"
proof -
  define g where g: "g = get_genrep (in_queue (c_in c))"
  obtain c1 w1 where ts: "track_sequence g c w = (c1, w1)" by (cases "track_sequence g c w")
  define pend where pend: "pend = packet_pend g (c_in c1)"
  define len where len: "len = packet_length g pend (in_queue (c_in c))"
  have t1: "typed own c1 w1" using typed_track [OF ts typed] .
  from rp g ts pend len obtain buf ext q w2 where r:
    "32 \<le> length (in_queue (c_in c))" "0 < sint len" "0 \<le> sint (xge_length g)"
    "length buf = nat (sint len)" "length ext = nat (sint (xge_length g))"
    "instream c w = buf @ ext @ instream c' w'"
    "q = drop (length buf + length ext) (in_queue (c_in c))"
    and fin: "case packet_route g pend of
           Dropped \<Rightarrow> c' = set_queue q c1 \<and> w' = w2
         | ToReply \<Rightarrow> c' = add_reply (make_packet g (request_read (c_in c1)) buf ext) (set_queue q c1)
             \<and> w' = signal_reader (request_read (c_in c1)) (readers (c_in c1)) w2
         | ToEvent \<Rightarrow> c' = add_event (make_packet g (request_read (c_in c1)) buf ext) (set_queue q c1)
             \<and> w' = os_signal EventCond w2"
    by (rule read_packet_True)
  from r(6) have pre: "in_queue (c_in c) @ recv_bytes (os_recvs w) = buf @ ext @ instream c' w'"
    by (simp add: instream_def)
  note pkt = made_packet_typed [OF r(1) g pre r(4) [unfolded len] r(2) [unfolded len] r(5) r(3),
      where rr = "request_read (c_in c1)"]
  have q: "typed own (set_queue q c1) w1"
    using t1 r(7) track_sequence_frame(1) [OF ts] by (intro typed_set_queue) simp_all
  have rr: "ucast (request_read (c_in c1)) = sequence g" if "packet_route g pend = ToReply"
    using that track_sequence_read [OF ts]
    by (auto simp: next_seq_def widen_sequence_low packet_route_def packet_consts split: if_splits)
  have others: "os_others w' = os_others w1"
    using reads_only_read_packet [OF rp] reads_only_track [OF ts] by (simp add: reads_only_def)
  show ?thesis
    using fin q pkt rr typed_cong [OF others]
    by (cases "packet_route g pend") (auto intro: typed_add_reply typed_add_event)
qed

lemma typed_packet_False:
  assumes rp: "read_packet c w = Some (False, c', w')" and typed: "typed own c w"
  shows "typed own c' w'"
proof (cases "length (in_queue (c_in c)) < 32")
  case True
  with assms show ?thesis by (simp add: read_packet_def)
next
  case False
  define g where g: "g = get_genrep (in_queue (c_in c))"
  obtain c1 w1 where ts: "track_sequence g c w = (c1, w1)" by (cases "track_sequence g c w")
  define pend where pend: "pend = packet_pend g (c_in c1)"
  define len where len: "len = packet_length g pend (in_queue (c_in c))"
  let ?sz = "scast (len + xge_length g) + (if response_type g = XCB_REPLY then 0 else 4) :: u64"
  obtain ok w2 where ml: "malloc_size ?sz w1 = (ok, w2)" by (cases "malloc_size ?sz w1")
  have t2: "typed own c1 w2" using typed_os(2) [OF ml typed_track [OF ts typed]] .
  show ?thesis
    using False rp t2
    by (cases "packet_route g pend")
      (auto simp: read_packet_def Let_def g [symmetric] ts pend [symmetric] len [symmetric] ml bind_eq_Some_conv2
        dest: typed_dests split: if_splits)
qed

lemma typed_read_packet [typed_dests]: "read_packet c w = Some (b, c', w') \<Longrightarrow> typed own c w \<Longrightarrow> typed own c' w'"
  by (cases b) (auto intro: typed_packet_True typed_packet_False)

section \<open>What is handed out\<close>

text \<open>
  The results: a reply pointer is null or a reply, an error pointer null or an error, an event
  pointer null or an event.
\<close>

definition reply_result_typed :: "u32 \<Rightarrow> poll_result_t \<Rightarrow> bool" where
  "reply_result_typed k r \<longleftrightarrow> (\<forall>p. pr_reply r = Some p \<longrightarrow> is_reply p \<and> in_mailbox k p)
     \<and> (\<forall>p. pr_error r = Some p \<longrightarrow> is_error p \<and> in_mailbox k p)"

lemma no_reply_typed [simp]: "reply_result_typed k \<lparr>pr_reply = None, pr_error = None\<rparr>"
  by (simp add: reply_result_typed_def)

lemma split_reply_typed:
  "(\<forall>p. h = Some p \<longrightarrow> in_mailbox k p) \<Longrightarrow> reply_result_typed k (split_reply h want)"
  by (auto simp: split_reply_def reply_result_typed_def in_mailbox_def is_reply_def is_error_def
      XCB_REPLY_def XCB_ERROR_def split: option.split)

lemma typed_entry:
  "typed own c w \<Longrightarrow> (k, v) \<in> set (replies (c_in c)) \<Longrightarrow> v \<noteq> [] \<and> (\<forall>p \<in> set v. in_mailbox k p)"
  by (force simp: typed_def conn_typed_def owns_def stores_typed_def)

lemma typed_remove:
  assumes "typed own c w" and "al_remove k (replies (c_in c)) = (v, m)"
  shows "\<forall>e \<in> set m. snd e \<noteq> [] \<and> (\<forall>p \<in> set (snd e). in_mailbox (fst e) p)"
  using assms al_remove_entries_subset [of k "replies (c_in c)"]
  by (auto simp: typed_def conn_typed_def owns_def stores_typed_def)

lemma typed_update_replies:
  "typed own c w \<Longrightarrow> \<forall>e \<in> set m. snd e \<noteq> [] \<and> (\<forall>p \<in> set (snd e). in_mailbox (fst e) p) \<Longrightarrow>
     typed own (c\<lparr>c_in := (c_in c)\<lparr>replies := m\<rparr>\<rparr>) w"
  by (simp add: typed_def conn_typed_def owns_def stores_typed_def)

lemma typed_current:
  "typed own c w \<Longrightarrow> current_reply (c_in c) \<noteq> [] \<Longrightarrow> in_mailbox (ucast (request_read (c_in c))) (hd (current_reply (c_in c)))
     \<and> typed own (c\<lparr>c_in := (c_in c)\<lparr>current_reply := tl (current_reply (c_in c))\<rparr>\<rparr>) w"
  by (cases "current_reply (c_in c)") (auto simp: typed_def conn_typed_def owns_def stores_typed_def)

lemma typed_reply_head:
  assumes rh: "reply_head k c w = Some (h, c', w')" and typed: "typed own c w"
  shows "typed own c' w' \<and> (\<forall>p. h = Some p \<longrightarrow> in_mailbox k p)"
proof (cases "k \<noteq> 0 \<and> XCB_SEQUENCE_COMPARE_32 k (<) (request_read (c_in c))")
  case False
  with rh typed typed_current [OF typed] show ?thesis
    by (auto simp: reply_head_def seq32_eq ucast32_id split: if_split_asm)
next
  case True
  obtain v m where rem: "al_remove k (replies (c_in c)) = (v, m)" by (cases "al_remove k (replies (c_in c))")
  note m = typed_remove [OF typed rem]
  show ?thesis
  proof (cases v)
    case None
    with rh True rem typed_update_replies [OF typed m] show ?thesis by (auto simp: reply_head_def)
  next
    case (Some l)
    from typed_entry [OF typed al_remove_value [OF rem [unfolded Some]]]
    obtain h0 rest where l: "l = h0 # rest" "in_mailbox k h0" "\<forall>p \<in> set rest. in_mailbox k p"
      by (cases l) auto
    obtain ok w1 where ml: "(if rest \<noteq> [] then malloc_ok w else (False, w)) = (ok, w1)" by force
    then have t1: "typed own c w1" and ok: "ok \<Longrightarrow> rest \<noteq> []"
      using typed typed_os(1) by (auto split: if_split_asm)
    have "typed own (c\<lparr>c_in := (c_in c)\<lparr>replies := (if ok then al_put k rest m else m)\<rparr>\<rparr>) w1"
      using m l ok by (intro typed_update_replies [OF t1]) (auto simp: al_put_entries)
    with rh True rem Some l ml show ?thesis by (auto simp: reply_head_def Let_def)
  qed
qed

lemma typed_poll_for_reply:
  assumes pr: "poll_for_reply k want c w = (r, c', w')" and typed: "typed own c w"
  shows "typed own c' w' \<and> (\<forall>x. r = Some x \<longrightarrow> reply_result_typed k x)"
proof (cases "reply_head k c w")
  case None
  with assms show ?thesis by (simp add: poll_for_reply_def)
next
  case (Some x)
  obtain h c1 w1 where "x = (h, c1, w1)" by (metis prod_cases3)
  with pr Some typed_reply_head [OF _ typed, of k h c1 w1] split_reply_typed [of h k want] show ?thesis
    by (auto simp: poll_for_reply_def)
qed

lemma typed_get_event:
  "get_event c = (e, c') \<Longrightarrow> typed own c w \<Longrightarrow> typed own c' w \<and> (\<forall>p. e = Some p \<longrightarrow> is_event p)"
  by (auto simp: get_event_def typed_def conn_typed_def owns_def stores_typed_def split: list.split_asm)

section \<open>Discarding\<close>

lemma typed_pending [simp]:
  "typed own (c\<lparr>c_in := (c_in c)\<lparr>pending_replies := p\<rparr>\<rparr>) w = typed own c w"
  by (simp add: typed_def conn_typed_def owns_def)

lemma typed_insert_discard:
  "insert_pending_discard before after seq c w = (c', w') \<Longrightarrow> typed own c w \<Longrightarrow> typed own c' w'"
  by (auto simp: insert_pending_discard_def Let_def dest: typed_os split: if_split_asm prod.split_asm)

lemma typed_clear_current: "typed own c w \<Longrightarrow> typed own (c\<lparr>c_in := (c_in c)\<lparr>current_reply := []\<rparr>\<rparr>) w"
  "typed own c w \<Longrightarrow> typed own (c\<lparr>c_in := (c_in c)\<lparr>current_reply := [], pending_replies := p\<rparr>\<rparr>) w"
  by (simp_all add: typed_def conn_typed_def owns_def stores_typed_def)

lemma typed_discard_reply:
  assumes dr: "discard_reply k c w = (c', w')" and typed: "typed own c w"
  shows "typed own c' w'"
proof (cases "XCB_SEQUENCE_COMPARE_32 k (<) (request_read (c_in c))")
  case True
  obtain v m where rem: "al_remove k (replies (c_in c)) = (v, m)" by (cases "al_remove k (replies (c_in c))")
  with True dr typed_update_replies [OF typed typed_remove [OF typed rem]] show ?thesis
    by (auto simp: discard_reply_def Let_def)
next
  case False
  with dr typed show ?thesis
    by (auto simp: discard_reply_def Let_def typed_clear_current
        intro: typed_insert_discard [OF _ typed_clear_current(1)] dest: typed_insert_discard
        split: if_split_asm option.split_asm prod.split_asm list.split_asm)
qed

section \<open>All operations\<close>

interpretation ty: kept "typed own" reply_result_typed for own
  by unfold_locales (erule (2) typed_frame, simp add: typed_def, simp, fact typed_receive, fact typed_set_out_queue,
    fact typed_read_packet, fact typed_poll_for_reply, fact no_reply_typed, simp_all add: typed_discard_reply)

lemma typed_from_queue: "from_queue (typed own) e c w \<Longrightarrow> typed own c w \<and> (\<forall>p. e = Some p \<longrightarrow> is_event p)"
  by (auto simp: from_queue_def dest: typed_get_event)

lemmas typed_wait_for_event = ty.keep_wait_for_event [THEN typed_from_queue]
  and typed_poll_for_event = ty.keep_poll_for_event [THEN typed_from_queue]

text \<open>The functions generated from the protocol keep the types as the functions of the library do.\<close>

definition gen_typed :: "generated \<Rightarrow> bool" where
  "gen_typed gen \<longleftrightarrow> (\<forall>own. gen_preserves (typed own) gen)"

lemma gen_typedD: "gen_typed gen \<Longrightarrow> gen_preserves (typed own) gen"
  unfolding gen_typed_def by (rule spec)

lemma typed_request_check:
  assumes "xcb_request_check gen k c w = Some (e, c', w')" and "gen_typed gen" and "typed own c w"
  shows "typed own c' w' \<and> (\<forall>p. e = Some p \<longrightarrow> is_error p \<and> in_mailbox k p)"
  using ty.keep_request_check [OF assms(1) gen_typedD [OF assms(2)] assms(3)] by (auto simp: reply_result_typed_def)

end
