(* ===== verification/XcbApi.thy ===== *)
theory XcbApi
  imports XcbTyped XcbSetup
begin

text \<open>
  The public interface of a connection as one type of calls with their results, and what holds
  of every sequence of calls: the packets handed out have the type their pointer claims, and a
  connection in error is left alone.
\<close>

section \<open>Calls and results\<close>

text \<open>The calls of the public interface, with their arguments.\<close>

datatype api_call =
    Call_send_request u32 nat "iovec list" xcb_protocol_request_t
  | Call_flush
  | Call_wait_for_reply u32 bool
  | Call_poll_for_reply u32 bool
  | Call_discard_reply u32
  | Call_wait_for_event
  | Call_poll_for_event
  | Call_request_check u32
  | Call_take_socket nat nat u32
  | Call_writev iovecs u64
  | Call_generate_id
  | Call_get_extension_data xcb_extension_t
  | Call_prefetch_extension_data xcb_extension_t
  | Call_get_maximum_request_length
  | Call_prefetch_maximum_request_length
  | Call_get_setup
  | Call_get_file_descriptor

text \<open>What a call returns: one constructor for each return type.\<close>

datatype api_result =
    Number u32
  | Identifier u32
  | Status bool
  | Reply poll_result_t
  | Would_block
  | Event "packet option"
  | Check "packet option"
  | Position "u64 option"
  | Extension "xcb_query_extension_reply_t option"
  | Setup "xcb_setup_t option"
  | Descriptor int
  | Nothing

text \<open>The value with which the function reports a failure; \<open>Nothing\<close> has no other.\<close>

fun failed :: "api_result \<Rightarrow> bool" where
  "failed (Number n) = (n = 0)"
| "failed (Identifier n) = (n = - 1)"
| "failed (Status ok) = (\<not> ok)"
| "failed (Reply r) = (pr_reply r = None \<and> pr_error r = None)"
| "failed Would_block = False"
| "failed (Event e) = (e = None)"
| "failed (Check e) = (e = None)"
| "failed (Position n) = (n = None)"
| "failed (Extension x) = (x = None)"
| "failed (Setup s) = (s = None)"
| "failed (Descriptor d) = (d = - 1)"
| "failed Nothing = True"

fun perform :: "generated \<Rightarrow> api_call \<Rightarrow> xcb_connection_t \<Rightarrow> os \<Rightarrow>
    (api_result \<times> xcb_connection_t \<times> os) option" where
  "perform gen (Call_send_request flags spare v req) c w =
     do { (n, c, w) \<leftarrow> xcb_send_request gen flags spare v req c w; Some (Number n, c, w) }"
| "perform gen Call_flush c w = do { (ok, c, w) \<leftarrow> xcb_flush c w; Some (Status ok, c, w) }"
| "perform gen (Call_wait_for_reply k e) c w = do { (r, c, w) \<leftarrow> xcb_wait_for_reply k e c w; Some (Reply r, c, w) }"
| "perform gen (Call_poll_for_reply k e) c w =
     (let (r, c, w) = xcb_poll_for_reply k e c w in Some (case r of None \<Rightarrow> Would_block | Some r \<Rightarrow> Reply r, c, w))"
| "perform gen (Call_discard_reply k) c w = (let (c, w) = xcb_discard_reply k c w in Some (Nothing, c, w))"
| "perform gen Call_wait_for_event c w = do { (e, c, w) \<leftarrow> xcb_wait_for_event c w; Some (Event e, c, w) }"
| "perform gen Call_poll_for_event c w = do { (e, c, w) \<leftarrow> xcb_poll_for_event c w; Some (Event e, c, w) }"
| "perform gen (Call_request_check k) c w = do { (e, c, w) \<leftarrow> xcb_request_check gen k c w; Some (Check e, c, w) }"
| "perform gen (Call_take_socket f cl fl) c w = do { (n, c, w) \<leftarrow> xcb_take_socket f cl fl c w; Some (Position n, c, w) }"
| "perform gen (Call_writev v n) c w = do { (ok, c, w) \<leftarrow> xcb_writev v n c w; Some (Status ok, c, w) }"
| "perform gen Call_generate_id c w = do { (n, c, w) \<leftarrow> xcb_generate_id gen c w; Some (Identifier n, c, w) }"
| "perform gen (Call_get_extension_data x) c w = do { (r, c, w) \<leftarrow> xcb_get_extension_data gen x c w; Some (Extension r, c, w) }"
| "perform gen (Call_prefetch_extension_data x) c w = do { (c, w) \<leftarrow> xcb_prefetch_extension_data gen x c w; Some (Nothing, c, w) }"
| "perform gen Call_get_maximum_request_length c w =
     do { (n, c, w) \<leftarrow> xcb_get_maximum_request_length gen c w; Some (Number n, c, w) }"
| "perform gen Call_prefetch_maximum_request_length c w =
     do { (c, w) \<leftarrow> xcb_prefetch_maximum_request_length gen c w; Some (Nothing, c, w) }"
| "perform gen Call_get_setup c w = Some (Setup (xcb_get_setup (Conn c)), c, w)"
| "perform gen Call_get_file_descriptor c w = Some (Descriptor (xcb_get_file_descriptor (Conn c)), c, w)"

fun perform_all :: "generated \<Rightarrow> api_call list \<Rightarrow> xcb_connection_t \<Rightarrow> os \<Rightarrow>
    (api_result list \<times> xcb_connection_t \<times> os) option" where
  "perform_all gen [] c w = Some ([], c, w)"
| "perform_all gen (k # ks) c w = do {
     (r, c, w) \<leftarrow> perform gen k c w;
     (rs, c, w) \<leftarrow> perform_all gen ks c w;
     Some (r # rs, c, w)
   }"

text \<open>The request whose answer a call asks for.\<close>

fun asked_for :: "api_call \<Rightarrow> u32" where
  "asked_for (Call_wait_for_reply k e) = k"
| "asked_for (Call_poll_for_reply k e) = k"
| "asked_for (Call_request_check k) = k"
| "asked_for _ = 0"

section \<open>What every call keeps\<close>

text \<open>
  The contract of \<open>XcbKept\<close> reaches up to the public interface: only the two calls that hand out events
  need more than it says.
\<close>

context kept
begin

lemma keep_perform:
  assumes pf: "perform gen k c w = Some (r, c', w')" and gen: "gen_preserves I gen" and inv: "I c w"
    and "k \<noteq> Call_wait_for_event" and "k \<noteq> Call_poll_for_event"
  shows "I c' w' \<and> (\<forall>x. r = Reply x \<longrightarrow> R (asked_for k) x) \<and> (\<forall>e. r \<noteq> Event e)"
proof (cases k)
  case (Call_poll_for_reply n e)
  obtain x c1 w1 where pr: "xcb_poll_for_reply n e c w = (x, c1, w1)" by (metis prod_cases3)
  with pf Call_poll_for_reply keep_poll_reply [OF pr inv] show ?thesis by (cases x) auto
next
  case (Call_discard_reply n)
  obtain c1 w1 where dr: "xcb_discard_reply n c w = (c1, w1)" by (cases "xcb_discard_reply n c w")
  with pf Call_discard_reply keep_xcb_discard_reply [OF dr inv] show ?thesis by simp
qed (use assms in \<open>auto simp: bind_eq_Some_conv2 dest!: keep_wait_for_reply dest: keeps\<close>)

end

section \<open>The types of the packets handed out\<close>

fun result_typed :: "api_call \<Rightarrow> api_result \<Rightarrow> bool" where
  "result_typed k (Reply r) = reply_result_typed (asked_for k) r"
| "result_typed k (Event e) = (\<forall>p. e = Some p \<longrightarrow> is_event p)"
| "result_typed k (Check e) = (\<forall>p. e = Some p \<longrightarrow> is_error p \<and> in_mailbox (asked_for k) p)"
| "result_typed k _ = True"

lemma perform_typed:
  assumes pf: "perform gen k c w = Some (r, c', w')" and gen: "gen_typed gen" and typed: "typed own c w"
  shows "typed own c' w' \<and> result_typed k r"
proof (cases "k = Call_wait_for_event \<or> k = Call_poll_for_event \<or> (\<exists>n. k = Call_request_check n)")
  case True
  with assms show ?thesis
    by (auto simp: bind_eq_Some_conv2 dest!: typed_wait_for_event typed_poll_for_event typed_request_check)
next
  case False
  with ty.keep_perform [OF pf gen_typedD [OF gen] typed] have "typed own c' w'" "\<forall>x. r = Reply x \<longrightarrow> reply_result_typed (asked_for k) x"
    "\<forall>e. r \<noteq> Event e" by blast+
  moreover have "\<forall>e. r \<noteq> Check e"
    using pf False by (cases k) (auto simp: bind_eq_Some_conv2 split: prod.split_asm option.split_asm)
  ultimately show ?thesis by (cases r) auto
qed

lemma perform_all_typed:
  assumes gen: "gen_typed gen"
  shows "perform_all gen ks c w = Some (rs, c', w') \<Longrightarrow> typed own c w \<Longrightarrow> typed own c' w' \<and> list_all2 result_typed ks rs"
proof (induction ks arbitrary: c w rs)
  case (Cons k ks)
  from Cons.prems(1) obtain r c1 w1 rs1 where 1: "perform gen k c w = Some (r, c1, w1)"
    "perform_all gen ks c1 w1 = Some (rs1, c', w')" "rs = r # rs1"
    by (auto simp: bind_eq_Some_conv2)
  from perform_typed [OF 1(1) gen Cons.prems(2)] Cons.IH [OF 1(2)] 1(3) show ?case by simp
qed simp

text \<open>
  C8: The casts of the library are right, whatever the server sends. After any sequence of public
  calls on a well-typed connection (a fresh one is) both byte queues fit their arrays, every reply
  list in the map has an entry, every stored packet has the type of its store, and what was
  returned is of the type its pointer says: a reply starts with the response type of a reply, an
  error is 32 bytes of an error and its full sequence number, an event is not a reply, has its
  full sequence number and exactly the extra data its length field announces. And answers go to the
  request they answer: a reply or error returned for request \<open>k\<close> has the low half of \<open>k\<close> as the sequence
  number in its header, an error also \<open>k\<close> as its full sequence number. Other threads
  may act on the connection in between as long as they keep to this too.
\<close>

theorem packets_keep_their_types:
  assumes "conn_typed c" and "others_typed (owns c) (os_others w)" and "gen_typed gen"
    and "perform_all gen ks c w = Some (rs, c', w')"
  shows "conn_typed c' \<and> list_all2 result_typed ks rs"
  using perform_all_typed [OF assms(3,4), of "owns c"] assms(1,2) by (simp add: typed_def)

text \<open>Witness: an application polls for events, which reads a reply, and then asks for that reply.\<close>

lemma fresh_typed: "conn_typed zero_conn"
  by (simp add: conn_typed_def stores_typed_def zero_defs)

lemma sample_gen_typed: "gen_typed sample_gen"
  by (simp add: gen_typed_def gen_preserves_def preserves_def sample_gen_def)

definition reply_os :: os where
  "reply_os = quiet_os\<lparr>os_recvs := [RData (packet32 XCB_REPLY 1 0), RAgain]\<rparr>"

abbreviation "first_reply \<equiv> \<lparr>contents = packet32 XCB_REPLY 1 0, full_sequence = None, xge_data = []\<rparr>"

lemma poll_reply_run:
  "\<exists>c' w'. perform_all sample_gen [Call_poll_for_event, Call_poll_for_reply 1 True] zero_conn reply_os
     = Some ([Event None, Reply \<lparr>pr_reply = Some first_reply, pr_error = None\<rparr>], c', w')"
proof -
  have "packet32 XCB_REPLY 1 0 \<noteq> []" "packet32 XCB_REPLY 1 0 ! 0 \<noteq> 0" by (simp_all add: packet32_def XCB_REPLY_def)
  then show ?thesis
    by (simp add: xcb_poll_for_event_def get_event_def xcb_in_read_def read_packets.simps read_packet_def Let_def
        track_sequence_def widen_sequence_def XCB_SEQUENCE_COMPARE_def packet_consts packet_pend_def current_pend_def
        packet_length_def xge_length_def malloc_size_def malloc_ok_def xcb_in_read_block_def packet_route_def
        IN_QUEUE_SIZE_def pend_has_def flag_consts deliver_reply_def make_packet_def os_signal_def reply_os_def zero_defs
        xcb_poll_for_reply_def poll_for_reply_def reply_head_def XCB_SEQUENCE_COMPARE_32_def split_reply_def)
qed

theorem packets_keep_their_types_witness:
  "\<exists>c' w'. perform_all sample_gen [Call_poll_for_event, Call_poll_for_reply 1 True] zero_conn reply_os
       = Some ([Event None, Reply \<lparr>pr_reply = Some first_reply, pr_error = None\<rparr>], c', w')
     \<and> conn_typed c' \<and> is_reply first_reply \<and> packet_sequence first_reply = 1"
proof -
  obtain c' w' where run: "perform_all sample_gen [Call_poll_for_event, Call_poll_for_reply 1 True] zero_conn reply_os
      = Some ([Event None, Reply \<lparr>pr_reply = Some first_reply, pr_error = None\<rparr>], c', w')"
    using poll_reply_run by blast
  have "others_typed (owns zero_conn) (os_others reply_os)" by (simp add: reply_os_def zero_defs)
  from packets_keep_their_types [OF fresh_typed this sample_gen_typed run] run show ?thesis
    by (auto simp: reply_result_typed_def in_mailbox_def)
qed

section \<open>A new connection is well typed\<close>

lemma in_init_typed:
  "xcb_in_init zero_in w = (ok, i, w') \<Longrightarrow> in_queue i = [] \<and> current_reply i = [] \<and> replies i = [] \<and> events i = []"
  by (auto simp: xcb_in_init_def zero_in_def Let_def split: if_split_asm prod.split_asm)

lemma conn_typed_empty:
  "in_queue (c_in c) = [] \<Longrightarrow> out_queue (c_out c) = [] \<Longrightarrow> current_reply (c_in c) = [] \<Longrightarrow> replies (c_in c) = []
     \<Longrightarrow> events (c_in c) = [] \<Longrightarrow> conn_typed c"
  by (simp add: conn_typed_def stores_typed_def)

lemma typed_write_setup:
  "write_setup a c w = Some (b, c', w') \<Longrightarrow> typed own c w \<Longrightarrow> typed own c' w'"
  by (auto simp: write_setup_def bind_eq_Some_conv2 dest: ty.keep_out_send)

lemma typed_read_setup:
  assumes rs: "read_setup reasons c w s = Some (True, c', w', s')" and typed: "typed own c w"
  shows "conn_typed c'"
proof -
  obtain w1 where m1: "malloc_ok w = (True, w1)"
    using rs by (auto simp: read_setup_def split: prod.split_asm if_split_asm)
  with rs obtain hdr c1 w2 where rb: "xcb_in_read_block 8 c w1 = Some (8, hdr, c1, w2)"
    by (auto simp: read_setup_def bind_eq_Some_conv2 split: if_split_asm)
  obtain w3 where m3: "malloc_ok w2 = (True, w3)"
    using rs m1 rb by (auto simp: read_setup_def Let_def split: prod.split_asm if_split_asm)
  let ?len = "int (unat (le16 (hdr ! 6) (hdr ! 7)) * 4)"
  from rs m1 rb m3 obtain r2 body c2 w4 where rb2: "xcb_in_read_block ?len c1 w3 = Some (r2, body, c2, w4)"
    by (auto simp: read_setup_def Let_def bind_eq_Some_conv2)
  have "typed own c2 w4"
    using typed m1 rb m3 rb2 by (blast dest: typed_os(1) typed_read_block)
  with rs m1 rb m3 rb2 show ?thesis
    by (auto simp: read_setup_def Let_def typed_def conn_typed_def split: if_split_asm)
qed

lemma connect_steps_typed:
  assumes run: "connect_steps reasons auth_info (zero_conn\<lparr>fd := f\<rparr>) w s = Some (True, c, w', s')"
    and "os_others w = []"
  shows "conn_typed c"
proof -
  obtain s1 where 1: "set_fd_flags f s = (True, s1)"
    using run by (auto simp: connect_steps_def Let_def zero_conn_def split: prod.split_asm if_split_asm)
  obtain w2 where 2: "pthread_init_ok w = (True, w2)"
    using run 1 by (auto simp: connect_steps_def Let_def zero_conn_def split: prod.split_asm if_split_asm)
  obtain i w3 where 3: "xcb_in_init zero_in w2 = (True, i, w3)"
    using run 1 2 by (auto simp: connect_steps_def Let_def zero_conn_def split: prod.split_asm if_split_asm)
  obtain out w4 where 4: "xcb_out_init zero_out w3 = (True, out, w4)"
    using run 1 2 3 by (auto simp: connect_steps_def Let_def zero_conn_def split: prod.split_asm if_split_asm)
  let ?c = "zero_conn\<lparr>fd := f, c_in := i, c_out := out\<rparr>"
  have "os_others w4 = []"
    using assms(2) call_frames(1) [OF 2] in_init_others [OF 3] out_init_spec [OF 4] by simp
  then have typed: "typed (owns ?c) ?c w4"
    using in_init_typed [OF 3] out_init_spec [OF 4] by (simp add: typed_def conn_typed_empty)
  obtain c5 w5 where 5: "write_setup auth_info ?c w4 = Some (True, c5, w5)"
    using run 1 2 3 4 by (auto simp: connect_steps_def Let_def zero_conn_def bind_eq_Some_conv2 split: if_split_asm)
  obtain c6 w6 s6 where 6: "read_setup reasons c5 w5 s1 = Some (True, c6, w6, s6)"
    using run 1 2 3 4 5 by (auto simp: connect_steps_def Let_def zero_conn_def bind_eq_Some_conv2 split: if_split_asm)
  obtain w7 ok where 8: "xcb_xid_init c6 w7 = Some (ok, c, w')"
    using run 1 2 3 4 5 6
    by (auto simp: connect_steps_def Let_def zero_conn_def bind_eq_Some_conv2 xcb_ext_init_def split: if_split_asm prod.split_asm)
  have "conn_typed c6" by (rule typed_read_setup [OF 6 typed_write_setup [OF 5 typed]])
  with xid_init_spec [OF 8] show ?thesis by (simp add: conn_typed_def)
qed

lemma connect_typed:
  assumes run: "xcb_connect_to_fd reasons f auth_info w s = Some (Conn c, w', s')" and "os_others w = []"
  shows "conn_typed c"
proof -
  obtain w1 where m: "malloc_ok w = (True, w1)"
    using run by (auto simp: xcb_connect_to_fd_def Let_def split: prod.split_asm if_split_asm)
  with run have "connect_steps reasons auth_info (zero_conn\<lparr>fd := f\<rparr>) w1 s = Some (True, c, w', s')"
    by (auto simp: xcb_connect_to_fd_def bind_eq_Some_conv2 split: if_split_asm)
  then show ?thesis using connect_steps_typed call_frames(2) [OF m] assms(2) by simp
qed

section \<open>A connection in error\<close>

lemmas guarded_calls = xcb_send_request_def xcb_flush_def xcb_wait_for_reply_def xcb_poll_for_reply_def xcb_discard_reply_def
  xcb_wait_for_event_def xcb_poll_for_event_def xcb_request_check_def xcb_take_socket_def xcb_writev_def xcb_generate_id_def
  xcb_get_extension_data_def xcb_prefetch_extension_data_def xcb_get_maximum_request_length_def
  xcb_prefetch_maximum_request_length_def xcb_get_setup_def xcb_get_file_descriptor_def

lemma perform_dead: "has_error c \<Longrightarrow> \<exists>r. perform gen k c w = Some (r, c, w) \<and> failed r"
  by (cases k) (simp_all add: guarded_calls)

lemma perform_all_dead:
  assumes "has_error c"
  shows "\<exists>rs. perform_all gen ks c w = Some (rs, c, w) \<and> length rs = length ks \<and> list_all failed rs"
proof (induction ks)
  case (Cons k ks)
  with perform_dead [OF assms, of gen k w] show ?case by auto
qed simp

text \<open>
  C36: Once a connection is in error it stays as it is: any sequence of calls of the public
  interface returns at once, every call with its failure value, and neither the connection
  nor the outside world changes, so nothing more is read or written.
\<close>

theorem dead_connection_inert:
  assumes "has_error c"
  shows "\<exists>rs. perform_all gen ks c w = Some (rs, c, w) \<and> length rs = length ks \<and> list_all failed rs"
  using assms by (rule perform_all_dead)

theorem dead_connection_inert_witness:
  "\<exists>rs. perform_all sample_gen [Call_flush, Call_wait_for_event, Call_generate_id] (xcb_conn_shutdown zero_conn) quiet_os
     = Some (rs, xcb_conn_shutdown zero_conn, quiet_os) \<and> length rs = 3 \<and> list_all failed rs"
proof -
  have "has_error (xcb_conn_shutdown zero_conn)" by (simp add: xcb_conn_shutdown_def)
  from dead_connection_inert [OF this, of sample_gen "[Call_flush, Call_wait_for_event, Call_generate_id]" quiet_os]
  show ?thesis by (simp add: numeral_3_eq_3 del: perform_all.simps)
qed

end
