(* ===== verification/XcbEvents.thy ===== *)
theory XcbEvents
  imports XcbApi
begin

text \<open>
  Events from the server to the client. \<open>XcbMailbox\<close> says what one packet does and \<open>XcbWait\<close> that the
  event queue is first in, first out; this theory joins them over all calls of the public interface: the
  events the client gets are cut out of the byte stream of the server, in the order in which they stand there,
  and as long as the connection is not in error no event is left out.
  It is the second use of the contract of \<open>XcbKept\<close>.
\<close>

section \<open>Events in a byte stream\<close>

text \<open>
  \<open>drawn bs ps rest\<close>: the packets \<open>ps\<close> are events that stand in the bytes \<open>bs\<close> before \<open>rest\<close>, in this order and
  without overlapping, each as its 32 bytes and the extra data it announces; other bytes may stand between them.
\<close>

inductive drawn :: "byte list \<Rightarrow> packet list \<Rightarrow> byte list \<Rightarrow> bool" where
  start: "drawn bs [] bs"
| pass: "drawn bs ps (other @ rest) \<Longrightarrow> drawn bs ps rest"
| draw: "drawn bs ps (contents p @ xge_data p @ rest) \<Longrightarrow> is_event p \<Longrightarrow> drawn bs (ps @ [p]) rest"

lemma drawn_suffix: "drawn bs ps rest \<Longrightarrow> \<exists>front. bs = front @ rest"
  by (induction rule: drawn.induct) auto

lemma drawn_length: "drawn bs ps rest \<Longrightarrow> 32 * length ps + length rest \<le> length bs"
  by (induction rule: drawn.induct) (auto simp: is_event_def)

text \<open>
  \<open>framed bs ps rest\<close>: the bytes before \<open>rest\<close> are packets without a gap, one after the other, and those among them
  that are not answers are exactly \<open>ps\<close>. An answer is a reply or an error (an error nobody checks may
  count as an event as well); a reply has the length its header announces, with or without the workaround of the GLX
  reply whose header lies. So a packet of any other type is in \<open>ps\<close>: it cannot be passed over.
\<close>

definition answer_length :: "byte list \<Rightarrow> nat \<Rightarrow> bool" where
  "answer_length s n \<longleftrightarrow> 32 \<le> length s \<and> response_type (get_genrep s) \<in> {XCB_REPLY, XCB_ERROR}
     \<and> (\<exists>pend. 0 < sint (packet_length (get_genrep s) pend s) \<and> n = nat (sint (packet_length (get_genrep s) pend s)))"

inductive framed :: "byte list \<Rightarrow> packet list \<Rightarrow> byte list \<Rightarrow> bool" where
  none: "framed bs [] bs"
| answer: "framed bs ps (other @ rest) \<Longrightarrow> answer_length (other @ rest) (length other) \<Longrightarrow> framed bs ps rest"
| event: "framed bs ps (contents p @ xge_data p @ rest) \<Longrightarrow> is_event p \<Longrightarrow> framed bs (ps @ [p]) rest"

lemma framed_drawn: "framed bs ps rest \<Longrightarrow> drawn bs ps rest"
  by (induction rule: framed.induct) (auto intro: drawn.intros)

text \<open>An event at the front of the bytes is the first of the packets, unless it has not been read yet.\<close>

lemma framed_no_loss:
  "framed bs ps rest \<Longrightarrow> 32 \<le> length bs \<Longrightarrow> response_type (get_genrep bs) \<notin> {XCB_REPLY, XCB_ERROR}
     \<Longrightarrow> (ps = [] \<and> rest = bs) \<or> (\<exists>p ps'. ps = p # ps' \<and> contents p = take 32 bs)"
proof (induction rule: framed.induct)
  case (answer bs ps other rest)
  then show ?case by (auto simp: answer_length_def)
next
  case (event bs ps p rest)
  then show ?case by (auto simp: is_event_def)
qed simp

text \<open>
  The invariant of a client that started with the events \<open>E\<close> and the unread bytes \<open>S\<close> and has got the events
  \<open>H\<close> since. Other threads may act on the connection as long as they do not read. With \<open>q\<close> it says in
  addition that no other thread acts and that, without an error, no event has been passed over.
\<close>

definition leaves_input :: "(xcb_connection_t \<Rightarrow> xcb_connection_t) \<Rightarrow> bool" where
  "leaves_input f \<longleftrightarrow> (\<forall>c. in_queue (c_in (f c)) = in_queue (c_in c) \<and> events (c_in (f c)) = events (c_in c))"

definition in_order :: "bool \<Rightarrow> packet list \<Rightarrow> packet list \<Rightarrow> byte list \<Rightarrow> xcb_connection_t \<Rightarrow> os \<Rightarrow> bool" where
  "in_order q H E S c w \<longleftrightarrow> (\<forall>f \<in> set (os_others w). leaves_input f) \<and> (q \<longrightarrow> os_others w = [])
     \<and> (\<exists>new. H @ events (c_in c) = E @ new \<and> drawn S new (instream c w)
          \<and> (q \<longrightarrow> has_error c \<or> framed S new (instream c w)))"

lemma in_order_start:
  "\<forall>f \<in> set (os_others w). leaves_input f \<Longrightarrow> q \<longrightarrow> os_others w = []
     \<Longrightarrow> in_order q [] (events (c_in c)) (instream c w) c w"
  by (auto simp: in_order_def intro: drawn.start framed.none)

lemma in_order_cong:
  "events (c_in c') = events (c_in c) \<Longrightarrow> instream c' w' = instream c w \<Longrightarrow> os_others w' = os_others w
     \<Longrightarrow> has_error c' = has_error c \<Longrightarrow> in_order q H E S c' w' = in_order q H E S c w"
  by (simp add: in_order_def)

lemma in_order_skip:
  "in_order q H E S c w \<Longrightarrow> events (c_in c') = events (c_in c) \<Longrightarrow> instream c w = other @ instream c' w'
     \<Longrightarrow> os_others w' = os_others w \<Longrightarrow> has_error c \<longrightarrow> has_error c' \<Longrightarrow> has_error c' \<or> other = []
     \<Longrightarrow> in_order q H E S c' w'"
  by (auto simp: in_order_def intro: drawn.pass)

lemma in_order_answer:
  "in_order q H E S c w \<Longrightarrow> events (c_in c') = events (c_in c) \<Longrightarrow> instream c w = other @ instream c' w'
     \<Longrightarrow> os_others w' = os_others w \<Longrightarrow> has_error c \<longrightarrow> has_error c'
     \<Longrightarrow> answer_length (other @ instream c' w') (length other) \<Longrightarrow> in_order q H E S c' w'"
  by (auto simp: in_order_def intro: drawn.pass framed.answer)

lemma in_order_draw:
  assumes "in_order q H E S c w" and "events (c_in c') = events (c_in c) @ [p]" and "os_others w' = os_others w"
    and "instream c w = contents p @ xge_data p @ instream c' w'" and "is_event p" and "has_error c \<longrightarrow> has_error c'"
  shows "in_order q H E S c' w'"
proof -
  from assms obtain new where "H @ events (c_in c') = E @ (new @ [p])" "drawn S new (contents p @ xge_data p @ instream c' w')"
    "q \<longrightarrow> has_error c' \<or> framed S new (contents p @ xge_data p @ instream c' w')"
    by (auto simp: in_order_def)
  with assms(1,3,5) show ?thesis by (metis in_order_def drawn.draw framed.event)
qed

section \<open>Reading packets\<close>

lemma read_block_stream:
  assumes "xcb_in_read_block len c w = Some (ret, buf, c', w')"
  shows "instream c w = buf @ instream c' w' \<and> events (c_in c') = events (c_in c) \<and> os_others w' = os_others w"
proof -
  let ?n = "nat (len - int (length (in_queue (c_in c))))"
  obtain ret1 more rs ps where rb: "read_block ?n (os_recvs w) (os_polls w) = (ret1, more, rs, ps)"
    by (metis prod_cases4)
  with assms read_block_spec [OF rb] show ?thesis
    by (auto simp: xcb_in_read_block_def Let_def instream_def xcb_conn_shutdown_def split: if_splits)
qed

lemma packet_length_prefix:
  "32 \<le> length q \<Longrightarrow> get_genrep (q @ x) = get_genrep q \<and> packet_length g pend (q @ x) = packet_length g pend q"
  by (cases "q = []") (simp_all add: get_genrep_def packet_length_def nth_append split: option.split)

text \<open>A packet that is not an event is an answer: only replies and errors belong to a pending reply.\<close>

lemma not_event_answer:
  "packet_route g pend \<noteq> ToEvent \<Longrightarrow> pend = packet_pend g i \<Longrightarrow> response_type g \<in> {XCB_REPLY, XCB_ERROR} \<and> xge_length g = 0"
  by (auto simp: packet_route_def packet_pend_def pend_has_def xge_length_def packet_consts split: if_splits)

lemma in_order_packet_True:
  assumes rp: "read_packet c w = Some (True, c', w')" and inv: "in_order q H E S c w"
  shows "in_order q H E S c' w'"
proof -
  define g where g: "g = get_genrep (in_queue (c_in c))"
  obtain c1 w1 where ts: "track_sequence g c w = (c1, w1)" by (cases "track_sequence g c w")
  define pend where pend: "pend = packet_pend g (c_in c1)"
  define len where len: "len = packet_length g pend (in_queue (c_in c))"
  from rp g ts pend len obtain buf ext qu w2 where r:
    "32 \<le> length (in_queue (c_in c))" "0 < sint len" "0 \<le> sint (xge_length g)"
    "length buf = nat (sint len)" "length ext = nat (sint (xge_length g))"
    "instream c w = buf @ ext @ instream c' w'"
    and fin: "case packet_route g pend of
           Dropped \<Rightarrow> c' = set_queue qu c1 \<and> w' = w2
         | ToReply \<Rightarrow> c' = add_reply (make_packet g (request_read (c_in c1)) buf ext) (set_queue qu c1)
             \<and> w' = signal_reader (request_read (c_in c1)) (readers (c_in c1)) w2
         | ToEvent \<Rightarrow> c' = add_event (make_packet g (request_read (c_in c1)) buf ext) (set_queue qu c1)
             \<and> w' = os_signal EventCond w2"
    by (rule read_packet_True)
  let ?p = "make_packet g (request_read (c_in c1)) buf ext"
  from r(6) have pre: "in_queue (c_in c) @ recv_bytes (os_recvs w) = buf @ ext @ instream c' w'"
    by (simp add: instream_def)
  note event = made_packet_typed(2) [OF r(1) g pre r(4) [unfolded len] r(2) [unfolded len] r(5) r(3)]
  have others: "os_others w' = os_others w" and err: "has_error c \<longrightarrow> has_error c'"
    using reads_only_read_packet [OF rp] by (simp_all add: reads_only_def)
  show ?thesis
  proof (cases "packet_route g pend = ToEvent")
    case True
    with fin track_sequence_frame(2) [OF ts] have "events (c_in c') = events (c_in c) @ [?p]"
      by (simp add: add_event_def)
    moreover have "instream c w = contents ?p @ xge_data ?p @ instream c' w'" using r(6) by (simp add: make_packet_def)
    ultimately show ?thesis by (rule in_order_draw [OF inv _ others _ event [OF True] err])
  next
    case False
    with fin track_sequence_frame(2) [OF ts] have ev: "events (c_in c') = events (c_in c)"
      by (cases "packet_route g pend") (simp_all add: add_reply_def)
    from not_event_answer [OF False pend] r(5) have "response_type g \<in> {XCB_REPLY, XCB_ERROR}" "ext = []" by simp_all
    moreover have "buf @ instream c' w' = in_queue (c_in c) @ recv_bytes (os_recvs w)" using pre \<open>ext = []\<close> by simp
    ultimately have "answer_length (buf @ instream c' w') (length buf)" and "instream c w = buf @ instream c' w'"
      using r packet_length_prefix [OF r(1)] by (auto simp: answer_length_def g len)
    then show ?thesis using in_order_answer [OF inv ev _ others err] by blast
  qed
qed

text \<open>
  When a packet is not read, bytes may have been used up, but then the connection is in error; without an error
  the packet stays in the queue.
\<close>

lemma read_packet_False_stream:
  assumes rp: "read_packet c w = Some (False, c', w')"
  shows "\<exists>other. instream c w = other @ instream c' w' \<and> events (c_in c') = events (c_in c) \<and> (has_error c' \<or> other = [])"
proof (cases "length (in_queue (c_in c)) < 32")
  case True
  with assms show ?thesis by (simp add: read_packet_def)
next
  case False
  define g where g: "g = get_genrep (in_queue (c_in c))"
  obtain c1 w1 where ts: "track_sequence g c w = (c1, w1)" by (cases "track_sequence g c w")
  define pend where pend: "pend = packet_pend g (c_in c1)"
  define len where len: "len = packet_length g pend (in_queue (c_in c))"
  let ?sz = "scast (len + xge_length g) + (if response_type g = XCB_REPLY then 0 else 4) :: u64"
  obtain ok w2 where ml: "malloc_size ?sz w1 = (ok, w2)" by (cases "malloc_size ?sz w1")
  note unf = read_packet_def Let_def g [symmetric] ts pend [symmetric] len [symmetric] ml bind_eq_Some_conv2
  have same: "instream c1 w2 = instream c w" "events (c_in c1) = events (c_in c)"
    using track_sequence_frame [OF ts] malloc_size_frame [OF ml] by (simp_all add: instream_def)
  show ?thesis
  proof (cases ok)
    case False
    with rp same \<open>\<not> length (in_queue (c_in c)) < 32\<close> show ?thesis by (auto simp: unf xcb_conn_shutdown_def instream_def)
  next
    case True
    note long = \<open>\<not> length (in_queue (c_in c)) < 32\<close>
    from rp True long obtain ret1 buf c2 w3 where rb: "xcb_in_read_block (sint len) c1 w2 = Some (ret1, buf, c2, w3)"
      by (auto simp: unf split: if_splits)
    note first = read_block_stream [OF rb] same
    show ?thesis
    proof (cases "ret1 \<le> 0")
      case stop: True
      with rp True long rb have "c' = c2" "w' = w3" by (auto simp: unf split: if_splits)
      with first xcb_in_read_block_failed [OF rb stop] show ?thesis by (intro exI [of _ buf]) auto
    next
      case go: False
      let ?second = "if xge_length g \<noteq> 0 then xcb_in_read_block (sint (xge_length g)) c2 w3 else Some (1, [], c2, w3)"
      from rp True long rb go obtain ret2 ext c3 w4 where rb2: "?second = Some (ret2, ext, c3, w4)"
        by (auto simp: unf split: if_splits)
      have second: "instream c2 w3 = ext @ instream c3 w4 \<and> events (c_in c3) = events (c_in c2)"
        using rb2 read_block_stream by (cases "xge_length g = 0") auto
      have "has_error c' \<and> instream c' w' = instream c3 w4 \<and> events (c_in c') = events (c_in c3)"
      proof (cases "ret2 \<le> 0")
        case le: True
        with rb2 have ev: "xge_length g \<noteq> 0" by auto
        with rb2 have rb3: "xcb_in_read_block (sint (xge_length g)) c2 w3 = Some (ret2, ext, c3, w4)" by simp
        have "c' = c3" "w' = w4" using rp True long rb go rb3 ev le by (auto simp: unf split: if_splits)
        with xcb_in_read_block_failed [OF rb3 le] ev show ?thesis by (auto simp: sint_eq_0)
      next
        case False
        with rp True long rb go rb2 show ?thesis
          by (auto simp: unf deliver_reply_def deliver_event_def xcb_conn_shutdown_def instream_def
              dest: malloc_ok_frame split: if_splits route.splits prod.splits)
      qed
      with first second show ?thesis by (intro exI [of _ "buf @ ext"]) simp
    qed
  qed
qed

lemma in_order_packet:
  assumes rp: "read_packet c w = Some (b, c', w')" and inv: "in_order q H E S c w"
  shows "in_order q H E S c' w'"
proof (cases b)
  case True
  with assms show ?thesis by (auto intro: in_order_packet_True)
next
  case False
  have ro: "os_others w' = os_others w" "has_error c \<longrightarrow> has_error c'"
    using reads_only_read_packet [OF rp] by (simp_all add: reads_only_def)
  from rp False have "read_packet c w = Some (False, c', w')" by simp
  from read_packet_False_stream [OF this] obtain other where "instream c w = other @ instream c' w'" "events (c_in c') = events (c_in c)"
    "has_error c' \<or> other = []"
    by blast
  with ro inv show ?thesis by (auto intro: in_order_skip)
qed

section \<open>All operations\<close>

lemma in_order_frame:
  "in_order q H E S c w \<Longrightarrow> stores c' = stores c \<Longrightarrow> os_others w' = os_others w \<Longrightarrow> os_recvs w' = os_recvs w
     \<Longrightarrow> in_order q H E S c' w'"
  by (simp add: in_order_def stores_def instream_def)

lemma in_order_learn [simp]:
  "in_order q H E S c (assign_global_id ext w) = in_order q H E S c w"
  "in_order q H E S (c\<lparr>extensions := xs\<rparr>) w = in_order q H E S c w"
  "in_order q H E S (set_lazyreply i v c) w = in_order q H E S c w"
  "in_order q H E S (set_length t m c) w = in_order q H E S c w"
  by (simp_all add: in_order_def instream_def assign_global_id_def set_lazyreply_def)

lemma in_order_turn: "in_order q H E S c w \<Longrightarrow> os_others w = f # fs \<Longrightarrow> in_order q H E S (f c) (w\<lparr>os_others := fs\<rparr>)"
  by (auto simp: in_order_def leaves_input_def instream_def)

lemma in_order_fail: "in_order q H E S c w \<Longrightarrow> in_order q H E S (xcb_conn_shutdown c) w"
  by (auto simp: in_order_def xcb_conn_shutdown_def instream_def)

lemma os_recv_bytes: "os_recv room rs = (n, rs') \<Longrightarrow> \<forall>bs. n \<noteq> Got bs \<Longrightarrow> recv_bytes rs' = recv_bytes rs"
  by (induction room rs rule: os_recv.induct) (auto split: if_splits)

lemma in_order_receive:
  assumes rcv: "os_recv (IN_QUEUE_SIZE - length (in_queue (c_in c))) (os_recvs w) = (n, rs)" and inv: "in_order q H E S c w"
  shows "in_order q H E S (case n of Got bs \<Rightarrow> set_queue (in_queue (c_in c) @ bs) c | _ \<Rightarrow> c) (w\<lparr>os_recvs := rs\<rparr>)"
proof (cases "\<exists>bs. n = Got bs")
  case True
  then obtain bs where n: "n = Got bs" ..
  with os_recv_Got rcv have "recv_bytes (os_recvs w) = bs @ recv_bytes rs" by blast
  with inv n show ?thesis by (simp add: in_order_def instream_def)
next
  case False
  with os_recv_bytes [OF rcv] inv show ?thesis by (cases n) (simp_all add: in_order_def instream_def)
qed

lemma in_order_set_out_queue: "in_order q H E S c w \<Longrightarrow> in_order q H E S (set_out_queue bs c) w"
  by (simp add: in_order_def instream_def set_out_queue_def)

lemma in_order_reply: "poll_for_reply k e c w = (r, c', w') \<Longrightarrow> in_order q H E S c w \<Longrightarrow> in_order q H E S c' w'"
  by (subst in_order_cong [where c = c and w = w])
    (auto simp: poll_for_reply_def reply_head_def instream_def Let_def dest: malloc_ok_frame
      split: option.split_asm if_split_asm prod.split_asm list.split_asm)

lemma in_order_discard: "discard_reply k c w = (c', w') \<Longrightarrow> in_order q H E S c w \<Longrightarrow> in_order q H E S c' w'"
  by (rule in_order_skip [where other = "[]" and c = c and w = w])
    (auto simp: discard_reply_def insert_pending_discard_def instream_def Let_def xcb_conn_shutdown_def dest: malloc_ok_frame
      split: option.split_asm if_split_asm prod.split_asm list.split_asm)

interpretation ev: kept "in_order q H E S" "\<lambda>k r. True" for q H E S
  by unfold_locales (erule (3) in_order_frame, fact in_order_turn, fact in_order_fail, fact in_order_receive, erule in_order_set_out_queue,
    fact in_order_packet, auto intro: in_order_reply in_order_discard)

text \<open>The client takes an event: it moves from the queue to what the client has got.\<close>

fun got_event :: "api_result \<Rightarrow> packet list" where
  "got_event (Event (Some p)) = [p]"
| "got_event _ = []"

lemma in_order_get_event:
  "get_event c = (e, c') \<Longrightarrow> in_order q H E S c w \<Longrightarrow> in_order q (H @ got_event (Event e)) E S c' w"
  by (auto simp: get_event_def in_order_def instream_def split: list.split_asm)

lemma in_order_from_queue: "from_queue (in_order q H E S) e c w \<Longrightarrow> in_order q (H @ got_event (Event e)) E S c w"
  by (auto simp: from_queue_def dest: in_order_get_event)

lemmas in_order_wait_for_event = ev.keep_wait_for_event [THEN in_order_from_queue]
  and in_order_poll_for_event = ev.keep_poll_for_event [THEN in_order_from_queue]

text \<open>The functions generated from the protocol keep the order as the functions of the library do.\<close>

definition gen_in_order :: "generated \<Rightarrow> bool" where
  "gen_in_order gen \<longleftrightarrow> (\<forall>H E S. gen_preserves (in_order False H E S) gen)"

definition gen_complete :: "generated \<Rightarrow> bool" where
  "gen_complete gen \<longleftrightarrow> (\<forall>H E S. gen_preserves (in_order True H E S) gen)"

lemma perform_in_order:
  assumes pf: "perform gen k c w = Some (r, c', w')" and gen: "\<forall>H E S. gen_preserves (in_order q H E S) gen" and inv: "in_order q H E S c w"
  shows "in_order q (H @ got_event r) E S c' w'"
proof (cases "k = Call_wait_for_event \<or> k = Call_poll_for_event")
  case True
  with pf inv show ?thesis
    by (auto simp: bind_eq_Some_conv2 dest: in_order_wait_for_event in_order_poll_for_event)
next
  case False
  have "gen_preserves (in_order q H E S) gen" using gen by blast
  from ev.keep_perform [OF pf this inv] False have "in_order q H E S c' w'" and "\<forall>e. r \<noteq> Event e" by auto
  then show ?thesis by (cases r) simp_all
qed

lemma perform_all_in_order:
  assumes gen: "\<forall>H E S. gen_preserves (in_order q H E S) gen"
  shows "perform_all gen ks c w = Some (rs, c', w') \<Longrightarrow> in_order q H E S c w \<Longrightarrow> in_order q (H @ concat (map got_event rs)) E S c' w'"
proof (induction ks arbitrary: c w rs H)
  case (Cons k ks)
  from Cons.prems(1) obtain r c1 w1 rs1 where 1: "perform gen k c w = Some (r, c1, w1)"
    "perform_all gen ks c1 w1 = Some (rs1, c', w')" "rs = r # rs1"
    by (auto simp: bind_eq_Some_conv2)
  from Cons.IH [OF 1(2) perform_in_order [OF 1(1) gen Cons.prems(2)]] 1(3) show ?case by simp
qed simp

text \<open>
  C9: Events reach the client whole, in order, once each. Take any sequence of public calls, with any arguments,
  under any behaviour of the kernel. The events the calls returned, followed by those still in the event
  queue, are the events queued before, followed by events that stand in the bytes the server has sent, in the order in which
  they stand there, without overlapping, each with its extra data, and before all bytes that are not read yet: none is
  returned twice, none is made up, and none overtakes another. Other threads may act on the connection in between as
  long as they do not read.
\<close>

theorem client_gets_events_in_order:
  assumes "\<forall>f \<in> set (os_others w). leaves_input f" and "gen_in_order gen" and "perform_all gen ks c w = Some (rs, c', w')"
  shows "\<exists>new. concat (map got_event rs) @ events (c_in c') = events (c_in c) @ new
           \<and> drawn (instream c w) new (instream c' w')"
proof -
  have "in_order False [] (events (c_in c)) (instream c w) c w" using assms(1) by (simp add: in_order_start)
  from perform_all_in_order [OF assms(2) [unfolded gen_in_order_def] assms(3) this] show ?thesis by (auto simp: in_order_def)
qed

text \<open>Witness: the server sends two events in one piece, and the client polls for them one after the other.\<close>

lemma sample_gen_in_order: "gen_in_order sample_gen" and sample_gen_complete: "gen_complete sample_gen"
  by (simp_all add: gen_in_order_def gen_complete_def gen_preserves_def preserves_def sample_gen_def)

definition events_os :: os where
  "events_os = quiet_os\<lparr>os_recvs := [RData (packet32 2 0 0 @ packet32 3 0 0), RAgain]\<rparr>"

abbreviation "an_event t \<equiv> \<lparr>contents = packet32 t 0 0, full_sequence = Some 0, xge_data = []\<rparr>"

lemma poll_events_run:
  "\<exists>c' w'. perform_all sample_gen [Call_poll_for_event, Call_poll_for_event] zero_conn events_os
     = Some ([Event (Some (an_event 2)), Event (Some (an_event 3))], c', w') \<and> events (c_in c') = []"
proof -
  have "packet32 2 0 0 \<noteq> []" by (simp add: packet32_def)
  then show ?thesis
    by (simp add: xcb_poll_for_event_def get_event_def xcb_in_read_def read_packets.simps read_packet_def Let_def
        track_sequence_def widen_sequence_def XCB_SEQUENCE_COMPARE_def packet_consts packet_pend_def current_pend_def
        packet_length_def xge_length_def malloc_size_def malloc_ok_def xcb_in_read_block_def packet_route_def
        IN_QUEUE_SIZE_def pend_has_def flag_consts deliver_event_def make_packet_def os_signal_def events_os_def zero_defs)
qed

theorem client_gets_events_in_order_witness:
  "\<exists>c' w'. perform_all sample_gen [Call_poll_for_event, Call_poll_for_event] zero_conn events_os
       = Some ([Event (Some (an_event 2)), Event (Some (an_event 3))], c', w')
     \<and> drawn (packet32 2 0 0 @ packet32 3 0 0) [an_event 2, an_event 3] (instream c' w')"
proof -
  obtain c' w' where run: "perform_all sample_gen [Call_poll_for_event, Call_poll_for_event] zero_conn events_os
      = Some ([Event (Some (an_event 2)), Event (Some (an_event 3))], c', w')" and none: "events (c_in c') = []"
    using poll_events_run by blast
  have "\<forall>f \<in> set (os_others events_os). leaves_input f" by (simp add: events_os_def zero_defs)
  from client_gets_events_in_order [OF this sample_gen_in_order run] run none show ?thesis
    by (simp add: instream_def events_os_def zero_defs del: perform_all.simps)
qed

end
