(* ===== verification/XcbLearnt.thy ===== *)
theory XcbLearnt
  imports XcbApi
begin

text \<open>
  What the library learns about the server and keeps: the data of extensions (\<open>xcb_ext.c\<close>) and the maximum
  request length (\<open>xcb_out.c\<close>). Both are asked for once and stored with a tag that only moves forward, from
  not asked over asked to answered. This theory shows it over all calls of the public interface, by a
  third use of the contract of \<open>XcbKept\<close>.
\<close>

section \<open>Knowledge\<close>

text \<open>\<open>knows c c'\<close>: the connection \<open>c'\<close> has learnt at least what \<open>c\<close> has, and has not changed its mind.\<close>

definition knows :: "xcb_connection_t \<Rightarrow> xcb_connection_t \<Rightarrow> bool" where
  "knows c c' \<longleftrightarrow> maximum_request_length_tag (c_out c) \<le> maximum_request_length_tag (c_out c')
     \<and> (maximum_request_length_tag (c_out c) = LAZY_FORCED \<longrightarrow> maximum_request_length (c_out c') = maximum_request_length (c_out c))
     \<and> length (extensions c) \<le> length (extensions c')
     \<and> (\<forall>i < length (extensions c). \<forall>r. extensions c ! i = Lazy_Forced r \<longrightarrow> extensions c' ! i = Lazy_Forced r)"

lemma knows_refl [simp]: "knows c c"
  by (simp add: knows_def)

lemma knows_trans [trans]: "knows c c1 \<Longrightarrow> knows c1 c2 \<Longrightarrow> knows c c2"
  unfolding knows_def by (metis order.trans order_less_le_trans tag_order(3))

lemma knows_same:
  "extensions c' = extensions c \<Longrightarrow> maximum_request_length_tag (c_out c') = maximum_request_length_tag (c_out c)
     \<Longrightarrow> maximum_request_length (c_out c') = maximum_request_length (c_out c) \<Longrightarrow> knows c0 c' = knows c0 c"
  by (simp add: knows_def)

text \<open>
  The same with the process wide numbers of extensions, which are never changed once given. Other threads
  use the same library, so they keep what is known.
\<close>

definition keeps_knowledge :: "(xcb_connection_t \<Rightarrow> xcb_connection_t) \<Rightarrow> bool" where
  "keeps_knowledge f \<longleftrightarrow> (\<forall>c. knows c (f c))"

definition told :: "xcb_connection_t \<Rightarrow> os \<Rightarrow> xcb_connection_t \<Rightarrow> os \<Rightarrow> bool" where
  "told c0 w0 c w \<longleftrightarrow> (\<forall>f \<in> set (os_others w). keeps_knowledge f) \<and> knows c0 c
     \<and> (\<forall>a. os_global_id w0 a \<noteq> 0 \<longrightarrow> os_global_id w a = os_global_id w0 a)"

lemma told_here: "told c0 w0 c w \<Longrightarrow> told c w c w"
  by (simp add: told_def)

lemma told_cong:
  "told c0 w0 c w \<Longrightarrow> knows c c' \<Longrightarrow> os_others w' = os_others w \<Longrightarrow> os_global_id w' = os_global_id w \<Longrightarrow> told c0 w0 c' w'"
  by (auto simp: told_def intro: knows_trans)

section \<open>All operations keep what is known\<close>

lemma told_frame:
  "told c0 w0 c w \<Longrightarrow> stores c' = stores c \<Longrightarrow> os_others w' = os_others w \<Longrightarrow> os_global_id w' = os_global_id w
     \<Longrightarrow> told c0 w0 c' w'"
  by (simp add: told_def stores_def knows_same [of c' c])

lemma told_turn: "told c0 w0 c w \<Longrightarrow> os_others w = f # fs \<Longrightarrow> told c0 w0 (f c) (w\<lparr>os_others := fs\<rparr>)"
  by (auto simp: told_def keeps_knowledge_def intro: knows_trans)

lemma told_set_queue [simp]: "told c0 w0 (set_queue q c) w = told c0 w0 c w"
  "told c0 w0 (set_out_queue q c) w = told c0 w0 c w" "told c0 w0 c (w\<lparr>os_recvs := rs\<rparr>) = told c0 w0 c w"
  by (simp_all add: told_def knows_def set_out_queue_def)

lemma told_reads_only: "reads_only c w c' w' \<Longrightarrow> told c0 w0 c w \<Longrightarrow> told c0 w0 c' w'"
  by (simp add: told_def reads_only_def knows_same [of c' c])

lemma told_reply: "poll_for_reply k e c w = (r, c', w') \<Longrightarrow> told c0 w0 c w \<Longrightarrow> told c0 w0 c' w'"
  by (erule told_cong)
    (auto simp: poll_for_reply_def reply_head_def knows_def Let_def dest: malloc_ok_frame malloc_ids
      split: option.split_asm if_split_asm prod.split_asm list.split_asm)

lemma told_discard: "discard_reply k c w = (c', w') \<Longrightarrow> told c0 w0 c w \<Longrightarrow> told c0 w0 c' w'"
  by (erule told_cong)
    (auto simp: discard_reply_def insert_pending_discard_def knows_def Let_def xcb_conn_shutdown_def dest: malloc_ok_frame malloc_ids
      split: option.split_asm if_split_asm prod.split_asm list.split_asm)

lemma told_shutdown: "told c0 w0 c w \<Longrightarrow> told c0 w0 (xcb_conn_shutdown c) w"
  by (erule told_cong) (auto simp: knows_def xcb_conn_shutdown_def)

lemma told_name: "told c0 w0 c w \<Longrightarrow> told c0 w0 c (assign_global_id ext w)"
  by (auto simp: told_def assign_global_id_def)

lemma told_grow: "told c0 w0 c w \<Longrightarrow> told c0 w0 (c\<lparr>extensions := extensions c @ replicate sz Lazy_None\<rparr>) w"
  by (erule told_cong) (auto simp: knows_def nth_append)

lemma told_learn_extension:
  assumes "told c0 w0 c w" and "\<forall>r. extensions c ! i \<noteq> Lazy_Forced r" and "told c0 w0 c' w'"
  shows "told c0 w0 (set_lazyreply i v c') w'"
proof -
  have "j \<noteq> i" if "j < length (extensions c0)" "extensions c0 ! j = Lazy_Forced r" for j r
    using assms(1,2) that by (auto simp: told_def knows_def)
  with assms(3) show ?thesis by (simp add: told_def knows_def set_lazyreply_def) (metis nth_list_update_neq)
qed

lemma told_learn_length:
  "told c0 w0 c w \<Longrightarrow> maximum_request_length_tag (c_out c) \<noteq> LAZY_FORCED \<Longrightarrow> maximum_request_length_tag (c_out c) \<le> t
     \<Longrightarrow> told c0 w0 c' w' \<Longrightarrow> told c0 w0 (set_length t m c') w'"
  by (auto simp: told_def knows_def)

interpretation kn: kept "told c0 w0" "\<lambda>k r. True" for c0 w0
proof
  show "told c0 w0 (case n of Got bs \<Rightarrow> set_queue (in_queue (c_in c) @ bs) c | _ \<Rightarrow> c) (w\<lparr>os_recvs := rs\<rparr>)"
    if "told c0 w0 c w" for c w n rs
    using that by (cases n) simp_all
qed (auto simp: told_shutdown intro: told_frame told_turn told_name told_grow told_learn_extension told_learn_length told_reply told_discard
    told_reads_only [OF reads_only_read_packet])

section \<open>The calls that ask\<close>

text \<open>The functions generated from the protocol send requests and wait for replies, which keeps what is known.\<close>

definition gen_learns :: "generated \<Rightarrow> bool" where
  "gen_learns gen \<longleftrightarrow> (\<forall>c0 w0. gen_preserves (told c0 w0) gen)"

lemma gen_learnsD: "gen_learns gen \<Longrightarrow> gen_preserves (told c0 w0) gen"
  by (simp add: gen_learns_def)

text \<open>The entry of an extension, and when it holds an answer.\<close>

definition answered :: "xcb_extension_t \<Rightarrow> xcb_query_extension_reply_t option \<Rightarrow> xcb_connection_t \<Rightarrow> os \<Rightarrow> bool" where
  "answered ext r c w \<longleftrightarrow> (let n = os_global_id w (ext_addr ext)
     in n \<noteq> 0 \<and> n \<le> length (extensions c) \<and> extensions c ! (n - 1) = Lazy_Forced r)"

lemma answered_told: "answered ext r c0 w0 \<Longrightarrow> told c0 w0 c w \<Longrightarrow> answered ext r c w"
  by (auto simp: answered_def told_def knows_def Let_def)

lemma answered_again:
  "answered ext r c w \<Longrightarrow> \<not> has_error c \<Longrightarrow> xcb_get_extension_data gen ext c w = Some (r, c, w)"
  by (auto simp: answered_def xcb_get_extension_data_def get_lazyreply_def assign_global_id_def get_index_def cached_reply_def Let_def)

lemma lazyreply_place:
  assumes gl: "get_lazyreply gen ext c w = Some (Some i, c', w')" and gen: "gen_learns gen" and inv: "told c w c w"
  shows "os_global_id w' (ext_addr ext) = i + 1 \<and> i < length (extensions c') \<and> told c w c' w'"
proof -
  let ?a = "ext_addr ext" and ?w = "assign_global_id ext w"
  have n0: "os_global_id ?w ?a \<noteq> 0" by (simp add: assign_global_id_def)
  obtain d c1 w1 where ix: "get_index (os_global_id ?w ?a) c ?w = (d, c1, w1)" by (metis prod_cases3)
  with gl have d: "d = Some i" by (auto simp: get_lazyreply_def Let_def bind_eq_Some_conv2 split: option.split_asm if_split_asm)
  with ix n0 have at: "os_global_id ?w ?a = i + 1" "i < length (extensions c1)" "os_global_id w1 ?a = os_global_id ?w ?a"
    by (auto simp: get_index_def Let_def dest: malloc_ids split: if_split_asm prod.split_asm)
  have t1: "told c w c1 w1" by (rule kn.keep_get_index [OF ix told_name [OF inv]])
  show ?thesis
  proof (cases "extensions c1 ! i = Lazy_None")
    case False
    with gl ix d at t1 show ?thesis by (auto simp: get_lazyreply_def Let_def)
  next
    case True
    with gl ix d obtain k c2 where k: "xcb_query_extension gen (ext_name ext) c1 w1 = Some (k, c2, w')"
      "c' = set_lazyreply i (Lazy_Cookie k) c2"
      by (auto simp: get_lazyreply_def Let_def bind_eq_Some_conv2)
    have "told c1 w1 c2 w'" using kn.keep_generated(1) [OF k(1) gen_learnsD [OF gen] told_here [OF t1]] .
    with at k(2) kn.keep_lazyreply [OF gl gen_learnsD [OF gen] inv] show ?thesis
      by (auto simp: told_def knows_def set_lazyreply_def)
  qed
qed

lemma extension_answered:
  assumes ed: "xcb_get_extension_data gen ext c w = Some (Some r, c', w')" and gen: "gen_learns gen" and inv: "told c w c w"
  shows "\<not> has_error c \<and> answered ext (Some r) c' w'"
proof -
  have ok: "\<not> has_error c" using ed by (auto simp: xcb_get_extension_data_def)
  with ed obtain i c1 w1 where gl: "get_lazyreply gen ext c w = Some (Some i, c1, w1)"
    by (auto simp: xcb_get_extension_data_def bind_eq_Some_conv2 split: option.split_asm)
  from lazyreply_place [OF this gen inv] have at: "os_global_id w1 (ext_addr ext) = i + 1" "i < length (extensions c1)"
    and t1: "told c1 w1 c1 w1" by (auto intro: told_here)
  show ?thesis
  proof (cases "extensions c1 ! i")
    case (Lazy_Cookie k)
    with ed ok gl obtain c2 where k: "xcb_query_extension_reply gen k c1 w1 = Some (Some r, c2, w')"
      "c' = set_lazyreply i (Lazy_Forced (Some r)) c2"
      by (auto simp: xcb_get_extension_data_def bind_eq_Some_conv2)
    have "told c1 w1 c2 w'" using kn.keep_generated(2) [OF k(1) gen_learnsD [OF gen] t1] .
    with at k(2) ok show ?thesis by (auto simp: told_def knows_def answered_def set_lazyreply_def)
  qed (use ed ok gl at in \<open>auto simp: xcb_get_extension_data_def cached_reply_def answered_def\<close>)
qed

lemma prefetch_asks:
  assumes pl: "xcb_prefetch_maximum_request_length gen c w = Some (c', w')" and gen: "gen_learns gen"
    and inv: "told c w c w" and ok: "\<not> has_error c"
  shows "maximum_request_length_tag (c_out c') \<noteq> LAZY_NONE"
proof (cases "maximum_request_length_tag (c_out c) = LAZY_NONE")
  case False
  with pl ok show ?thesis by (simp add: xcb_prefetch_maximum_request_length_def)
next
  case True
  from pl ok True obtain x c1 w1 where ed: "xcb_get_extension_data gen (xcb_big_requests_id gen) c w = Some (x, c1, w1)"
    by (auto simp: xcb_prefetch_maximum_request_length_def bind_eq_Some_conv2)
  let ?c = "c1\<lparr>c_out := (c_out c1)\<lparr>maximum_request_length_tag := LAZY_COOKIE\<rparr>\<rparr>"
  have here: "told ?c w1 ?c w1" using kn.keep_extension_data [OF ed gen_learnsD [OF gen] inv] by (simp add: told_def)
  have "LAZY_COOKIE \<le> maximum_request_length_tag (c_out c2)" if "xcb_big_requests_enable gen ?c w1 = Some (k, c2, w2)" for k c2 w2
    using kn.keep_generated(3) [OF that gen_learnsD [OF gen] here] by (simp add: told_def knows_def)
  then have "maximum_request_length_tag (c_out c2) \<noteq> LAZY_NONE" if "xcb_big_requests_enable gen ?c w1 = Some (k, c2, w2)" for k c2 w2
    using that by (fastforce simp: less_eq_lazy_reply_tag_def)
  with pl ok True ed show ?thesis
    by (auto simp: xcb_prefetch_maximum_request_length_def Let_def bind_eq_Some_conv2 split: option.split_asm if_split_asm)
qed

lemma length_answered:
  assumes ml: "xcb_get_maximum_request_length gen c w = Some (m, c', w')" and gen: "gen_learns gen"
    and inv: "told c w c w" and ok: "\<not> has_error c"
  shows "maximum_request_length_tag (c_out c') = LAZY_FORCED \<and> maximum_request_length (c_out c') = m"
proof -
  from ml ok obtain c1 w1 where pl: "xcb_prefetch_maximum_request_length gen c w = Some (c1, w1)"
    by (auto simp: xcb_get_maximum_request_length_def bind_eq_Some_conv2)
  from prefetch_asks [OF this gen inv ok] ml ok pl show ?thesis
    by (cases "maximum_request_length_tag (c_out c1)") (auto simp: xcb_get_maximum_request_length_def bind_eq_Some_conv2)
qed

lemma length_again:
  "maximum_request_length_tag (c_out c) = LAZY_FORCED \<Longrightarrow> \<not> has_error c
     \<Longrightarrow> xcb_get_maximum_request_length gen c w = Some (maximum_request_length (c_out c), c, w)"
  by (simp add: xcb_get_maximum_request_length_def xcb_prefetch_maximum_request_length_def)

lemma length_recalled:
  "xcb_get_maximum_request_length gen c w = Some (m, c1, w1) \<Longrightarrow> gen_learns gen \<Longrightarrow> told c w c w \<Longrightarrow> \<not> has_error c
     \<Longrightarrow> told c1 w1 c2 w2 \<Longrightarrow> \<not> has_error c2 \<Longrightarrow> xcb_get_maximum_request_length gen c2 w2 = Some (m, c2, w2)"
  using length_answered [of gen c w m c1 w1] length_again [of c2 gen w2] by (simp add: told_def knows_def)

section \<open>Over all calls\<close>

lemma told_get_event: "get_event c = (e, c') \<Longrightarrow> told c0 w0 c w \<Longrightarrow> told c0 w0 c' w"
  by (auto simp: get_event_def told_def knows_def split: list.split_asm)

lemma told_from_queue: "from_queue (told c0 w0) e c w \<Longrightarrow> told c0 w0 c w"
  by (auto simp: from_queue_def dest: told_get_event)

lemma perform_told:
  assumes pf: "perform gen k c w = Some (r, c', w')" and gen: "gen_learns gen" and inv: "told c0 w0 c w"
  shows "told c0 w0 c' w'"
proof (cases "k = Call_wait_for_event \<or> k = Call_poll_for_event")
  case True
  with pf inv show ?thesis
    by (auto simp: bind_eq_Some_conv2 dest: kn.keep_wait_for_event [THEN told_from_queue] kn.keep_poll_for_event [THEN told_from_queue])
next
  case False
  with kn.keep_perform [OF pf gen_learnsD [OF gen] inv] show ?thesis by blast
qed

lemma perform_all_told:
  assumes gen: "gen_learns gen"
  shows "perform_all gen ks c w = Some (rs, c', w') \<Longrightarrow> told c0 w0 c w \<Longrightarrow> told c0 w0 c' w'"
proof (induction ks arbitrary: c w rs)
  case (Cons k ks)
  from Cons.prems(1) obtain r c1 w1 rs1 where 1: "perform gen k c w = Some (r, c1, w1)"
    "perform_all gen ks c1 w1 = Some (rs1, c', w')"
    by (auto simp: bind_eq_Some_conv2)
  from Cons.IH [OF 1(2) perform_told [OF 1(1) gen Cons.prems(2)]] show ?case .
qed simp

text \<open>
  C29: What the server has answered is asked once. After \<open>xcb_get_maximum_request_length\<close> has returned a length, or
  \<open>xcb_get_extension_data\<close> the data of an extension, and after any further calls of the public interface, the
  same call returns the same value again, at once and without any effect: it sends nothing, reads nothing and
  changes neither the connection nor the outside world, as long as the connection is not in error. Other threads
  may use the library on the connection in between.
\<close>

theorem answers_stay:
  assumes others: "\<forall>f \<in> set (os_others w). keeps_knowledge f" and gen: "gen_learns gen"
    and first: "perform gen k c w = Some (r, c1, w1)"
    and k: "k = Call_get_maximum_request_length \<or> (\<exists>ext. k = Call_get_extension_data ext) \<and> r \<noteq> Extension None"
    and more: "perform_all gen ks c1 w1 = Some (rs, c2, w2)" and ok: "\<not> has_error c2"
  shows "perform gen k c2 w2 = Some (r, c2, w2)"
proof -
  have inv: "told c w c w" using others by (simp add: told_def)
  have t2: "told c1 w1 c2 w2" using perform_all_told [OF gen more] perform_told [OF first gen inv] by (blast intro: told_here)
  have "\<not> has_error c"
    using perform_dead [of c gen k w] perform_all_dead [of c gen ks w] first more ok by auto
  with first inv gen t2 ok have "k = Call_get_maximum_request_length \<Longrightarrow> ?thesis"
    by (auto simp: bind_eq_Some_conv2 intro: length_recalled)
  moreover from first inv gen t2 ok have "?thesis" if "k = Call_get_extension_data ext" "r \<noteq> Extension None" for ext
    using that by (auto simp: bind_eq_Some_conv2 dest!: extension_answered intro: answered_again [OF answered_told [OF _ t2]])
  ultimately show ?thesis using k by blast
qed

text \<open>Witness: the length is asked for, then the data of an extension, then the length again.\<close>

abbreviation "randr \<equiv> \<lparr>ext_name = ''RANDR'', ext_addr = 3\<rparr>"

lemma sample_gen_learns: "gen_learns sample_gen"
  by (simp add: gen_learns_def gen_preserves_def preserves_def sample_gen_def)

lemma learnt_run:
  "\<exists>c1 w1 x c2 w2. perform sample_gen Call_get_maximum_request_length sample_conn quiet_os = Some (Number 4194303, c1, w1)
     \<and> perform_all sample_gen [Call_get_extension_data randr] c1 w1 = Some ([Extension x], c2, w2) \<and> \<not> has_error c2"
  by (simp add: xcb_get_maximum_request_length_def xcb_prefetch_maximum_request_length_def xcb_get_extension_data_def
      get_lazyreply_def assign_global_id_def get_index_def set_lazyreply_def malloc_ok_def sample_gen_def sample_conn_def zero_defs
      Let_def numeral_2_eq_2)

theorem answers_stay_witness:
  "\<exists>c1 w1 x c2 w2. perform sample_gen Call_get_maximum_request_length sample_conn quiet_os = Some (Number 4194303, c1, w1)
     \<and> perform_all sample_gen [Call_get_extension_data randr] c1 w1 = Some ([Extension x], c2, w2)
     \<and> perform sample_gen Call_get_maximum_request_length c2 w2 = Some (Number 4194303, c2, w2)"
proof -
  obtain c1 w1 x c2 w2 where run: "perform sample_gen Call_get_maximum_request_length sample_conn quiet_os = Some (Number 4194303, c1, w1)"
    "perform_all sample_gen [Call_get_extension_data randr] c1 w1 = Some ([Extension x], c2, w2)" and ok: "\<not> has_error c2"
    using learnt_run by blast
  have "\<forall>f \<in> set (os_others quiet_os). keeps_knowledge f" by (simp add: zero_defs)
  from answers_stay [OF this sample_gen_learns run(1) _ run(2) ok] run show ?thesis by blast
qed

end
