(* ===== verification/XcbStream.thy ===== *)
theory XcbStream
  imports XcbDiscard XcbTyped
begin

text \<open>
  Waiting for a reply while the server sends whatever it has to send: other replies, errors and
  events before and after it, cut into pieces anywhere by the socket. The specification is the list
  of packets the server sends with the numbers of their requests; the code sees their bytes.
\<close>

section \<open>What a server sends\<close>

text \<open>A packet is as long as its header says.\<close>

definition packet_ok :: "byte list \<Rightarrow> bool" where
  "packet_ok bs \<longleftrightarrow> 32 \<le> length bs \<and> length bs < 2 ^ 31
     \<and> (let g = get_genrep bs in
        if response_type g = XCB_REPLY then int (length bs) = sint (32 + rep_length g * 4)
        else 0 \<le> sint (xge_length g) \<and> int (length bs) = 32 + sint (xge_length g))"

text \<open>
  The numbers never go back, and from one packet to the next they advance by less than \<open>2 ^ 16\<close>
  (which the library ensures by its sync requests). A KeymapNotify event has no number.
\<close>

fun numbered :: "u64 \<Rightarrow> (u64 \<times> byte list) list \<Rightarrow> bool" where
  "numbered read [] = True"
| "numbered read ((n, bs) # ps) \<longleftrightarrow> packet_ok bs \<and> read \<le> n \<and> unat n < unat read + 65536 \<and> unat n < 2 ^ 32
     \<and> (if (response_type (get_genrep bs) AND 0x7f) = XCB_KEYMAP_NOTIFY then n = read
        else sequence (get_genrep bs) = ucast n)
     \<and> numbered n ps"

text \<open>Packets that come before the reply to request \<open>K\<close>: answers to earlier requests, and events.\<close>

definition early :: "u64 \<Rightarrow> u64 \<times> byte list \<Rightarrow> bool" where
  "early K p \<longleftrightarrow> fst p < K \<or> fst p = K \<and> response_type (get_genrep (snd p)) \<noteq> XCB_REPLY
     \<and> response_type (get_genrep (snd p)) \<noteq> XCB_ERROR"

text \<open>The socket delivers data, in pieces of any size.\<close>

definition data_only :: "recv_result list \<Rightarrow> bool" where
  "data_only rs \<longleftrightarrow> (\<forall>r \<in> set rs. \<exists>bs. r = RData bs \<and> bs \<noteq> [])"

lemma data_only_simps [simp]:
  "data_only []" "data_only (RData bs # rs) \<longleftrightarrow> bs \<noteq> [] \<and> data_only rs"
  "\<not> data_only (RAgain # rs)" "\<not> data_only (RError # rs)"
  by (auto simp: data_only_def)

text \<open>Every pending reply is for one request, without the GLX workaround, and that for \<open>K\<close> is not to be discarded.\<close>

definition pend_fine :: "u64 \<Rightarrow> pending_reply list \<Rightarrow> bool" where
  "pend_fine K ps \<longleftrightarrow> (\<forall>p \<in> set ps. workaround p = WORKAROUND_NONE \<and> last_request p = first_request p
     \<and> low_half (first_request p) \<and> (first_request p = K \<longrightarrow> \<not> has_flag (pend_flags p) XCB_REQUEST_DISCARD_REPLY))"

text \<open>
  The connection and the system in front of the rest of a stream, in which all numbers are less
  than \<open>2 ^ 31\<close> from \<open>K\<close>, so that their low halves compare as they do.
\<close>

definition streams :: "u64 \<Rightarrow> (u64 \<times> byte list) list \<Rightarrow> xcb_connection_t \<Rightarrow> os \<Rightarrow> bool" where
  "streams K ps c w \<longleftrightarrow> in_inv c \<and> os_mallocs w = [] \<and> os_others w = [] \<and> data_only (os_recvs w) \<and> \<not> has_error c
     \<and> numbered (request_read (c_in c)) ps \<and> instream c w = concat (map snd ps)
     \<and> unat (request_read (c_in c)) < 2 ^ 32 \<and> near32 K (request_read (c_in c)) \<and> (\<forall>x \<in> set ps. unat (fst x) < unat K + 2 ^ 31)
     \<and> (\<forall>j \<in> fst ` set (replies (c_in c)). unat j < unat (request_read (c_in c)))
     \<and> pend_fine K (pending_replies (c_in c))"

section \<open>Reading from data\<close>

lemma read_block_data:
  "data_only rs \<Longrightarrow> need \<le> length (recv_bytes rs) \<Longrightarrow>
     \<exists>bs rs'. read_block need rs ps = (1, bs, rs', ps) \<and> data_only rs' \<and> length (recv_bytes rs') \<le> length (recv_bytes rs)"
proof (induction need rs ps rule: read_block.induct)
  case (2 need r rs ps)
  from "2.prems" obtain d where r: "r = RData d" "d \<noteq> []" by (auto simp: data_only_def)
  show ?case
  proof (cases "need = 0 \<or> need < length d")
    case True
    with r "2.prems" show ?thesis by auto
  next
    case False
    from "2.prems"(2) r have le: "need - length d \<le> length (recv_bytes rs)" by simp
    from False r "2.prems"(1) have "need \<noteq> 0" "d \<noteq> []" "length d \<le> need" "data_only rs" by simp_all
    with "2.IH"(1) [OF _ r(1) _ _ _ le] obtain bs rs' where
      "read_block (need - length d) rs ps = (1, bs, rs', ps)" "data_only rs'"
      "length (recv_bytes rs') \<le> length (recv_bytes rs)" by auto
    with False r show ?thesis by auto
  qed
qed simp

lemma read_data:
  assumes "0 \<le> len" and "nat len \<le> length (instream c w)" and "data_only (os_recvs w)"
  shows "\<exists>buf rs. xcb_in_read_block len c w = Some (len, buf, set_queue (drop (nat len) (in_queue (c_in c))) c, w\<lparr>os_recvs := rs\<rparr>)
     \<and> data_only rs \<and> length (recv_bytes rs) \<le> length (recv_bytes (os_recvs w))"
proof (cases "len \<le> int (length (in_queue (c_in c)))")
  case True
  with read_block_queued [OF assms(1) True, of w] assms(3) show ?thesis
    by (intro exI [of _ "take (nat len) (in_queue (c_in c))"] exI [of _ "os_recvs w"]) simp
next
  case False
  let ?n = "nat (len - int (length (in_queue (c_in c))))"
  have "?n \<le> length (recv_bytes (os_recvs w))" using assms(2) by (simp add: instream_def)
  from read_block_data [OF assms(3) this, of "os_polls w"] obtain bs rs where
    rb: "read_block ?n (os_recvs w) (os_polls w) = (1, bs, rs, os_polls w)" "data_only rs"
    "length (recv_bytes rs) \<le> length (recv_bytes (os_recvs w))" by blast
  with False show ?thesis
    by (intro exI [of _ "in_queue (c_in c) @ bs"] exI [of _ rs]) (simp add: xcb_in_read_block_def Let_def set_queue_def)
qed

section \<open>One packet\<close>

lemma drop_completed_subset: "set (drop_completed d ps) \<subseteq> set ps"
  by (induction ps) auto

lemma track_pend_subset:
  assumes ts: "track_sequence g c w = (c1, w1)"
  shows "set (pending_replies (c_in c1)) \<subseteq> set (pending_replies (c_in c))"
proof (cases "(response_type g AND 0x7f) = XCB_KEYMAP_NOTIFY")
  case True
  with ts show ?thesis by (simp add: track_sequence_keymap)
next
  case False
  from track_sequence_pend(1) [OF ts False] show ?thesis by (simp add: drop_completed_subset)
qed

lemma pend_fine_subset: "pend_fine K ps \<Longrightarrow> set qs \<subseteq> set ps \<Longrightarrow> pend_fine K qs"
  by (auto simp: pend_fine_def)

lemma packet_pend_in: "packet_pend g i = Some p \<Longrightarrow> p \<in> set (pending_replies i)"
  by (auto simp: packet_pend_def current_pend_def split: if_split_asm list.split_asm)

lemma packet_length_fine:
  assumes "pend_fine K (pending_replies i)"
  shows "packet_length g (packet_pend g i) q = (if response_type g = XCB_REPLY then 32 + rep_length g * 4 else 32)"
  using assms packet_pend_in [of g i] by (auto simp: packet_length_def pend_fine_def Let_def split: option.split)

lemma deliver_works:
  assumes "os_mallocs w = []"
  shows "\<exists>c' w'. deliver_reply p c w = (True, c', w') \<and> os_recvs w' = os_recvs w \<and> os_polls w' = os_polls w"
    and "\<exists>c' w'. deliver_event p c w = (True, c', w') \<and> os_recvs w' = os_recvs w \<and> os_polls w' = os_polls w"
  using assms by (simp_all add: deliver_reply_def deliver_event_def malloc_none)

lemma xge_fits:
  assumes "0 \<le> sint (e :: u32)" and "sint e + 32 < 2 ^ 31"
  shows "sint (32 + e) = 32 + sint e"
  using assms by (simp add: sint_word_ariths signed_take_bit_int_eq_self)

lemma read_packet_data:
  assumes q32: "32 \<le> length (in_queue (c_in c))" and strm: "instream c w = bs @ rest" and ok: "packet_ok bs"
    and mal: "os_mallocs w = []" and data: "data_only (os_recvs w)" and pend: "pend_fine K (pending_replies (c_in c))"
  shows "\<exists>c' w'. read_packet c w = Some (True, c', w') \<and> data_only (os_recvs w') \<and> os_polls w' = os_polls w
     \<and> length (recv_bytes (os_recvs w')) \<le> length (recv_bytes (os_recvs w))"
proof -
  let ?q = "in_queue (c_in c)"
  have pre: "take 32 ?q = take 32 bs"
    using arg_cong [OF strm, of "take 32"] q32 ok by (simp add: instream_def packet_ok_def)
  define g where g: "g = get_genrep ?q"
  have gbs: "get_genrep bs = g"
    using get_genrep_prefix [OF q32] get_genrep_prefix [of bs] ok by (simp add: g pre packet_ok_def)
  obtain c1 w1 where ts: "track_sequence g c w = (c1, w1)" by (cases "track_sequence g c w")
  note fr = track_sequence_frame [OF ts] and w1 = track_sequence_mallocs [OF ts mal]
  define p where p: "p = packet_pend g (c_in c1)"
  define len where len: "len = packet_length g p ?q"
  have l: "len = (if response_type g = XCB_REPLY then 32 + rep_length g * 4 else 32)"
    unfolding len p by (rule packet_length_fine [OF pend_fine_subset [OF pend track_pend_subset [OF ts]]])
  let ?x = "xge_length g"
  have sizes: "0 < sint len" "0 \<le> sint ?x" "int (length bs) = sint len + sint ?x"
    "malloc_size (scast (len + ?x) + (if response_type g = XCB_REPLY then 0 else 4)) w1 = (True, w1)"
    using ok malloc_packet_ok [OF w1, of "len + ?x"] xge_fits [of ?x]
    by (auto simp: packet_ok_def Let_def gbs l xge_length_def packet_consts split: if_split_asm)
  have strm1: "instream c1 w1 = bs @ rest" using strm fr by (simp add: instream_def)
  then have "nat (sint len) \<le> length (instream c1 w1)" using sizes(1-3) by simp
  moreover have r1: "os_recvs w1 = os_recvs w" using fr by simp
  ultimately obtain buf rs where 1: "xcb_in_read_block (sint len) c1 w1
      = Some (sint len, buf, set_queue (drop (nat (sint len)) (in_queue (c_in c1))) c1, w1\<lparr>os_recvs := rs\<rparr>)"
    and rs: "data_only rs" "length (recv_bytes rs) \<le> length (recv_bytes (os_recvs w))"
    using read_data [of "sint len" c1 w1] sizes(1) data by auto
  let ?c2 = "set_queue (drop (nat (sint len)) (in_queue (c_in c1))) c1" and ?w2 = "w1\<lparr>os_recvs := rs\<rparr>"
  from 1 sizes(1) have buf: "length buf = nat (sint len)" "instream c1 w1 = buf @ instream ?c2 ?w2"
    by (rule xcb_in_read_block_ok, simp)+
  have "length bs + length rest = nat (sint len) + length (instream ?c2 ?w2)"
    using arg_cong [OF buf(2), of length] strm1 buf(1) by simp
  then have more: "nat (sint ?x) \<le> length (instream ?c2 ?w2)" using sizes(1-3) by linarith
  obtain ret ext c3 rs3 where 2: "(if ?x \<noteq> 0 then xcb_in_read_block (sint ?x) ?c2 ?w2 else Some (1, [], ?c2, ?w2))
      = Some (ret, ext, c3, ?w2\<lparr>os_recvs := rs3\<rparr>)" and ret: "0 < ret"
    and rs3: "data_only rs3" "length (recv_bytes rs3) \<le> length (recv_bytes rs)"
  proof (cases "?x = 0")
    case True
    show thesis by (rule that [of 1 "[]" ?c2 rs]) (use True rs in simp_all)
  next
    case False
    then have "sint ?x \<noteq> 0" by (simp add: sint_eq_0)
    with read_data [OF sizes(2) more] rs False sizes(2) show thesis by (auto intro: that)
  qed
  let ?w3 = "?w2\<lparr>os_recvs := rs3\<rparr>"
  have "os_mallocs ?w3 = []" using w1 by simp
  note dlv = deliver_works [OF this, of "make_packet g (request_read (c_in c3)) buf ext" c3]
  show ?thesis
    using q32 sizes(1,4) 1 2 ret rs rs3 dlv fr
    by (cases "packet_route g p")
      (auto simp: read_packet_def Let_def g [symmetric] ts p [symmetric] len [symmetric])
qed

lemma track_quiet_replies:
  "track_sequence g c w = (c1, w1) \<Longrightarrow> os_mallocs w = [] \<Longrightarrow> replies (c_in c1) =
     (if next_seq g c \<noteq> request_read (c_in c) \<and> current_reply (c_in c) \<noteq> []
      then al_put (ucast (request_read (c_in c))) (current_reply (c_in c)) (replies (c_in c)) else replies (c_in c))"
  by (auto simp: track_sequence_def next_seq_def Let_def malloc_none split: if_split_asm)

lemma read_packet_fields:
  assumes rp: "read_packet c w = Some (True, c', w')" and ts: "track_sequence (get_genrep (in_queue (c_in c))) c w = (c1, w1)"
  shows "replies (c_in c') = replies (c_in c1)" "pending_replies (c_in c') = pending_replies (c_in c1)"
    "request_completed (c_in c') = request_completed (c_in c1)" "has_error c' = has_error c"
proof -
  let ?g = "get_genrep (in_queue (c_in c))"
  let ?pend = "packet_pend ?g (c_in c1)"
  from rp refl ts refl refl obtain buf ext q w2 where "case packet_route ?g ?pend of
           Dropped \<Rightarrow> c' = set_queue q c1 \<and> w' = w2
         | ToReply \<Rightarrow> c' = add_reply (make_packet ?g (request_read (c_in c1)) buf ext) (set_queue q c1)
             \<and> w' = signal_reader (request_read (c_in c1)) (readers (c_in c1)) w2
         | ToEvent \<Rightarrow> c' = add_event (make_packet ?g (request_read (c_in c1)) buf ext) (set_queue q c1)
             \<and> w' = os_signal EventCond w2"
    by (rule read_packet_True)
  then show "replies (c_in c') = replies (c_in c1)" "pending_replies (c_in c') = pending_replies (c_in c1)"
    "request_completed (c_in c') = request_completed (c_in c1)" "has_error c' = has_error c"
    using track_sequence_frame [OF ts] by (auto simp: add_reply_def add_event_def split: route.splits)
qed

text \<open>A pending reply that belongs to the current request is for exactly that request.\<close>

lemma fine_current:
  assumes fine: "pend_fine K (pending_replies i)" and cur: "packet_pend g i = Some p" and low: "low_half (request_read i)"
  shows "first_request p = request_read i"
proof -
  from fine packet_pend_in [OF cur] have p: "low_half (first_request p)" "last_request p = first_request p"
    "workaround p = WORKAROUND_NONE" by (auto simp: pend_fine_def)
  from cur have "XCB_SEQUENCE_COMPARE (first_request p) (\<le>) (request_read i)"
    "XCB_SEQUENCE_COMPARE (request_read i) (\<le>) (last_request p)"
    using p(3) by (auto simp: packet_pend_def current_pend_def split: if_split_asm list.split_asm)
  with p low show ?thesis by (auto simp: seq_le)
qed

lemma numbered_next:
  assumes "numbered (request_read (c_in c)) ((n, bs) # ps)" and "unat (request_read (c_in c)) < 2 ^ 32"
    and "\<forall>j \<in> fst ` set (replies (c_in c)). unat j < unat (request_read (c_in c))"
  shows "next_seq (get_genrep bs) c = n" and "seq_ok (get_genrep bs) c"
proof -
  let ?r = "request_read (c_in c)"
  from assms(1) have n: "?r \<le> n" "unat n < unat ?r + 65536" "unat n < 2 ^ 32" by auto
  have room: "unat ?r + 65536 < 2 ^ 63" using assms(2) by simp
  have "widen_sequence ?r (ucast n) = n"
    using n room by (intro widen_sequence_eq) (simp_all add: word_le_nat_alt)
  then show ns: "next_seq (get_genrep bs) c = n" using assms(1) by (auto simp: next_seq_def split: if_split_asm)
  have "unat (ucast n :: u32) = unat n" using n(3) by (simp add: unat_low32)
  then have "(ucast n :: u32) \<notin> fst ` set (replies (c_in c))"
    using assms(3) n(1) by (force simp: word_le_nat_alt)
  with ns room show "seq_ok (get_genrep bs) c" by (simp add: seq_ok_def)
qed

lemma queue_header:
  assumes "32 \<le> length (in_queue (c_in c))" and "instream c w = bs @ rest" and "packet_ok bs"
  shows "get_genrep (in_queue (c_in c)) = get_genrep bs"
proof -
  have "take 32 (in_queue (c_in c)) = take 32 bs"
    using arg_cong [OF assms(2), of "take 32"] assms(1,3) by (simp add: instream_def packet_ok_def)
  with get_genrep_prefix [OF assms(1)] get_genrep_prefix [of bs] assms(3) show ?thesis by (simp add: packet_ok_def)
qed

lemma track_completed:
  assumes "track_sequence g c w = (c1, w1)"
  shows "request_completed (c_in c1) = (if response_type g = XCB_ERROR then next_seq g c
    else if next_seq g c \<noteq> request_read (c_in c) then next_seq g c - 1 else request_completed (c_in c))"
proof (cases "(response_type g AND 0x7f) = XCB_KEYMAP_NOTIFY")
  case True
  then have "response_type g \<noteq> XCB_ERROR" by (auto simp: packet_consts)
  with True assms show ?thesis by (simp add: track_sequence_keymap next_seq_def)
next
  case False
  from track_sequence_pend(2) [OF assms False] show ?thesis .
qed

text \<open>Where a packet of the stream goes, and that a reply to \<open>K\<close> goes to its mailbox as it is.\<close>

definition delivers :: "u64 \<Rightarrow> u64 \<times> byte list \<Rightarrow> (u32 \<Rightarrow> packet list) \<Rightarrow> (u32 \<Rightarrow> packet list) \<Rightarrow> bool" where
  "delivers K p m m' \<longleftrightarrow>
     (let n = fst p; ty = response_type (get_genrep (snd p)) in
      if n = K \<and> ty = XCB_REPLY then m' = m(ucast n := m (ucast n) @ [plain_reply (snd p)])
      else m' = m \<or> (ty = XCB_REPLY \<or> ty = XCB_ERROR) \<and> (\<exists>x. m' = m(ucast n := m (ucast n) @ [x])))"

lemma read_packet_delivers:
  assumes rp: "read_packet c w = Some (True, c', w')" and st: "streams K ((n, bs) # ps) c w"
    and q32: "32 \<le> length (in_queue (c_in c))"
  shows "delivers K (n, bs) (mailbox c) (mailbox c')" and "instream c' w' = concat (map snd ps)"
    and "in_inv c'" and "os_mallocs w' = []" and "request_read (c_in c') = n"
proof -
  let ?g = "get_genrep bs"
  from st have inv: "in_inv c" "os_mallocs w = []" and num: "numbered (request_read (c_in c)) ((n, bs) # ps)"
    and strm: "instream c w = bs @ concat (map snd ps)" and low: "unat (request_read (c_in c)) < 2 ^ 32"
    and keys: "\<forall>j \<in> fst ` set (replies (c_in c)). unat j < unat (request_read (c_in c))"
    and fine: "pend_fine K (pending_replies (c_in c))" by (simp_all add: streams_def)
  from num have ok: "packet_ok bs" and n: "unat n < 2 ^ 32" by simp_all
  note g = queue_header [OF q32 strm ok] and nx = numbered_next [OF num low keys]
  obtain c1 w1 where ts: "track_sequence ?g c w = (c1, w1)" by (cases "track_sequence ?g c w")
  define pend where "pend = packet_pend ?g (c_in c1)"
  have fine1: "pend_fine K (pending_replies (c_in c1))" by (rule pend_fine_subset [OF fine track_pend_subset [OF ts]])
  have len: "packet_length ?g pend (in_queue (c_in c)) = (if response_type ?g = XCB_REPLY then 32 + rep_length ?g * 4 else 32)"
    unfolding pend_def by (rule packet_length_fine [OF fine1])
  from rp inv g [symmetric] nx(2) ts pend_def obtain buf ext where r: "in_inv c'" "os_mallocs w' = []"
    "request_read (c_in c') = next_seq ?g c"
    "length buf = nat (sint (packet_length ?g pend (in_queue (c_in c))))" "length ext = nat (sint (xge_length ?g))"
    "instream c w = buf @ ext @ instream c' w'"
    and box: "case packet_route ?g pend of
           Dropped \<Rightarrow> mailbox c' = mailbox c \<and> events (c_in c') = events (c_in c)
         | ToReply \<Rightarrow> mailbox c' = (mailbox c)(ucast (next_seq ?g c) :=
               mailbox c (ucast (next_seq ?g c)) @ [make_packet ?g (next_seq ?g c) buf ext])
             \<and> events (c_in c') = events (c_in c)
         | ToEvent \<Rightarrow> mailbox c' = mailbox c
             \<and> events (c_in c') = events (c_in c) @ [make_packet ?g (next_seq ?g c) buf ext]"
    by (rule read_packet_mailbox)
  show "in_inv c'" "os_mallocs w' = []" "request_read (c_in c') = n" using r(1-3) nx(1) by simp_all
  have "length (buf @ ext) = length bs"
    using ok r(4,5) len by (auto simp: packet_ok_def Let_def xge_length_def packet_consts split: if_split_asm)
  with r(6) strm have whole: "buf @ ext = bs" and rest: "instream c' w' = concat (map snd ps)"
    by (metis append_assoc append_eq_append_conv)+
  show "instream c' w' = concat (map snd ps)" by (rule rest)
  have plain: "make_packet ?g n buf ext = plain_reply bs" if "response_type ?g = XCB_REPLY"
    using that whole r(5) by (simp add: make_packet_def plain_reply_def xge_length_def packet_consts)
  have kept: "packet_route ?g pend = ToReply" if "n = K" "response_type ?g = XCB_REPLY"
  proof -
    have rr: "request_read (c_in c1) = K" using track_sequence_read [OF ts] nx(1) that(1) by simp
    have "low_half K" using n that(1) by (simp add: low_half_def)
    have "\<not> pend_has XCB_REQUEST_DISCARD_REPLY pend"
    proof (cases pend)
      case (Some p)
      then have p: "packet_pend ?g (c_in c1) = Some p" by (simp add: pend_def)
      from fine_current [OF fine1 p] rr \<open>low_half K\<close> have "first_request p = K" by simp
      with fine1 packet_pend_in [OF p] Some show ?thesis by (simp add: pend_fine_def pend_has_def)
    qed (simp add: pend_has_def)
    with that(2) show ?thesis by (simp add: packet_route_def)
  qed
  show "delivers K (n, bs) (mailbox c) (mailbox c')"
    using box nx(1) plain kept
    by (cases "packet_route ?g pend") (auto simp: delivers_def Let_def packet_route_def split: if_split_asm)
qed

lemma streams_step:
  assumes st: "streams K ((n, bs) # ps) c w" and q32: "32 \<le> length (in_queue (c_in c))"
  obtains c' w' where "read_packet c w = Some (True, c', w')" and "streams K ps c' w'" and "os_polls w' = os_polls w"
    and "length (recv_bytes (os_recvs w')) \<le> length (recv_bytes (os_recvs w))"
    and "delivers K (n, bs) (mailbox c) (mailbox c')" and "request_read (c_in c') = n"
    and "request_completed (c_in c') = (if response_type (get_genrep bs) = XCB_ERROR then n
      else if n \<noteq> request_read (c_in c) then n - 1 else request_completed (c_in c))"
proof -
  let ?g = "get_genrep bs" and ?r = "request_read (c_in c)"
  from st have mal: "os_mallocs w = []" "data_only (os_recvs w)" "os_others w = []" and err: "\<not> has_error c"
    and num: "numbered ?r ((n, bs) # ps)" and strm: "instream c w = bs @ concat (map snd ps)" and low: "unat ?r < 2 ^ 32"
    and keys: "\<forall>j \<in> fst ` set (replies (c_in c)). unat j < unat ?r"
    and fine: "pend_fine K (pending_replies (c_in c))" by (simp_all add: streams_def)
  from num have ok: "packet_ok bs" and n: "?r \<le> n" "unat n < 2 ^ 32" and num': "numbered n ps" by simp_all
  note g = queue_header [OF q32 strm ok] and nx = numbered_next(1) [OF num low keys]
  obtain c1 w1 where ts: "track_sequence ?g c w = (c1, w1)" by (cases "track_sequence ?g c w")
  from read_packet_data [OF q32 strm ok mal(1,2) fine] obtain c' w' where
    rp: "read_packet c w = Some (True, c', w')" and os: "data_only (os_recvs w')" "os_polls w' = os_polls w"
      "length (recv_bytes (os_recvs w')) \<le> length (recv_bytes (os_recvs w))" by blast
  note f = read_packet_fields [OF rp ts [folded g]] and d = read_packet_delivers [OF rp st q32]
  have "unat j < unat n" if "j \<in> fst ` set (replies (c_in c'))" for j
  proof (cases "j \<in> fst ` set (replies (c_in c))")
    case True
    with keys n(1) show ?thesis by (auto simp: word_le_nat_alt)
  next
    case False
    with that f(1) track_quiet_replies [OF ts mal(1)] nx have "j = ucast ?r" "n \<noteq> ?r"
      by (auto simp: al_put_entries split: if_split_asm)
    moreover have "unat (ucast ?r :: u32) = unat ?r" using low by (simp add: unat_low32)
    ultimately show ?thesis using n(1) by (simp add: word_le_nat_alt word_unat_eq_iff)
  qed
  moreover have "pend_fine K (pending_replies (c_in c'))"
    unfolding f(2) by (rule pend_fine_subset [OF fine track_pend_subset [OF ts]])
  moreover have "os_others w' = []" using reads_only_read_packet [OF rp] mal(3) by (simp add: reads_only_def)
  moreover have "near32 K n" "\<forall>x \<in> set ps. unat (fst x) < unat K + 2 ^ 31"
    using st n(1) by (auto simp: streams_def near32_def word_le_nat_alt)
  ultimately have "streams K ps c' w'"
    using d os(1) err f(4) num' n(2) by (simp add: streams_def)
  with that [OF rp _ os(2,3) d(1,5)] f(3) track_completed [OF ts] nx show thesis by simp
qed

section \<open>Before and after the reply\<close>

definition waiting :: "u64 \<Rightarrow> byte list \<Rightarrow> xcb_connection_t \<Rightarrow> os \<Rightarrow> bool" where
  "waiting K bs c w \<longleftrightarrow> (\<exists>ps qs. streams K (ps @ (K, bs) # qs) c w \<and> (\<forall>x \<in> set ps. early K x))
     \<and> mailbox c (ucast K) = [] \<and> request_completed (c_in c) < K \<and> response_type (get_genrep bs) = XCB_REPLY"

definition arrived :: "u64 \<Rightarrow> byte list \<Rightarrow> xcb_connection_t \<Rightarrow> os \<Rightarrow> bool" where
  "arrived K bs c w \<longleftrightarrow> (\<exists>ps. streams K ps c w) \<and> (\<exists>xs. mailbox c (ucast K) = plain_reply bs # xs)
     \<and> K \<le> request_read (c_in c)"

lemma numbered_reaches: "numbered r (ps @ (K, bs) # qs) \<Longrightarrow> r \<le> K \<and> unat K < 2 ^ 32"
  by (induction ps arbitrary: r) (auto intro: order_trans)

lemma early_other_box:
  assumes "early K (n, bs)" and "delivers K (n, bs) m m'" and "unat K < 2 ^ 32"
  shows "m' (ucast K) = m (ucast K)"
proof (cases "n = K")
  case True
  with assms(1,2) show ?thesis by (auto simp: early_def delivers_def Let_def)
next
  case False
  with assms(1) have "unat n < unat K" by (simp add: early_def word_less_nat_alt)
  with assms(3) have "unat (ucast n :: u32) \<noteq> unat (ucast K :: u32)" by (simp add: unat_low32)
  then have "(ucast n :: u32) \<noteq> ucast K" by auto
  with assms(2) False show ?thesis by (auto simp: delivers_def Let_def)
qed

lemma early_not_completed:
  assumes "early K (n, bs)" and "a < K" and "r \<le> n"
  shows "(if response_type (get_genrep bs) = XCB_ERROR then n else if n \<noteq> r then n - 1 else a) < K"
proof -
  have "n - 1 < n" if "n \<noteq> r"
    using that assms(3) by (intro word_pred_less) (metis le_less not_less_iff_gr_or_eq word_coorder.extremum_strict)
  with assms show ?thesis by (auto simp: early_def intro: order.strict_trans order.strict_trans2)
qed

lemma waiting_step:
  assumes wt: "waiting K bs c w" and q32: "32 \<le> length (in_queue (c_in c))"
  obtains c' w' where "read_packet c w = Some (True, c', w')" and "waiting K bs c' w' \<or> arrived K bs c' w'"
    and "os_polls w' = os_polls w" and "length (recv_bytes (os_recvs w')) \<le> length (recv_bytes (os_recvs w))"
proof -
  from wt obtain ps qs where st: "streams K (ps @ (K, bs) # qs) c w" and early: "\<forall>x \<in> set ps. early K x"
    and box: "mailbox c (ucast K) = []" and compl: "request_completed (c_in c) < K"
    and ty: "response_type (get_genrep bs) = XCB_REPLY" by (auto simp: waiting_def)
  show thesis
  proof (cases ps)
    case Nil
    with st have "streams K ((K, bs) # qs) c w" by simp
    from streams_step [OF this q32] obtain c' w' where s: "read_packet c w = Some (True, c', w')" "streams K qs c' w'"
      "os_polls w' = os_polls w" "length (recv_bytes (os_recvs w')) \<le> length (recv_bytes (os_recvs w))"
      "delivers K (K, bs) (mailbox c) (mailbox c')" "request_read (c_in c') = K" by blast
    have "arrived K bs c' w'" using s(2,5,6) box ty by (auto simp: arrived_def delivers_def)
    with that s(1,3,4) show thesis by blast
  next
    case (Cons x ps')
    obtain n b where x: "x = (n, b)" by (cases x)
    with st Cons have "streams K ((n, b) # ps' @ (K, bs) # qs) c w" by simp
    from streams_step [OF this q32] obtain c' w' where s: "read_packet c w = Some (True, c', w')"
      "streams K (ps' @ (K, bs) # qs) c' w'" "os_polls w' = os_polls w"
      "length (recv_bytes (os_recvs w')) \<le> length (recv_bytes (os_recvs w))"
      "delivers K (n, b) (mailbox c) (mailbox c')"
      "request_completed (c_in c') = (if response_type (get_genrep b) = XCB_ERROR then n
         else if n \<noteq> request_read (c_in c) then n - 1 else request_completed (c_in c))" by blast
    have e: "early K (n, b)" using early Cons x by simp
    have num: "numbered (request_read (c_in c)) (ps @ (K, bs) # qs)" using st by (simp add: streams_def)
    with Cons x have "request_read (c_in c) \<le> n" by simp
    with early_not_completed [OF e compl] s(6) have "request_completed (c_in c') < K" by simp
    moreover have "mailbox c' (ucast K) = []"
      using early_other_box [OF e s(5)] numbered_reaches [OF num] box by simp
    ultimately have "waiting K bs c' w'" using s(2) early Cons ty by (auto simp: waiting_def)
    with that s(1,3,4) show thesis by blast
  qed
qed

lemma arrived_step:
  assumes ar: "arrived K bs c w" and q32: "32 \<le> length (in_queue (c_in c))"
  obtains c' w' where "read_packet c w = Some (True, c', w')" and "arrived K bs c' w'"
    and "os_polls w' = os_polls w" and "length (recv_bytes (os_recvs w')) \<le> length (recv_bytes (os_recvs w))"
proof -
  from ar obtain ps xs where st: "streams K ps c w" and box: "mailbox c (ucast K) = plain_reply bs # xs"
    and le: "K \<le> request_read (c_in c)" by (auto simp: arrived_def)
  have "ps \<noteq> []"
  proof
    assume "ps = []"
    with st have "instream c w = []" by (simp add: streams_def)
    with q32 show False by (simp add: instream_def)
  qed
  then obtain n b ps' where ps: "ps = (n, b) # ps'" by (cases ps) auto
  with st have st': "streams K ((n, b) # ps') c w" by simp
  from streams_step [OF this q32] obtain c' w' where s: "read_packet c w = Some (True, c', w')" "streams K ps' c' w'"
    "os_polls w' = os_polls w" "length (recv_bytes (os_recvs w')) \<le> length (recv_bytes (os_recvs w))"
    "delivers K (n, b) (mailbox c) (mailbox c')" "request_read (c_in c') = n" by blast
  have "K \<le> n" using st' le by (auto simp: streams_def)
  moreover have "\<exists>xs. mailbox c' (ucast K) = plain_reply bs # xs"
    using s(5) box by (auto simp: delivers_def Let_def split: if_split_asm)
  ultimately have "arrived K bs c' w'" using s(2,6) by (auto simp: arrived_def)
  with that s(1,3,4) show thesis by blast
qed

text \<open>Reading all packets there are, and reading what the socket has.\<close>

lemma read_packets_stream:
  assumes "waiting K bs c w \<or> arrived K bs c w"
  shows "\<exists>c' w'. read_packets c w = Some (c', w') \<and> (waiting K bs c' w' \<or> arrived K bs c' w') \<and> os_polls w' = os_polls w
     \<and> length (in_queue (c_in c')) < 32 \<and> length (recv_bytes (os_recvs w')) \<le> length (recv_bytes (os_recvs w))"
  using assms
proof (induction "length (in_queue (c_in c))" arbitrary: c w rule: less_induct)
  case less
  show ?case
  proof (cases "length (in_queue (c_in c)) < 32")
    case True
    then have "read_packets c w = Some (c, w)" by (simp add: read_packets.simps [of c] read_packet_def)
    with less.prems True show ?thesis by simp
  next
    case False
    then obtain c1 w1 where s: "read_packet c w = Some (True, c1, w1)" "waiting K bs c1 w1 \<or> arrived K bs c1 w1"
      "os_polls w1 = os_polls w" "length (recv_bytes (os_recvs w1)) \<le> length (recv_bytes (os_recvs w))"
      using less.prems waiting_step [of K bs c w] arrived_step [of K bs c w] by (metis not_le)
    from less.hyps [OF read_packet_shrinks [OF s(1)] s(2)] s show ?thesis
      by (auto simp: read_packets.simps [of c] intro: order_trans)
  qed
qed

lemma in_read_stream:
  assumes wt: "waiting K bs c w" and short: "length (in_queue (c_in c)) < 32"
  shows "\<exists>c' w'. xcb_in_read c w = Some (True, c', w') \<and> (waiting K bs c' w' \<or> arrived K bs c' w') \<and> os_polls w' = os_polls w
     \<and> length (in_queue (c_in c')) < 32 \<and> length (recv_bytes (os_recvs w')) < length (recv_bytes (os_recvs w))"
proof -
  from wt obtain ps qs where st: "streams K (ps @ (K, bs) # qs) c w" by (auto simp: waiting_def)
  have "32 \<le> length (instream c w)"
  proof -
    have "packet_ok bs"
    proof -
      have "numbered r (ps @ (K, bs) # qs) \<Longrightarrow> packet_ok bs" for r by (induction ps arbitrary: r) auto
      with st show ?thesis by (auto simp: streams_def)
    qed
    with st show ?thesis by (simp add: streams_def packet_ok_def)
  qed
  with short have "recv_bytes (os_recvs w) \<noteq> []" by (auto simp: instream_def)
  then obtain d rs where r: "os_recvs w = RData d # rs" "d \<noteq> []" "data_only rs"
    using st by (cases "os_recvs w") (auto simp: streams_def data_only_def)
  define room where "room = IN_QUEUE_SIZE - length (in_queue (c_in c))"
  have "0 < room" using short by (simp add: room_def IN_QUEUE_SIZE_def)
  with r obtain b rs' where got: "os_recv room (os_recvs w) = (Got b, rs')" and dr: "data_only rs'"
    by (cases "length d \<le> room") auto
  from os_recv_Got [OF got] have b: "b \<noteq> []" "recv_bytes (os_recvs w) = b @ recv_bytes rs'" by auto
  let ?c = "set_queue (in_queue (c_in c) @ b) c" and ?w = "w\<lparr>os_recvs := rs'\<rparr>"
  have "waiting K bs ?c ?w"
    using wt b(2) dr by (auto simp: waiting_def streams_def instream_def)
  then obtain c' w' where "read_packets ?c ?w = Some (c', w')" "waiting K bs c' w' \<or> arrived K bs c' w'"
    "os_polls w' = os_polls w" "length (in_queue (c_in c')) < 32" "length (recv_bytes (os_recvs w')) \<le> length (recv_bytes rs')"
    using read_packets_stream [of K bs ?c ?w] by auto
  moreover from this(5) have "length (recv_bytes (os_recvs w')) < length (recv_bytes (os_recvs w))"
    using b by (simp add: le_less_trans less_add_same_cancel2)
  ultimately show ?thesis using got by (auto simp: xcb_in_read_def room_def [symmetric])
qed

section \<open>Polling\<close>

lemma waiting_poll:
  assumes wt: "waiting K bs c w" and nz: "(ucast K :: u32) \<noteq> 0"
  shows "poll_for_reply (ucast K) want c w = (None, c, w)"
proof -
  from wt obtain ps qs where st: "streams K (ps @ (K, bs) # qs) c w" and box: "mailbox c (ucast K) = []"
    and compl: "request_completed (c_in c) < K" by (auto simp: waiting_def)
  then have near: "near32 K (request_read (c_in c))" and num: "numbered (request_read (c_in c)) (ps @ (K, bs) # qs)"
    by (simp_all add: streams_def)
  note K = numbered_reaches [OF num]
  have "\<not> XCB_SEQUENCE_COMPARE_32 (ucast K :: u32) (<) (request_read (c_in c))"
    using seq32_less_near [OF near] K by auto
  moreover have "current_reply (c_in c) = []" if "(ucast K :: u32) = ucast (request_read (c_in c))"
    using box that by (simp add: mailbox_def)
  moreover have "(ucast K :: u32) \<noteq> ucast (request_completed (c_in c))"
  proof
    assume "(ucast K :: u32) = ucast (request_completed (c_in c))"
    then have "unat K mod 4294967296 = unat (request_completed (c_in c)) mod 4294967296"
      by (metis unat_low32)
    with K compl show False by (simp add: word_less_nat_alt)
  qed
  ultimately have "reply_head (ucast K) c w = None" using nz by (auto simp: reply_head_blocks seq32_eq ucast32_id)
  then show ?thesis by (simp add: poll_for_reply_def)
qed

lemma arrived_poll:
  assumes ar: "arrived K bs c w" and nz: "(ucast K :: u32) \<noteq> 0" and ty: "response_type (get_genrep bs) = XCB_REPLY"
  shows "\<exists>c'. poll_for_reply (ucast K) want c w = (Some \<lparr>pr_reply = Some (plain_reply bs), pr_error = None\<rparr>, c', w)
     \<and> readers (c_in c') = readers (c_in c)"
proof -
  from ar obtain ps xs where st: "streams K ps c w" and box: "mailbox c (ucast K) = plain_reply bs # xs"
    and le: "K \<le> request_read (c_in c)" by (auto simp: arrived_def)
  then have inv: "in_inv c" "os_mallocs w = []" and near: "near32 K (request_read (c_in c))" by (simp_all add: streams_def)
  have "XCB_SEQUENCE_COMPARE_32 (ucast K :: u32) (\<le>) (request_read (c_in c))"
    using seq32_less_near [OF near] le by (auto simp: seq32_le_iff ucast32_id)
  from reply_head_Some [OF inv nz this box] obtain c' m r where
    h: "reply_head (ucast K) c w = Some (Some (plain_reply bs), c', w)"
    and c': "c' = c\<lparr>c_in := (c_in c)\<lparr>replies := m, current_reply := r\<rparr>\<rparr>" by blast
  have "contents (plain_reply bs) ! 0 \<noteq> XCB_ERROR"
    using ty by (simp add: plain_reply_def get_genrep_def packet_consts)
  with h c' show ?thesis by (simp add: poll_for_reply_def split_reply_def)
qed

section \<open>Waiting\<close>

lemma waiting_frame:
  "waiting K bs (add_reading d c) w = waiting K bs c w" "arrived K bs (add_reading d c) w = arrived K bs c w"
  "waiting K bs (map_readers f c) w = waiting K bs c w"
  "waiting K bs c (w\<lparr>os_polls := ps\<rparr>) = waiting K bs c w" "waiting K bs c (w\<lparr>os_next_cond := k\<rparr>) = waiting K bs c w"
  by (simp_all add: waiting_def arrived_def streams_def instream_def add_reading_def map_readers_def mailbox_def in_inv_def)

lemma wait_loop_stream:
  assumes nz: "(ucast K :: u32) \<noteq> 0"
  shows "waiting K bs c w \<Longrightarrow> length (in_queue (c_in c)) < 32 \<Longrightarrow> reading (c_in c) = 0
     \<Longrightarrow> \<forall>p \<in> set (os_polls w). p = PollOk POLLIN \<Longrightarrow> length (recv_bytes (os_recvs w)) \<le> length (os_polls w)
     \<Longrightarrow> \<exists>c' w'. wait_reply_loop (ucast K) want c w = Some (\<lparr>pr_reply = Some (plain_reply bs), pr_error = None\<rparr>, c', w')
       \<and> readers (c_in c') = readers (c_in c)"
proof (induction "length (recv_bytes (os_recvs w))" arbitrary: c w rule: less_induct)
  case less
  have ty: "response_type (get_genrep bs) = XCB_REPLY" and oth: "os_others w = []"
    using less.prems(1) by (auto simp: waiting_def streams_def)
  have "waiting K bs (add_reading 1 c) (w\<lparr>os_polls := tl (os_polls w)\<rparr>)" "length (in_queue (c_in (add_reading 1 c))) < 32"
    using less.prems(1,2) by (simp_all add: waiting_frame)
  from in_read_stream [OF this] obtain c1 w1 where
    rd: "xcb_in_read (add_reading 1 c) (w\<lparr>os_polls := tl (os_polls w)\<rparr>) = Some (True, c1, w1)"
    and ph: "waiting K bs c1 w1 \<or> arrived K bs c1 w1" and polls: "os_polls w1 = tl (os_polls w)"
    and short: "length (in_queue (c_in c1)) < 32" and fewer: "length (recv_bytes (os_recvs w1)) < length (recv_bytes (os_recvs w))"
    by auto
  have "os_polls w = PollOk POLLIN # tl (os_polls w)"
    using less.prems(4,5) fewer by (cases "os_polls w") auto
  note cw = conn_wait_reply [OF less.prems(3) oth this rd]
  let ?c = "add_reading (- 1) c1"
  have same: "reading (c_in c1) = reading (c_in c) + 1" "readers (c_in c1) = readers (c_in c)"
    using reads_only_in_read(1) [OF rd] by (simp_all add: reads_only_def) (simp_all add: add_reading_def)
  have step: "wait_reply_loop (ucast K) want c w = wait_reply_loop (ucast K) want ?c w1"
    using cw waiting_poll [OF less.prems(1) nz, of want] by (simp add: wait_reply_loop.simps [of _ want c])
  have rds: "readers (c_in ?c) = readers (c_in c)" using same by (simp add: add_reading_def)
  show ?case
  proof (cases "waiting K bs c1 w1")
    case True
    have "\<forall>p \<in> set (os_polls w1). p = PollOk POLLIN" "length (recv_bytes (os_recvs w1)) \<le> length (os_polls w1)"
      using less.prems(4,5) fewer polls by (cases "os_polls w"; simp)+
    moreover have "waiting K bs ?c w1" "length (in_queue (c_in ?c)) < 32" "reading (c_in ?c) = 0"
      using True short same less.prems(3) by (simp_all add: waiting_frame) (simp add: add_reading_def)
    ultimately show ?thesis using less.hyps [OF fewer, of ?c] step rds by simp
  next
    case False
    with ph have "arrived K bs ?c w1" by (simp add: waiting_frame)
    from arrived_poll [OF this nz ty, of want] step rds show ?thesis
      by (auto simp: wait_reply_loop.simps [of _ want ?c])
  qed
qed

text \<open>
  C7: A reply that the server sends reaches the caller. A thread alone on the connection waits for
  request \<open>K\<close>, which has been written, is answered by a reply and not complete. The server sends
  any packets that come before that reply (answers to earlier requests, events), the reply, and
  any packets after it; the socket delivers the bytes in pieces of any size, cut anywhere. Then
  \<open>xcb_wait_for_reply\<close> returns, with exactly the bytes of the reply and no error, and leaves the
  list of waiting readers as it was.
\<close>

theorem wait_for_reply_finds:
  assumes "\<not> has_error c" and "alone c w" and "reading (c_in c) = 0" and "os_mallocs w = []" and "in_inv c"
    and "xcb_out_flush_to (widen_request (out_request (c_out c)) (ucast K)) c w = Some (True, c, w)"
    and "os_next_cond w \<notin> rd_cond ` set (readers (c_in c))"
    and "mailbox c (ucast K) = []" and "request_completed (c_in c) < K" and "(ucast K :: u32) \<noteq> 0"
    and "near32 K (request_read (c_in c))" and "\<forall>j \<in> fst ` set (replies (c_in c)). unat j < unat (request_read (c_in c))"
    and "pend_fine K (pending_replies (c_in c))" and "length (in_queue (c_in c)) < 32"
    and "numbered (request_read (c_in c)) (ps @ (K, bs) # qs)" and "response_type (get_genrep bs) = XCB_REPLY"
    and "\<forall>x \<in> set ps. early K x" and "\<forall>x \<in> set qs. unat (fst x) < unat K + 2 ^ 31"
    and "instream c w = concat (map snd (ps @ (K, bs) # qs))" and "data_only (os_recvs w)"
    and "\<forall>p \<in> set (os_polls w). p = PollOk POLLIN" and "length (recv_bytes (os_recvs w)) \<le> length (os_polls w)"
  shows "\<exists>c' w'. xcb_wait_for_reply (ucast K) want c w =
      Some (\<lparr>pr_reply = Some \<lparr>contents = bs, full_sequence = None, xge_data = []\<rparr>, pr_error = None\<rparr>, c', w')
    \<and> readers (c_in c') = readers (c_in c)"
proof -
  let ?rd = "\<lparr>rd_request = ucast K, rd_cond = os_next_cond w\<rparr>"
  let ?c = "map_readers (insert_reader ?rd) c" and ?w = "w\<lparr>os_next_cond := os_next_cond w + 1\<rparr>"
  have K: "request_read (c_in c) \<le> K" "unat K < 2 ^ 32" using numbered_reaches [OF assms(15)] by simp_all
  have "unat (request_read (c_in c)) < 2 ^ 32" using K by (simp add: word_le_nat_alt)
  moreover have "unat (fst x) < unat K + 2 ^ 31" if "x \<in> set ps" for x
    using assms(17) that by (auto simp: early_def word_less_nat_alt)
  ultimately have "streams K (ps @ (K, bs) # qs) c w"
    using assms by (auto simp: streams_def alone_def)
  with assms(8,9,16,17) have "waiting K bs c w" by (auto simp: waiting_def)
  then have wt: "waiting K bs ?c ?w" by (simp add: waiting_frame)
  have pre: "length (in_queue (c_in ?c)) < 32" "reading (c_in ?c) = 0" "\<forall>p \<in> set (os_polls ?w). p = PollOk POLLIN"
    "length (recv_bytes (os_recvs ?w)) \<le> length (os_polls ?w)"
    using assms(3,14,21,22) by (simp_all add: map_readers_def)
  from wait_loop_stream [OF assms(10) wt pre, of want] obtain c' w' where
    loop: "wait_reply_loop (ucast K) want ?c ?w = Some (\<lparr>pr_reply = Some (plain_reply bs), pr_error = None\<rparr>, c', w')"
    and rds: "readers (c_in c') = insert_reader ?rd (readers (c_in c))"
    by auto
  have "remove_reader ?rd (readers (c_in c')) = readers (c_in c)"
    using assms(7) by (simp add: rds remove_insert_reader)
  moreover have "return_socket (c_out c) = None" using assms(2) by (simp add: alone_def)
  ultimately show ?thesis
    using assms(1,6) loop by (simp add: xcb_wait_for_reply_def plain_reply_def)
qed

text \<open>Witness: an event of request 1 and the reply to request 2, cut after 40 bytes.\<close>

definition two_sent :: xcb_connection_t where
  "two_sent = zero_conn\<lparr>c_out := zero_out\<lparr>out_request := 2, request_written := 2\<rparr>\<rparr>"

definition cut_os :: os where
  "cut_os = (let bs = packet32 2 1 0 @ packet32 XCB_REPLY 2 0
     in quiet_os\<lparr>os_recvs := [RData (take 40 bs), RData (drop 40 bs)], os_polls := replicate 64 (PollOk POLLIN)\<rparr>)"

lemma packet32_ok: "ty \<noteq> XCB_XGE_EVENT \<Longrightarrow> packet_ok (packet32 ty s 0)"
  by (simp add: packet_ok_def xge_length_def)

lemma packet32_nonempty: "packet32 ty s len \<noteq> []"
  by (simp add: packet32_def)

theorem wait_for_reply_finds_witness:
  "\<exists>c' w'. xcb_wait_for_reply 2 True two_sent cut_os =
     Some (\<lparr>pr_reply = Some \<lparr>contents = packet32 XCB_REPLY 2 0, full_sequence = None, xge_data = []\<rparr>, pr_error = None\<rparr>, c', w')
   \<and> readers (c_in c') = []"
proof -
  let ?ps = "[(1 :: u64, packet32 2 1 0)]"
  have "instream two_sent cut_os = packet32 2 1 0 @ packet32 XCB_REPLY 2 0"
    by (simp add: instream_def cut_os_def two_sent_def zero_defs Let_def)
  then have "\<exists>c' w'. xcb_wait_for_reply (ucast (2 :: u64)) True two_sent cut_os =
      Some (\<lparr>pr_reply = Some \<lparr>contents = packet32 XCB_REPLY 2 0, full_sequence = None, xge_data = []\<rparr>, pr_error = None\<rparr>, c', w')
    \<and> readers (c_in c') = readers (c_in two_sent)"
    by (intro wait_for_reply_finds [where ps = ?ps and qs = "[]"])
      (simp_all add: alone_def xcb_out_flush_to_def widen_request_def XCB_SEQUENCE_COMPARE_def in_inv_def mailbox_def
        map_entries_def near32_def pend_fine_def packet32_ok packet32_nonempty early_def two_sent_def cut_os_def zero_defs Let_def packet_consts)
  then show ?thesis by (simp add: two_sent_def zero_defs)
qed

end
