(* ===== verification/XcbPipe.thy ===== *)
theory XcbPipe
  imports XcbInterleave XcbSession "HOL-Library.Sublist"
begin

text \<open>
  Threads that share a connection share one pipe. The machine of \<open>XcbMonitor\<close> is extended by a log,
  which no code reads: when a call of \<open>xcb_send_request\<close> is given its number, the thread, the number and the
  bytes of the request are entered. The property is that the bytes the kernel has taken, those in the
  hands of the one thread that writes, and those in the output queue are together the bytes of
  the log, whole and in the order of the numbers, however the threads take turns.
\<close>

section \<open>The log\<close>

type_synonym log = "(nat \<times> u64 \<times> byte list) list"

definition log_bytes :: "log \<Rightarrow> byte list" where
  "log_bytes L = concat (map (snd \<circ> snd) L)"

definition log_numbers :: "log \<Rightarrow> u64 list" where
  "log_numbers L = map (fst \<circ> snd) L"

text \<open>The request a call, or a thread that sleeps inside of one, has still to number.\<close>

fun call_asks :: "blocking_call \<Rightarrow> (u32 \<times> iovecs) option" where
  "call_asks (Do_request flags spare vector big req) = Some (big, vector)"
| "call_asks _ = None"

fun still_asks :: "control \<Rightarrow> (u32 \<times> iovecs) option" where
  "still_asks (On_out_request b flags spare vector big req) = Some (big, vector)"
| "still_asks _ = None"

text \<open>
  What a stretch of code by thread \<open>i\<close> enters: nothing if it gave out no number, and otherwise the
  request, with the sync request in front when it took two numbers.
\<close>

definition new_bytes :: "(u32 \<times> iovecs) option \<Rightarrow> xcb_connection_t \<Rightarrow> xcb_connection_t \<Rightarrow> byte list" where
  "new_bytes ask c c' = (case ask of
       None \<Rightarrow> []
     | Some (big, vector) \<Rightarrow>
         (if out_request (c_out c') = out_request (c_out c) then []
          else (if out_request (c_out c') = out_request (c_out c) + 1 then [] else sync_req) @ wire_form big vector))"

definition entered :: "nat \<Rightarrow> (u32 \<times> iovecs) option \<Rightarrow> xcb_connection_t \<Rightarrow> xcb_connection_t \<Rightarrow> log" where
  "entered i ask c c' =
     (if ask = None \<or> out_request (c_out c') = out_request (c_out c) then []
      else [(i, out_request (c_out c'), new_bytes ask c c')])"

inductive logged_step :: "machine \<times> log \<Rightarrow> machine \<times> log \<Rightarrow> bool" where
  Begin: "i < length ts \<Longrightarrow> ts ! i = Outside r \<Longrightarrow> call_ok call c \<Longrightarrow> room c
    \<Longrightarrow> start call c (w\<lparr>os_signals := []\<rparr>) = Some (t, c', w')
    \<Longrightarrow> signals (os_signals w') (ts[i := Outside r]) ts'
    \<Longrightarrow> logged_step ((ts, c, w), L) ((ts'[i := t], c', w'), L @ entered i (call_asks call) c c')"
| Continue: "i < length ts \<Longrightarrow> runnable (ts ! i) \<Longrightarrow> room c
    \<Longrightarrow> resume p (ts ! i) c (w\<lparr>os_signals := []\<rparr>) = Some (t, c', w')
    \<Longrightarrow> signals (os_signals w') (ts[i := Outside r]) ts'
    \<Longrightarrow> logged_step ((ts, c, w), L) ((ts'[i := t], c', w'), L @ entered i (still_asks (ts ! i)) c c')"
| Quick: "run_quick q c (w\<lparr>os_signals := []\<rparr>) = Some (c', w') \<Longrightarrow> signals (os_signals w') ts ts'
    \<Longrightarrow> logged_step ((ts, c, w), L) ((ts', c', w'), L)"
| Spurious: "i < length ts \<Longrightarrow> logged_step ((ts, c, w), L) ((ts[i := wake (ts ! i)], c, w), L)"
| System: "logged_step ((ts, c, w), L)
    ((ts, c, w\<lparr>os_mallocs := ms, os_recvs := rs, os_writevs := ws, os_polls := ps\<rparr>), L)"

inductive_cases logged_stepE: "logged_step (s, L) (s', L')"
inductive_cases machine_stepE: "machine_step s s'"

text \<open>The log neither restricts nor adds runs.\<close>

lemma logged_machine: "logged_step (s, L) (s', L') \<Longrightarrow> machine_step s s'"
  by (auto elim: logged_stepE intro: machine_step.intros)

lemma machine_logged: "machine_step s s' \<Longrightarrow> \<exists>L'. logged_step (s, L) (s', L')"
  by (auto elim!: machine_stepE intro: logged_step.intros)

lemma machine_run_logged:
  "machine_step\<^sup>*\<^sup>* s s' \<Longrightarrow> \<exists>L'. logged_step\<^sup>*\<^sup>* (s, L) (s', L')"
proof (induction rule: rtranclp_induct)
  case (step s1 s2)
  then obtain L1 L2 where "logged_step\<^sup>*\<^sup>* (s, L) (s1, L1)" "logged_step (s1, L1) (s2, L2)"
    using machine_logged by blast
  then show ?case by (blast intro: rtranclp.rtrancl_into_rtrancl)
qed blast

section \<open>What is in the hands of a thread\<close>

fun in_hand :: "control \<Rightarrow> byte list" where
  "in_hand (In_poll_send v p) = concat v"
| "in_hand _ = []"

definition carried :: "control list \<Rightarrow> byte list" where
  "carried ts = concat (map in_hand ts)"

text \<open>The number a call of \<open>xcb_send_request\<close> returns or will return.\<close>

fun answer :: "control \<Rightarrow> u32 option" where
  "answer (Outside (Some (Ret_request n))) = Some n"
| "answer (In_poll_send v (For_request n)) = Some n"
| "answer (On_out_flush b r (For_request n)) = Some n"
| "answer _ = None"

lemma in_hand_wake [simp]: "in_hand (wake t) = in_hand t" "answer (wake t) = answer t"
  by (cases t rule: answer.cases; simp)+

lemma in_hand_idle: "\<not> sending t \<Longrightarrow> in_hand t = []"
  by (cases t) simp_all

lemma awakened_maps:
  "list_all2 awakened ts ts' \<Longrightarrow> map in_hand ts' = map in_hand ts \<and> map answer ts' = map answer ts"
  by (induction rule: list_all2_induct) (auto simp: awakened_def)

lemma carried_idle: "senders ts = 0 \<Longrightarrow> carried ts = []"
  by (auto simp: carried_def counts_zero in_hand_idle)

lemma carried_one:
  assumes "i < length ts" and "senders (others i ts) = 0"
  shows "carried ts = in_hand (ts ! i)"
proof -
  have "carried (take i ts @ drop (Suc i) ts) = []" using assms(2) by (simp add: carried_idle others_def)
  then have "carried (take i ts) = []" "carried (drop (Suc i) ts) = []" by (simp_all add: carried_def)
  moreover have "carried ts = carried (take i ts) @ in_hand (ts ! i) @ carried (drop (Suc i) ts)"
    by (subst id_take_nth_drop [OF assms(1)]) (simp add: carried_def)
  ultimately show ?thesis by simp
qed

lemma carried_update: "in_hand t = in_hand (ts ! i) \<Longrightarrow> carried (ts[i := t]) = carried ts"
  unfolding carried_def map_update by (metis list_update_beyond list_update_id map_update not_le)

section \<open>What one stretch of code adds\<close>

text \<open>
  The stretch appends \<open>B\<close> to what is on the wire, in hand and in the queue, unless the connection is
  in error. It leaves all of it alone while another thread writes. What counts as written grows only
  when everything is on the wire.
\<close>

definition extends :: "byte list \<Rightarrow> xcb_connection_t \<Rightarrow> os \<Rightarrow> run \<Rightarrow> bool" where
  "extends B c w r \<longleftrightarrow> (case r of (t, c', w') \<Rightarrow>
     (has_error c \<longrightarrow> has_error c') \<and> prefix (os_wire w) (os_wire w')
     \<and> (has_error c' \<or> os_wire w' @ in_hand t @ out_queue (c_out c') = os_wire w @ out_queue (c_out c) @ B)
     \<and> (writing (c_out c) \<noteq> 0 \<longrightarrow> \<not> sending t \<and> os_wire w' = os_wire w \<and> out_queue (c_out c') = out_queue (c_out c) \<and> B = []
          \<and> request_written (c_out c') = request_written (c_out c))
     \<and> (request_written (c_out c') = request_written (c_out c)
        \<or> in_hand t = [] \<and> out_queue (c_out c') = [] \<and> request_written (c_out c') = out_request (c_out c')))"

lemma extends_error: "extends B c w (t, c', w') \<Longrightarrow> has_error c \<Longrightarrow> has_error c'"
  by (simp add: extends_def)

text \<open>A stretch that leaves the writing side alone.\<close>

lemma extends_none:
  assumes "keeps_output c w c' w'" and "\<not> sending t"
  shows "extends [] c w (t, c', w')"
  using assms by (auto simp: extends_def keeps_output_def in_hand_idle)

lemma keeps_output_trans:
  "keeps_output c w c1 w1 \<Longrightarrow> keeps_output c1 w1 c2 w2 \<Longrightarrow> keeps_output c w c2 w2"
  by (simp add: keeps_output_def)

lemma keeps_output_simps [simp]:
  "keeps_output c w c w" "keeps_output c w (map_readers f c1) w1 = keeps_output c w c1 w1"
  "keeps_output c w c1 (os_signal s w1) = keeps_output c w c1 w1"
  "keeps_output c w c1 (xcb_in_wake_up_next_reader c2 w1) = keeps_output c w c1 w1"
  "keeps_output c w (conn_wait_enter None c1) w1 = keeps_output c w c1 w1"
  "keeps_output c w c1 (w1\<lparr>os_next_cond := n\<rparr>) = keeps_output c w c1 w1"
  "keeps_output (map_readers f c) w c1 w1 = keeps_output c w c1 w1"
  "keeps_output c (w\<lparr>os_next_cond := n\<rparr>) c1 w1 = keeps_output c w c1 w1"
  by (simp_all add: keeps_output_def wake_up_next os_signal_def conn_wait_enter_def add_reading_def map_readers_def Let_def)

lemma poll_for_reply_output: "poll_for_reply k e c w = (r, c', w') \<Longrightarrow> keeps_output c w c' w'"
  by (auto simp: poll_for_reply_def split: option.splits prod.splits dest: reply_head_frame)

lemma run_reply_output:
  assumes "run_reply rd e c w = (t, c', w')"
  shows "keeps_output c w c' w' \<and> \<not> sending t \<and> answer t = None"
  using assms poll_for_reply_output
  by (auto simp: run_reply_def reply_finish_def Let_def split: prod.splits option.splits if_splits)

lemma get_event_output: "get_event c = (e, c') \<Longrightarrow> keeps_output c w c' w"
  using get_event_frame [of c e c'] by (simp add: keeps_output_def)

lemma run_event_output:
  assumes "run_event c w = (t, c', w')"
  shows "keeps_output c w c' w' \<and> \<not> sending t \<and> answer t = None"
  using assms by (auto simp: run_event_def split: prod.splits option.splits if_splits dest: get_event_output)

lemma send_done_output:
  assumes "send_done ret p c w = (t, c', w')"
  shows "keeps_output c w c' w' \<and> \<not> sending t \<and> (\<forall>n. answer t = Some n \<longrightarrow> n = 0 \<or> p = For_request n)"
proof (cases p)
  case (For_reply k e)
  with assms run_reply_output [of _ e _ _ t c' w'] show ?thesis
    by (auto simp: send_done_def start_reply_def Let_def keeps_output_def split: if_splits)
qed (use assms in \<open>auto simp: send_done_def keeps_output_def xcb_conn_shutdown_def split: if_splits\<close>)

lemma run_send_extends:
  assumes "writing (c_out c) = 0" and "out_queue (c_out c) = []" and "\<not> ret \<Longrightarrow> has_error c"
    and "run_send ret v p c w = r"
  shows "extends (concat v) c w r \<and> (\<forall>n. answer (fst r) = Some n \<longrightarrow> n = 0 \<or> p = For_request n)"
proof (cases "ret \<and> v \<noteq> []")
  case True
  with assms show ?thesis
    by (cases p) (auto simp: run_send_def extends_def conn_wait_enter_def add_reading_def add_writing_def)
next
  case False
  let ?c = "c\<lparr>c_out := (c_out c)\<lparr>request_written := out_request (c_out c)\<rparr>\<rparr>"
  obtain t c' w' where r: "r = (t, c', w')" by (metis prod_cases3)
  with False assms(4) have "send_done ret p ?c (os_signal (next_cond ?c) (os_signal OutCond w)) = (t, c', w')"
    by (auto simp: run_send_def wake_up_next Let_def)
  from send_done_output [OF this] False r assms(1-3) show ?thesis
    by (auto simp: extends_def keeps_output_def in_hand_idle os_signal_def)
qed

text \<open>The same from a state before, which differs in what has been queued and numbered.\<close>

lemma extends_from:
  assumes "extends B c1 w1 r" and "os_wire w1 = os_wire w" and "out_queue (c_out c1) @ B = out_queue (c_out c) @ B'"
    and "has_error c \<Longrightarrow> has_error c1" and "writing (c_out c) = 0"
    and "request_written (c_out c1) = request_written (c_out c)"
  shows "extends B' c w r"
  using assms by (auto simp: extends_def)

lemma flush_wait_extends:
  assumes "flush_wait request p c w = Some r"
  shows "extends [] c w r \<and> (\<forall>n. answer (fst r) = Some n \<longrightarrow> n = 0 \<or> p = For_request n)"
proof (cases "writing (c_out c) = 0")
  case True
  obtain t c' w' where r: "r = (t, c', w')" by (metis prod_cases3)
  with assms True have "send_done True p c w = (t, c', w')" by (simp add: flush_wait_def split: if_splits)
  from send_done_output [OF this] r extends_none show ?thesis by simp
next
  case False
  with assms have "r = (On_out_flush False request p, c, w)" by (simp add: flush_wait_def)
  then show ?thesis by (cases p) (auto simp: extends_none)
qed

lemma run_flush_extends:
  assumes "run_flush request p c w = Some r" and "writing (c_out c) \<noteq> 0 \<longrightarrow> out_queue (c_out c) = []"
  shows "extends [] c w r \<and> (\<forall>n. answer (fst r) = Some n \<longrightarrow> n = 0 \<or> p = For_request n)"
proof (cases "XCB_SEQUENCE_COMPARE (request_written (c_out c)) (\<ge>) request \<or> out_queue (c_out c) = []")
  case True
  obtain t c' w' where r: "r = (t, c', w')" by (metis prod_cases3)
  show ?thesis
  proof (cases "XCB_SEQUENCE_COMPARE (request_written (c_out c)) (\<ge>) request")
    case True
    with assms(1) r have "send_done True p c w = (t, c', w')" by (simp add: run_flush_def split: if_splits)
    from send_done_output [OF this] r extends_none show ?thesis by simp
  next
    case False
    with True assms(1) have "flush_wait request p c w = Some r" by (simp add: run_flush_def split: if_splits)
    then show ?thesis by (rule flush_wait_extends)
  qed
next
  case False
  then have w: "writing (c_out c) = 0" using assms(2) by blast
  from False assms(1) have "run_send True [out_queue (c_out c)] p (set_out_queue [] c) w = r"
    by (simp add: run_flush_def split: if_splits)
  from run_send_extends [OF _ _ _ this] w
  have e: "extends (out_queue (c_out c)) (set_out_queue [] c) w r"
    and a: "\<forall>n. answer (fst r) = Some n \<longrightarrow> n = 0 \<or> p = For_request n" by simp_all
  have "extends [] c w r" by (rule extends_from [OF e]) (simp_all add: w)
  with a show ?thesis by simp
qed

lemma run_request_extends:
  assumes "run_request flags spare v big req c w = Some (t, c', w')"
    and "return_socket (c_out c) = None" and "room c"
  shows "extends (new_bytes (Some (big, v)) c c') c w (t, c', w')
    \<and> (\<forall>n. answer t = Some n \<longrightarrow> n = 0 \<or> out_request (c_out c') \<noteq> out_request (c_out c) \<and> n = ucast (out_request (c_out c')))"
proof (cases "writing (c_out c) = 0")
  case False
  with assms show ?thesis
    by (auto simp: run_request_def new_bytes_def extends_none)
next
  case idle: True
  have lt: "unat (out_request (c_out c)) < 2 ^ 63" "unat (out_request (c_out c)) + 2 < 2 ^ 31"
    using assms(3) by (simp_all add: room_def)
  obtain wa synced c1 w1 spare1 v1 where
    nr: "number_request req wa (flags AND NOT XCB_REQUEST_RAW) c w = Some (synced, c1, w1)"
    and ap: "add_prefix synced big spare v = Some (spare1, v1)" and wa: "glx_workaround req (hd v) = Some wa"
    using assms(1) idle assms(2) by (auto simp: run_request_def bind_eq_Some_conv2)
  obtain spare2 v2 q where fq: "fill_queue spare1 v1 (out_queue (c_out c1)) = (spare2, v2, q)" by (metis prod_cases3)
  let ?n = "ucast (out_request (c_out c1)) :: u32"
  have r: "(t, c', w') = (if v2 = [] then (Outside (Some (Ret_request ?n)), set_out_queue q c1, w1)
        else run_send True (q # v2) (For_request ?n) (set_out_queue [] c1) w1)"
    using assms(1,2) idle nr ap wa fq by (auto simp: run_request_def Let_def split: if_splits)
  note n = number_request_spec [OF nr lt(1)] and f = fill_queue_spec [OF fq]
  have o: "out_request (c_out c1) = out_request (c_out c) + (if synced then 2 else 1)"
    using n(2) by (simp add: add.assoc)
  have stream: "q @ concat v2 = out_queue (c_out c) @ (if synced then sync_req else []) @ wire_form big v"
    using f add_prefix_spec [OF ap] n(2) by simp
  have same: "out_request (c_out c') = out_request (c_out c1)"
    using r by (auto simp: run_send_def Let_def dest: send_done_out split: if_splits)
  have nb: "new_bytes (Some (big, v)) c c' = (if synced then sync_req else []) @ wire_form big v"
    using o same by (simp add: new_bytes_def)
  show ?thesis
  proof (cases "v2 = []")
    case True
    with r nb stream n(2,5,6) o idle show ?thesis by (auto simp: extends_def)
  next
    case False
    with r have "run_send True (q # v2) (For_request ?n) (set_out_queue [] c1) w1 = (t, c', w')" by simp
    from run_send_extends [OF _ _ _ this] n(2) idle
    have e: "extends (concat (q # v2)) (set_out_queue [] c1) w1 (t, c', w')"
      and a: "\<forall>k. answer t = Some k \<longrightarrow> k = 0 \<or> For_request ?n = For_request k" by simp_all
    have "extends (new_bytes (Some (big, v)) c c') c w (t, c', w')"
      by (rule extends_from [OF e]) (use n(2,5,6) stream nb idle in simp_all)
    with a o same show ?thesis by auto
  qed
qed

lemma start_extends:
  assumes "shared_ok n m M c w" and "room c" and "start call c w = Some (t, c', w')"
  shows "extends (new_bytes (call_asks call) c c') c w (t, c', w')
    \<and> (\<forall>k. answer t = Some k \<longrightarrow> k = 0 \<or> call_asks call \<noteq> None \<and> out_request (c_out c') \<noteq> out_request (c_out c)
          \<and> k = ucast (out_request (c_out c')))"
proof -
  have q: "writing (c_out c) \<noteq> 0 \<longrightarrow> out_queue (c_out c) = []" and rs: "return_socket (c_out c) = None"
    using assms(1) by (auto simp: shared_ok_def)
  have quiet: ?thesis if "call_asks call = None" "extends [] c w (t, c', w')" "\<And>k. answer t = Some k \<Longrightarrow> k = 0"
    using that by (auto simp: new_bytes_def)
  show ?thesis
  proof (cases call)
    case Do_flush
    with assms(3) run_flush_extends [OF _ q, of _ For_flush w "(t, c', w')"] show ?thesis
      by (intro quiet) (auto split: if_splits intro: extends_none)
  next
    case (Do_request flags spare v big req)
    with assms(3) run_request_extends [OF _ rs assms(2), of flags spare v big req w t c' w'] show ?thesis by auto
  next
    case (Do_wait_for_reply k e)
    with assms(3) run_flush_extends [OF _ q, of _ "For_reply k e" w "(t, c', w')"] rs show ?thesis
      by (intro quiet) (auto split: if_splits intro: extends_none)
  next
    case Do_wait_for_event
    with assms(3) run_event_output [of c w t c' w'] show ?thesis
      by (intro quiet) (auto split: if_splits intro: extends_none)
  qed
qed

lemma leave_output:
  assumes "conn_wait_leave p vec c w = Some (ret, vec', c', w')"
  shows "(\<not> ret \<or> has_error c \<longrightarrow> has_error c')
    \<and> (case vec of None \<Rightarrow> os_wire w' = os_wire w | Some v \<Rightarrow> \<exists>v'. vec' = Some v' \<and> sent w v w' v')"
  using assms
proof (cases rule: conn_wait_leave_cases)
  case (io revents c2)
  have "has_error c \<longrightarrow> has_error c2" using conn_wait_io_spec(4) [OF io(1)] by (simp add: reads_only_def)
  then have e: "\<not> ret \<or> has_error c \<longrightarrow> has_error c'"
    using conn_wait_io_spec(3) [OF io(1)] io(2) by (auto simp: add_reading_def add_writing_def)
  show ?thesis
  proof (cases vec)
    case None
    with io(1) have "os_wire w' = os_wire w"
      by (auto simp: conn_wait_io_def bind_eq_Some_conv2 reads_only_def dest!: reads_only_in_read(1) split: if_splits)
    with e None show ?thesis by simp
  next
    case (Some v)
    with e conn_wait_io_spec(2) [OF io(1)] show ?thesis by simp
  qed
next
  case failed
  then show ?thesis by (cases vec) (simp_all add: add_reading_def add_writing_def xcb_conn_shutdown_def)
qed

text \<open>A stretch that starts with bytes in the hands of the thread.\<close>

definition continues :: "control \<Rightarrow> byte list \<Rightarrow> xcb_connection_t \<Rightarrow> os \<Rightarrow> run \<Rightarrow> bool" where
  "continues t0 B c w r \<longleftrightarrow> (case r of (t, c', w') \<Rightarrow>
     (has_error c \<longrightarrow> has_error c') \<and> prefix (os_wire w) (os_wire w')
     \<and> (has_error c' \<or> os_wire w' @ in_hand t @ out_queue (c_out c') = os_wire w @ in_hand t0 @ out_queue (c_out c) @ B)
     \<and> (\<not> sending t0 \<and> writing (c_out c) \<noteq> 0 \<longrightarrow> extends B c w r)
     \<and> (request_written (c_out c') = request_written (c_out c)
        \<or> in_hand t = [] \<and> out_queue (c_out c') = [] \<and> request_written (c_out c') = out_request (c_out c')))"

lemma extends_continues: "\<not> sending t0 \<Longrightarrow> extends B c w r \<Longrightarrow> continues t0 B c w r"
  by (auto simp: continues_def extends_def in_hand_idle)

lemma resume_continues:
  assumes "shared_ok (of_bool (in_poll t0) + n) (of_bool (sending t0) + m) M c w" and "room c"
    and "control_ok (unat (out_request (c_out c))) t0" and "resume p t0 c w = Some (t, c', w')"
  shows "continues t0 (new_bytes (still_asks t0) c c') c w (t, c', w')
    \<and> (\<forall>k. answer t = Some k \<longrightarrow> k = 0 \<or> answer t0 = Some k \<or> still_asks t0 \<noteq> None
          \<and> out_request (c_out c') \<noteq> out_request (c_out c) \<and> k = ucast (out_request (c_out c')))"
proof -
  have quiet: ?thesis if "\<not> sending t0" "still_asks t0 = None" "extends [] c w (t, c', w')"
      "\<And>k. answer t = Some k \<Longrightarrow> k = 0 \<or> answer t0 = Some k"
    using that by (auto simp: new_bytes_def intro!: extends_continues)
  have reading: "keeps_output c w c1 w1" if "conn_wait_leave p None c w = Some (ret, v', c1, w1)" for ret v' c1 w1
    using leave_output [OF that] conn_wait_leave_spec [OF that] assms(1) by (simp add: keeps_output_def shared_ok_def)
  show ?thesis
  proof (cases t0)
    case (In_poll_send v p1)
    with assms(4) obtain ret v' c1 w1 where l: "conn_wait_leave p (Some v) c w = Some (ret, Some v', c1, w1)"
      and r: "run_send ret v' p1 c1 w1 = (t, c', w')" by (auto simp: bind_eq_Some_conv2)
    from leave_output [OF l] have e: "\<not> ret \<Longrightarrow> has_error c1" "has_error c \<Longrightarrow> has_error c1"
      and s: "sent w v w1 v'" by auto
    from conn_wait_leave_spec [OF l] have o: "c_out c1 = (c_out c)\<lparr>writing := writing (c_out c) - 1\<rparr>" by simp
    have m: "writing (c_out c1) = 0" "out_queue (c_out c) = []" using assms(1) In_poll_send o by (auto simp: shared_ok_def)
    from run_send_extends [OF m(1) _ e(1) r] m(2) o
    have x: "extends (concat v') c1 w1 (t, c', w')" "\<forall>k. answer t = Some k \<longrightarrow> k = 0 \<or> p1 = For_request k" by simp_all
    have "continues t0 [] c w (t, c', w')"
      using x(1) s e(2) o m In_poll_send by (auto simp: continues_def extends_def sent_def dest: append_prefixD)
    with x(2) In_poll_send show ?thesis by (auto simp: new_bytes_def)
  next
    case (In_poll_reply rd e)
    with assms(4) obtain ret v' c1 w1 where l: "conn_wait_leave p None c w = Some (ret, v', c1, w1)"
      and r: "(t, c', w') = (if ret then run_reply rd e c1 w1 else reply_finish rd no_reply c1 w1)"
      by (auto simp: bind_eq_Some_conv2)
    have "keeps_output c1 w1 c' w' \<and> \<not> sending t \<and> answer t = None"
      using r run_reply_output [of rd e c1 w1 t c' w'] by (auto simp: reply_finish_def Let_def split: if_splits)
    with reading [OF l] In_poll_reply keeps_output_trans show ?thesis by (intro quiet) (auto intro!: extends_none)
  next
    case In_poll_event
    with assms(4) obtain ret v' c1 w1 where l: "conn_wait_leave p None c w = Some (ret, v', c1, w1)"
      and r: "(t, c', w') = (if ret then run_event c1 w1 else (Outside (Some (Ret_event None)), c1, xcb_in_wake_up_next_reader c1 w1))"
      by (auto simp: bind_eq_Some_conv2)
    have "keeps_output c1 w1 c' w' \<and> \<not> sending t \<and> answer t = None"
      using r run_event_output [of c1 w1 t c' w'] by (auto split: if_splits)
    with reading [OF l] In_poll_event keeps_output_trans show ?thesis by (intro quiet) (auto intro!: extends_none)
  next
    case (On_out_flush b req p1)
    with assms(4) flush_wait_extends [of req p1 c w "(t, c', w')"] show ?thesis
      by (cases p1; intro quiet) auto
  next
    case (On_out_request b fl sp v big req)
    with assms(1,2,4) run_request_extends [of fl sp v big req c w t c' w'] show ?thesis
      by (auto simp: shared_ok_def intro!: extends_continues)
  next
    case (On_reader b rd e)
    with assms(4) run_reply_output [of rd e c w t c' w'] show ?thesis by (intro quiet) (auto intro: extends_none)
  next
    case (On_event b)
    with assms(4) run_event_output [of c w t c' w'] show ?thesis by (intro quiet) (auto intro: extends_none)
  qed (use assms(3,4) in auto)
qed

section \<open>The invariant\<close>

definition written_part :: "xcb_connection_t \<Rightarrow> log \<Rightarrow> log" where
  "written_part c L = filter (\<lambda>e. fst (snd e) \<le> request_written (c_out c)) L"

text \<open>The last entry of thread \<open>i\<close> has the number \<open>k\<close>.\<close>

definition latest :: "nat \<Rightarrow> log \<Rightarrow> u32 \<Rightarrow> bool" where
  "latest i L k \<longleftrightarrow> (\<exists>L1 n b L2. L = L1 @ (i, n, b) # L2 \<and> i \<notin> fst ` set L2 \<and> k = ucast n)"

definition pipe_inv :: "byte list \<Rightarrow> machine \<times> log \<Rightarrow> bool" where
  "pipe_inv W s \<longleftrightarrow> (case s of ((ts, c, w), L) \<Rightarrow> machine_inv (ts, c, w)
     \<and> (has_error c \<or> os_wire w @ carried ts @ out_queue (c_out c) = W @ log_bytes L
          \<and> prefix (W @ log_bytes (written_part c L)) (os_wire w))
     \<and> sorted_wrt (<) (log_numbers L) \<and> (\<forall>n \<in> set (log_numbers L). n \<le> out_request (c_out c))
     \<and> (\<forall>i < length ts. \<forall>k. answer (ts ! i) = Some k \<longrightarrow> k = 0 \<or> latest i L k))"

lemma log_append [simp]:
  "log_bytes (L @ L') = log_bytes L @ log_bytes L'" "log_numbers (L @ L') = log_numbers L @ log_numbers L'"
  "written_part c (L @ L') = written_part c L @ written_part c L'"
  "log_bytes [] = []" "log_numbers [] = []" "written_part c [] = []"
  by (simp_all add: log_bytes_def log_numbers_def written_part_def)

lemma entered_bytes [simp]: "log_bytes (entered i ask c c') = new_bytes ask c c'"
  by (cases ask) (auto simp: entered_def log_bytes_def new_bytes_def)

lemma entered_numbers:
  "set (log_numbers (entered i ask c c')) \<subseteq> {out_request (c_out c')} - {out_request (c_out c)}"
  "sorted_wrt (<) (log_numbers (entered i ask c c'))"
  by (auto simp: entered_def log_numbers_def)

lemma written_same:
  "request_written (c_out c') = request_written (c_out c) \<Longrightarrow> written_part c' L = written_part c L"
  by (simp add: written_part_def)

lemma entered_not_written:
  assumes "request_written (c_out c) \<le> out_request (c_out c)" and "out_request (c_out c) \<le> out_request (c_out c')"
  shows "written_part c (entered i ask c c') = []"
  using assms by (auto simp: entered_def written_part_def)

lemma written_all:
  "\<forall>n \<in> set (log_numbers L). n \<le> request_written (c_out c) \<Longrightarrow> written_part c L = L"
  by (auto simp: written_part_def log_numbers_def intro!: filter_True)

lemma latest_others: "latest i L k \<Longrightarrow> j \<noteq> i \<or> ask = None \<Longrightarrow> latest i (L @ entered j ask c c') k"
  by (fastforce simp: latest_def entered_def)

lemma latest_entered:
  "ask \<noteq> None \<Longrightarrow> out_request (c_out c') \<noteq> out_request (c_out c) \<Longrightarrow>
     latest i (L @ entered i ask c c') (ucast (out_request (c_out c')))"
  by (fastforce simp: latest_def entered_def)

lemma answer_not_asking: "answer t = Some k \<Longrightarrow> still_asks t = None"
  by (cases t) simp_all

text \<open>A stretch by thread \<open>i\<close> keeps the stream and the log in step.\<close>

lemma section_stream:
  assumes i: "i < length ts" and sg: "signals cs (ts[i := Outside r]) ts'"
    and sh: "machine_inv (ts, c, w)" and run: "continues (ts ! i) (new_bytes ask c c') c w (t, c', w')"
    and mono: "out_request (c_out c) \<le> out_request (c_out c')"
    and nums: "\<forall>n \<in> set (log_numbers (L @ entered i ask c c')). n \<le> out_request (c_out c')"
    and st: "os_wire w @ carried ts @ out_queue (c_out c) = W @ log_bytes L"
    and pre: "prefix (W @ log_bytes (written_part c L)) (os_wire w)" and ok: "\<not> has_error c'"
  shows "os_wire w' @ carried (ts'[i := t]) @ out_queue (c_out c') = W @ log_bytes (L @ entered i ask c c')
    \<and> prefix (W @ log_bytes (written_part c' (L @ entered i ask c c'))) (os_wire w')"
proof -
  have rw: "request_written (c_out c) \<le> out_request (c_out c)"
    and wr: "writing (c_out c) = int (senders ts)" "senders ts \<le> 1"
    using sh by (auto simp: machine_inv_def shared_ok_def word_le_nat_alt)
  have grow: "prefix (os_wire w) (os_wire w')" using run by (simp add: continues_def)
  have keep: "prefix (W @ log_bytes (written_part c' (L @ entered i ask c c'))) (os_wire w')"
    if "request_written (c_out c') = request_written (c_out c)"
    using prefix_order.trans [OF pre grow] by (simp add: written_same [OF that] entered_not_written [OF rw mono])
  show ?thesis
  proof (cases "writing (c_out c) \<noteq> 0 \<and> \<not> sending (ts ! i)")
    case True
    with run have e: "extends (new_bytes ask c c') c w (t, c', w')" by (simp add: continues_def)
    with True have same: "in_hand t = []" "os_wire w' = os_wire w" "out_queue (c_out c') = out_queue (c_out c)"
      "new_bytes ask c c' = []" "request_written (c_out c') = request_written (c_out c)"
      by (simp_all add: extends_def in_hand_idle)
    have "carried (ts'[i := t]) = carried ts'"
      by (rule carried_update) (simp add: same(1) after_index(2) [OF i sg])
    also have "\<dots> = carried (ts[i := Outside r])"
      using awakened_maps [OF signals_awakened [OF sg]] by (simp add: carried_def)
    also have "\<dots> = carried ts"
      by (rule carried_update) (use True in \<open>simp add: in_hand_idle\<close>)
    finally have "carried (ts'[i := t]) = carried ts" .
    with same st keep show ?thesis by simp
  next
    case False
    then have none: "senders (others i ts) = 0"
      using wr counts_but_one(2) [OF i] by (cases "sending (ts ! i)") simp_all
    have now: "carried (ts'[i := t]) = in_hand t"
      using carried_one [of i "ts'[i := t]"] after_index(1) [OF i sg] after_counts(2) [OF i sg] none by simp
    have "carried ts = in_hand (ts ! i)" by (rule carried_one [OF i none])
    with run st ok now have stream: "os_wire w' @ carried (ts'[i := t]) @ out_queue (c_out c') = W @ log_bytes (L @ entered i ask c c')"
      by (simp add: continues_def)
    from run have "request_written (c_out c') = request_written (c_out c)
        \<or> in_hand t = [] \<and> out_queue (c_out c') = [] \<and> request_written (c_out c') = out_request (c_out c')"
      by (simp add: continues_def)
    then show ?thesis
    proof
      assume "in_hand t = [] \<and> out_queue (c_out c') = [] \<and> request_written (c_out c') = out_request (c_out c')"
      with stream now nums show ?thesis by (simp add: written_all del: log_append(3))
    qed (use keep stream in simp)
  qed
qed

lemma section_log:
  assumes "sorted_wrt (<) (log_numbers L)" and "\<forall>n \<in> set (log_numbers L). n \<le> out_request (c_out c)"
    and "out_request (c_out c) \<le> out_request (c_out c')"
  shows "sorted_wrt (<) (log_numbers (L @ entered i ask c c'))
    \<and> (\<forall>n \<in> set (log_numbers (L @ entered i ask c c')). n \<le> out_request (c_out c'))"
proof -
  have new: "n = out_request (c_out c') \<and> out_request (c_out c) < n" if "n \<in> set (log_numbers (entered i ask c c'))" for n
    using that entered_numbers(1) [of i ask c c'] assms(3) by auto
  then have "sorted_wrt (<) (log_numbers L @ log_numbers (entered i ask c c'))"
    using assms(1,2) entered_numbers(2) [of i ask c c'] by (fastforce simp: sorted_wrt_append)
  with new assms(2,3) show ?thesis by (auto intro: order_trans)
qed

lemma section_pipe:
  assumes i: "i < length ts" and sg: "signals cs (ts[i := Outside r]) ts'" and inv: "pipe_inv W ((ts, c, w), L)"
    and next_ok: "machine_inv (ts'[i := t], c', w')" and run: "continues (ts ! i) (new_bytes ask c c') c w (t, c', w')"
    and mono: "out_request (c_out c) \<le> out_request (c_out c')"
    and ans: "\<forall>k. answer t = Some k \<longrightarrow> k = 0 \<or> answer (ts ! i) = Some k \<and> ask = None
      \<or> ask \<noteq> None \<and> out_request (c_out c') \<noteq> out_request (c_out c) \<and> k = ucast (out_request (c_out c'))"
  shows "pipe_inv W ((ts'[i := t], c', w'), L @ entered i ask c c')"
proof -
  let ?L = "L @ entered i ask c c'"
  from inv have old: "sorted_wrt (<) (log_numbers L)" "\<forall>n \<in> set (log_numbers L). n \<le> out_request (c_out c)"
    and sh: "machine_inv (ts, c, w)" and ans0: "\<And>j k. j < length ts \<Longrightarrow> answer (ts ! j) = Some k \<Longrightarrow> k = 0 \<or> latest j L k"
    by (auto simp: pipe_inv_def)
  note nums = section_log [OF old mono, of i ask]
  have "has_error c' \<or> os_wire w' @ carried (ts'[i := t]) @ out_queue (c_out c') = W @ log_bytes ?L
      \<and> prefix (W @ log_bytes (written_part c' ?L)) (os_wire w')"
  proof (cases "has_error c'")
    case False
    with run have "\<not> has_error c" by (auto simp: continues_def)
    with inv have "os_wire w @ carried ts @ out_queue (c_out c) = W @ log_bytes L"
      and "prefix (W @ log_bytes (written_part c L)) (os_wire w)" by (auto simp: pipe_inv_def)
    from section_stream [OF i sg sh run mono conjunct2 [OF nums] this False] show ?thesis by blast
  qed simp
  moreover have "k = 0 \<or> latest j ?L k" if j: "j < length (ts'[i := t])" "answer (ts'[i := t] ! j) = Some k" for j k
  proof (cases "j = i")
    case True
    with j ans ans0 [OF i, of k] latest_others [of i L k i ask c c'] latest_entered [of ask c' c i L] show ?thesis by auto
  next
    case False
    have len: "length ts' = length ts" using after_index(1) [OF i sg] awakened_counts [OF signals_awakened [OF sg]] by simp
    have "map answer ts' ! j = map answer (ts[i := Outside r]) ! j" using awakened_maps [OF signals_awakened [OF sg]] by simp
    then have "answer (ts ! j) = Some k" using j False len by simp
    with ans0 [of j k] j(1) len False latest_others [of j L k i ask c c'] show ?thesis by auto
  qed
  ultimately show ?thesis using next_ok nums by (simp add: pipe_inv_def del: log_append)
qed

lemma pipe_quiet:
  assumes "pipe_inv W ((ts, c, w), L)" and "list_all2 awakened ts ts'" and "keeps_output c w c' w'" and "machine_inv (ts', c', w')"
  shows "pipe_inv W ((ts', c', w'), L)"
proof -
  have o: "c_out c' = c_out c" "os_wire w' = os_wire w" "has_error c \<longrightarrow> has_error c'" using assms(3) by (simp_all add: keeps_output_def)
  have "carried ts' = carried ts" using awakened_maps [OF assms(2)] by (simp add: carried_def)
  moreover have "answer (ts' ! j) = answer (ts ! j)" "length ts' = length ts" if "j < length ts'" for j
    using awakened_nth [OF assms(2), of j] list_all2_lengthD [OF assms(2)] that by auto
  ultimately show ?thesis using assms(1,4) o by (auto simp: pipe_inv_def written_part_def)
qed

lemma discard_output: "discard_reply k c w = (c', w') \<Longrightarrow> keeps_output c w c' w'"
  by (auto simp: discard_reply_def insert_pending_discard_def keeps_output_def xcb_conn_shutdown_def Let_def malloc_ok_def
      split: if_splits prod.splits list.splits option.splits)

lemma run_quick_output: "run_quick q c w = Some (c', w') \<Longrightarrow> keeps_output c w c' w'"
  by (cases q) (auto simp: bind_eq_Some_conv2 xcb_discard_reply_def split: if_splits prod.splits
      dest: poll_event_frame poll_reply_frame discard_output)

lemma keeps_output_signals [simp]: "keeps_output c (w\<lparr>os_signals := []\<rparr>) c' w' = keeps_output c w c' w'"
  by (simp add: keeps_output_def)

lemma continues_signals [simp]: "continues t B c (w\<lparr>os_signals := []\<rparr>) r = continues t B c w r"
  by (simp add: continues_def extends_def)

lemma logged_step_inv: "logged_step x y \<Longrightarrow> pipe_inv W x \<Longrightarrow> pipe_inv W y"
proof (induction rule: logged_step.induct)
  case (Begin i ts r call c w t c' w' ts' L)
  note cnt = counts_but_one [OF Begin.hyps(1)]
  let ?w = "w\<lparr>os_signals := []\<rparr>"
  have inv: "machine_inv (ts, c, w)" using Begin.prems by (simp add: pipe_inv_def)
  have sh: "shared_ok (pollers (others i ts)) (senders (others i ts)) (waiting_readers (others i ts)) c ?w" "all_written c"
    using inv Begin.hyps(2) cnt by (simp_all add: machine_inv_def shared_ok_def)
  have mono: "out_request (c_out c) \<le> out_request (c_out c')"
    using start_ran [OF sh Begin.hyps(3-5)] by (simp add: ran_def)
  note e = start_extends [OF sh(1) Begin.hyps(4,5)]
  have run: "continues (ts ! i) (new_bytes (call_asks call) c c') c w (t, c', w')"
    using extends_continues [of "ts ! i", OF _ conjunct1 [OF e]] Begin.hyps(2) by simp
  from conjunct2 [OF e] Begin.hyps(2) show ?case
    by (intro section_pipe [OF Begin.hyps(1,6) Begin.prems machine_step_inv [OF machine_step.Begin [OF Begin.hyps] inv] run mono]) auto
next
  case (Continue i ts c p w t c' w' r ts' L)
  note cnt = counts_but_one [OF Continue.hyps(1)]
  let ?w = "w\<lparr>os_signals := []\<rparr>"
  have inv: "machine_inv (ts, c, w)" using Continue.prems by (simp add: pipe_inv_def)
  have sh: "shared_ok (of_bool (in_poll (ts ! i)) + pollers (others i ts)) (of_bool (sending (ts ! i)) + senders (others i ts))
      (held (ts ! i) + waiting_readers (others i ts)) c ?w" and aw: "all_written c"
    and ok: "control_ok (unat (out_request (c_out c))) (ts ! i)" and fl: "flush_safe (c_out c) (ts ! i)"
    using inv Continue.hyps(1) cnt by (simp_all add: machine_inv_def shared_ok_def)
  have mono: "out_request (c_out c) \<le> out_request (c_out c')"
    using resume_ran [OF sh aw ok Continue.hyps(2,3,4) fl] by (auto simp: ran_def)
  note e = resume_continues [OF sh Continue.hyps(3) ok Continue.hyps(4)]
  have run: "continues (ts ! i) (new_bytes (still_asks (ts ! i)) c c') c w (t, c', w')" using e by simp
  from conjunct2 [OF e] answer_not_asking [of "ts ! i"] show ?case
    by (intro section_pipe [OF Continue.hyps(1,5) Continue.prems
        machine_step_inv [OF machine_step.Continue [OF Continue.hyps] inv] run mono]) auto
next
  case (Quick q c w c' w' ts ts' L)
  have "machine_inv (ts, c, w)" using Quick.prems by (simp add: pipe_inv_def)
  then have "machine_inv (ts', c', w')" by (rule machine_step_inv [OF machine_step.Quick [OF Quick.hyps]])
  with run_quick_output [OF Quick.hyps(1)] show ?case
    by (intro pipe_quiet [OF Quick.prems signals_awakened [OF Quick.hyps(2)]]) simp_all
next
  case (Spurious i ts c w L)
  have "machine_inv (ts, c, w)" using Spurious.prems by (simp add: pipe_inv_def)
  then have "machine_inv (ts[i := wake (ts ! i)], c, w)" by (rule machine_step_inv [OF machine_step.Spurious [OF Spurious.hyps]])
  then show ?case by (intro pipe_quiet [OF Spurious.prems spurious_awakened]) simp_all
next
  case (System ts c w L ms rs ws ps)
  have "machine_inv (ts, c, w)" using System.prems by (simp add: pipe_inv_def)
  from machine_step_inv [OF machine_step.System this] show ?case
    by (intro pipe_quiet [OF System.prems]) (simp_all add: list_all2_same awakened_def keeps_output_def)
qed

lemma logged_reachable: "logged_step\<^sup>*\<^sup>* x y \<Longrightarrow> pipe_inv W x \<Longrightarrow> pipe_inv W y"
  by (induction rule: rtranclp_induct) (auto intro: logged_step_inv)

section \<open>One pipe for all threads\<close>

text \<open>
  C3: The threads share one pipe. Any number of threads send, flush and wait on a connection as
  \<open>xcb_connect_to_fd\<close> returns it, interleaved in any way, on any behaviour of the system. Unless the connection is in error, the bytes the kernel
  has taken, those the writing thread still has in hand and those in the queue are together the bytes of all
  requests that have been given a number, each whole, in the order of their numbers and whichever
  thread sent them; and every request up to \<open>request_written\<close>, which is what \<open>xcb_flush\<close> waits for, is with
  the kernel. The numbers are given out once, and the number \<open>xcb_send_request\<close> has returned to a thread, if not 0, is the
  one of the request that thread entered last.
\<close>

theorem threads_share_pipe:
  assumes "fresh_conn f c" and "os_others w = []"
    and "logged_step\<^sup>*\<^sup>* ((replicate k (Outside None), c, w), []) ((ts, c', w'), L)"
  shows "(has_error c' \<or> os_wire w' @ carried ts @ out_queue (c_out c') = os_wire w @ log_bytes L
        \<and> prefix (os_wire w @ log_bytes (written_part c' L)) (os_wire w'))
    \<and> sorted_wrt (<) (log_numbers L)
    \<and> (\<forall>i n. i < length ts \<and> ts ! i = Outside (Some (Ret_request n)) \<longrightarrow> n = 0 \<or> latest i L n)"
proof -
  have "carried (replicate k (Outside None)) = []" by (simp add: carried_idle counts_idle)
  then have "pipe_inv (os_wire w) ((replicate k (Outside None), c, w), [])"
    using machine_start [OF assms(1,2)] assms(1) by (auto simp: pipe_inv_def fresh_conn_def)
  from logged_reachable [OF assms(3) this] show ?thesis by (auto simp: pipe_inv_def)
qed

text \<open>Two threads send a request each, which stay in the queue.\<close>

lemma two_senders:
  "logged_step\<^sup>*\<^sup>* ((replicate 2 (Outside None), session_conn, quiet_os), [])
     (([Outside (Some (Ret_request 1)), Outside (Some (Ret_request 2))], two_sent, quiet_os),
      [(0, 1, [127, 0, 1, 0]), (1, 2, [43, 0, 1, 0])])"
proof -
  let ?call = "Do_request XCB_REQUEST_CHECKED 2 [[127, 0, 1, 0]] 0 sample_req"
    and ?call' = "Do_request 0 2 [[43, 0, 1, 0]] 0 reply_req"
  let ?ts = "[Outside None, Outside None]" and ?ts' = "[Outside (Some (Ret_request 1)), Outside None]"
  have room: "room session_conn" "room one_sent" by (simp_all add: room_def run_defs)
  have sg: "signals cs [Outside x, Outside y] [Outside x, Outside y]" for cs x y by (rule signals_none) simp
  have e: "entered 0 (call_asks ?call) session_conn one_sent = [(0, 1, [127, 0, 1, 0])]"
    "entered 1 (call_asks ?call') one_sent two_sent = [(1, 2, [43, 0, 1, 0])]"
    by (simp_all add: entered_def new_bytes_def wire_form_def run_defs)
  have "logged_step ((?ts, session_conn, quiet_os), []) ((?ts[0 := Outside (Some (Ret_request 1))], one_sent, quiet_os),
      [] @ entered 0 (call_asks ?call) session_conn one_sent)"
    by (rule logged_step.Begin [where r = None]) (use two_requests(1) room sg in \<open>simp_all add: nonempty_request_def\<close>)
  then have "logged_step\<^sup>*\<^sup>* ((?ts, session_conn, quiet_os), []) ((?ts', one_sent, quiet_os), [(0, 1, [127, 0, 1, 0])])"
    by (simp only: e) (simp add: r_into_rtranclp)
  also have "logged_step \<dots> ((?ts'[1 := Outside (Some (Ret_request 2))], two_sent, quiet_os),
      [(0, 1, [127, 0, 1, 0])] @ entered 1 (call_asks ?call') one_sent two_sent)"
    by (rule logged_step.Begin [where r = None]) (use two_requests(2) room sg in \<open>simp_all add: nonempty_request_def\<close>)
  finally show ?thesis by (simp only: e) (simp add: numeral_2_eq_2)
qed

theorem threads_share_pipe_witness:
  "os_wire quiet_os @ carried [Outside (Some (Ret_request 1)), Outside (Some (Ret_request 2))] @ out_queue (c_out two_sent)
     = [127, 0, 1, 0, 43, 0, 1, 0] \<and> latest 0 [(0, 1, [127, 0, 1, 0]), (1, 2, [43, 0, 1, 0])] 1"
proof -
  have o: "os_others quiet_os = []" and e: "\<not> has_error two_sent" by (simp_all add: quiet_os_def run_defs)
  from threads_share_pipe [OF fresh_session_conn o two_senders] e show ?thesis
    by (force simp: log_bytes_def quiet_os_def)
qed

end
