(* ===== verification/XcbDelivery.thy ===== *)
theory XcbDelivery
  imports XcbInterleave XcbApi
begin

text \<open>
  Threads get the answers they wait for. In the machine of \<open>XcbMonitor\<close> every stretch of code keeps the
  stores of the connection well typed, which includes that packets lie under the number of the request they
  answer (\<open>XcbTyped\<close>), and a call of \<open>xcb_wait_for_reply\<close> keeps its request number from lock to lock until
  it returns what it found under that number.
\<close>

section \<open>The request a call waits for\<close>

fun wanted :: "purpose \<Rightarrow> u32 option" where
  "wanted (For_reply k e) = Some k"
| "wanted _ = None"

fun wants :: "control \<Rightarrow> u32 option" where
  "wants (In_poll_send v p) = wanted p"
| "wants (In_poll_reply rd e) = Some (rd_request rd)"
| "wants (On_out_send b v p) = wanted p"
| "wants (On_out_flush b r p) = wanted p"
| "wants (On_reader b rd e) = Some (rd_request rd)"
| "wants _ = None"

text \<open>A call that waits for request \<open>k\<close> has returned an answer to it, or it is under way and still waits for \<open>k\<close>.\<close>

fun answers_only :: "u32 \<Rightarrow> control \<Rightarrow> bool" where
  "answers_only k (Outside (Some (Ret_reply r))) = reply_result_typed k r"
| "answers_only k t = (wants t = Some k)"

definition delivers :: "int \<times> xcb_setup_t option \<Rightarrow> u32 option \<Rightarrow> run \<Rightarrow> bool" where
  "delivers own goal r \<longleftrightarrow> (case r of (t, c, w) \<Rightarrow> typed own c w \<and> (\<forall>k. goal = Some k \<longrightarrow> answers_only k t)
     \<and> (\<forall>p. t = Outside (Some (Ret_event (Some p))) \<longrightarrow> is_event p))"

section \<open>Every stretch of code delivers\<close>

lemma no_reply_fits [simp]: "reply_result_typed k no_reply"
  by (simp add: no_reply_def)

lemma typed_enter [simp]: "typed own (conn_wait_enter v c) w = typed own c w"
  by (simp add: conn_wait_enter_def Let_def)

lemma typed_leave:
  assumes "conn_wait_leave p v c w = Some (ret, v', c', w')" and "typed own c w"
  shows "typed own c' w'"
  using assms(1)
proof (cases rule: conn_wait_leave_cases)
  case (io revents c2)
  with ty.keep_wait_io [OF io(1) assms(2)] show ?thesis by simp
next
  case failed
  with assms(2) show ?thesis by simp
qed

lemma reply_finish_delivers:
  "typed own c w \<Longrightarrow> reply_result_typed (rd_request rd) r \<Longrightarrow> delivers own (Some (rd_request rd)) (reply_finish rd r c w)"
  by (simp add: delivers_def reply_finish_def Let_def)

lemma run_reply_delivers:
  assumes "typed own c w"
  shows "delivers own (Some (rd_request rd)) (run_reply rd e c w)"
proof -
  obtain r c1 w1 where pr: "poll_for_reply (rd_request rd) e c w = (r, c1, w1)" by (metis prod_cases3)
  with typed_poll_for_reply [OF pr assms] reply_finish_delivers [of own c1 w1 rd] show ?thesis
    by (cases r) (auto simp: run_reply_def delivers_def)
qed

lemma start_reply_delivers: "typed own c w \<Longrightarrow> delivers own (Some k) (start_reply k e c w)"
  using run_reply_delivers [of own "map_readers (insert_reader \<lparr>rd_request = k, rd_cond = os_next_cond w\<rparr>) c"
      "w\<lparr>os_next_cond := os_next_cond w + 1\<rparr>" "\<lparr>rd_request = k, rd_cond = os_next_cond w\<rparr>" e]
  by (simp add: start_reply_def Let_def)

lemma run_event_delivers:
  assumes "typed own c w"
  shows "delivers own None (run_event c w)"
proof -
  obtain r c1 where ge: "get_event c = (r, c1)" by (cases "get_event c")
  with typed_get_event [OF ge assms] show ?thesis by (cases r) (auto simp: run_event_def delivers_def)
qed

lemma delivers_outside:
  "typed own c w \<Longrightarrow> delivers own None (Outside (Some (Ret_flush ok)), c, w)"
  "typed own c w \<Longrightarrow> delivers own None (Outside (Some (Ret_request n)), c, w)"
  "typed own c w \<Longrightarrow> delivers own None (Outside (Some (Ret_event None)), c, w)"
  "typed own c w \<Longrightarrow> delivers own (Some k) (Outside (Some (Ret_reply no_reply)), c, w)"
  by (simp_all add: delivers_def)

lemma send_done_delivers: "typed own c w \<Longrightarrow> delivers own (wanted p) (send_done ret p c w)"
  by (cases p) (simp_all add: send_done_def delivers_outside start_reply_delivers)

lemma run_send_delivers:
  assumes "typed own c w"
  shows "delivers own (wanted p) (run_send ret v p c w)"
proof (cases "ret \<and> v \<noteq> []")
  case True
  with assms show ?thesis by (auto simp: run_send_def delivers_def)
next
  case False
  with send_done_delivers [of own "c\<lparr>c_out := (c_out c)\<lparr>request_written := out_request (c_out c)\<rparr>\<rparr>"] assms show ?thesis
    by (auto simp: run_send_def Let_def)
qed

lemma flush_sleeper_delivers: "typed own c w \<Longrightarrow> delivers own (wanted p) (On_out_flush b r p, c, w)"
  by (simp add: delivers_def)

lemma flush_wait_delivers: "flush_wait request p c w = Some r \<Longrightarrow> typed own c w \<Longrightarrow> delivers own (wanted p) r"
  by (auto simp: flush_wait_def send_done_delivers flush_sleeper_delivers split: if_split_asm)

lemma run_flush_delivers: "run_flush request p c w = Some r \<Longrightarrow> typed own c w \<Longrightarrow> delivers own (wanted p) r"
  by (auto simp: run_flush_def typed_set_out_queue send_done_delivers run_send_delivers simp del: split_paired_All
      split: if_split_asm elim: flush_wait_delivers)

lemma run_request_delivers:
  assumes run: "run_request flags spare v big req c w = Some r" and typed: "typed own c w"
  shows "delivers own None r"
proof (cases "writing (c_out c) = 0")
  case False
  with run typed show ?thesis by (auto simp: run_request_def delivers_def)
next
  case True
  with run obtain wa c0 w0 synced c1 w1 spare1 v1 where
    gs: "get_socket_back c w = Some (c0, w0)"
    and nr: "number_request req wa (flags AND NOT XCB_REQUEST_RAW) c0 w0 = Some (synced, c1, w1)"
    and ap: "add_prefix synced big spare v = Some (spare1, v1)" and wa: "glx_workaround req (hd v) = Some wa"
    by (auto simp: run_request_def bind_eq_Some_conv2)
  obtain spare2 v2 q where fq: "fill_queue spare1 v1 (out_queue (c_out c1)) = (spare2, v2, q)" by (metis prod_cases3)
  let ?n = "ucast (out_request (c_out c1)) :: u32"
  have r: "r = (if v2 = [] then (Outside (Some (Ret_request ?n)), set_out_queue q c1, w1)
        else run_send True (q # v2) (For_request ?n) (set_out_queue [] c1) w1)"
    using run True gs nr ap wa fq by (auto simp: run_request_def Let_def split: if_splits)
  have t1: "typed own c1 w1" using ty.keep_number_request [OF nr ty.keep_get_socket_back [OF gs typed]] .
  then have "length q \<le> XCB_QUEUE_BUFFER_SIZE"
    using fill_queue_bound [OF fq] by (simp add: typed_def conn_typed_def stores_typed_def)
  with r t1 run_send_delivers [of own "set_out_queue [] c1" w1 "For_request ?n"] show ?thesis
    by (auto simp: typed_set_out_queue intro!: delivers_outside)
qed

text \<open>The request a call asks for when it starts.\<close>

fun call_wants :: "blocking_call \<Rightarrow> u32 option" where
  "call_wants (Do_wait_for_reply k e) = Some k"
| "call_wants _ = None"

lemma start_delivers:
  "start call c w = Some r \<Longrightarrow> typed own c w \<Longrightarrow> delivers own (call_wants call) r"
  using run_flush_delivers [of _ For_flush] run_flush_delivers [of _ "For_reply k e" for k e]
  by (cases call) (auto simp: delivers_outside start_reply_delivers run_event_delivers run_request_delivers split: if_split_asm)

lemma resume_delivers:
  assumes run: "resume p t c w = Some r" and typed: "typed own c w"
  shows "delivers own (wants t) r"
proof (cases t)
  case (In_poll_send v p1)
  with run obtain ret v' c1 w1 where l: "conn_wait_leave p (Some v) c w = Some (ret, Some v', c1, w1)"
    and r: "r = run_send ret v' p1 c1 w1" by (auto simp: bind_eq_Some_conv2)
  with In_poll_send run_send_delivers [OF typed_leave [OF l typed]] show ?thesis by simp
next
  case (In_poll_reply rd e)
  with run obtain ret v' c1 w1 where l: "conn_wait_leave p None c w = Some (ret, v', c1, w1)"
    and r: "r = (if ret then run_reply rd e c1 w1 else reply_finish rd no_reply c1 w1)"
    by (auto simp: bind_eq_Some_conv2)
  note t1 = typed_leave [OF l typed]
  with In_poll_reply r run_reply_delivers [OF t1] reply_finish_delivers [OF t1] show ?thesis by simp
next
  case In_poll_event
  with run obtain ret v' c1 w1 where l: "conn_wait_leave p None c w = Some (ret, v', c1, w1)"
    and r: "r = (if ret then run_event c1 w1 else (Outside (Some (Ret_event None)), c1, xcb_in_wake_up_next_reader c1 w1))"
    by (auto simp: bind_eq_Some_conv2)
  note t1 = typed_leave [OF l typed]
  with In_poll_event r run_event_delivers [OF t1] show ?thesis by (simp add: delivers_outside)
qed (use run typed in \<open>auto simp: run_send_delivers flush_wait_delivers run_request_delivers run_reply_delivers run_event_delivers\<close>)

section \<open>Which call a thread is in\<close>

text \<open>
  The machine with the request each thread asked for last, if its last call was
  \<open>xcb_wait_for_reply\<close>. A thread that is outside of the library stays there as it is until it
  begins a call.
\<close>

type_synonym goals = "nat \<Rightarrow> u32 option"

inductive goal_step :: "machine \<times> goals \<Rightarrow> machine \<times> goals \<Rightarrow> bool" where
  Begin: "i < length ts \<Longrightarrow> ts ! i = Outside r \<Longrightarrow> call_ok call c \<Longrightarrow> room c
    \<Longrightarrow> start call c (w\<lparr>os_signals := []\<rparr>) = Some (t, c', w')
    \<Longrightarrow> signals (os_signals w') (ts[i := Outside r]) ts'
    \<Longrightarrow> goal_step ((ts, c, w), G) ((ts'[i := t], c', w'), G(i := call_wants call))"
| Other: "machine_step (ts, c, w) (ts', c', w') \<Longrightarrow> \<forall>i < length ts. \<forall>r. ts ! i = Outside r \<longrightarrow> ts' ! i = Outside r
    \<Longrightarrow> goal_step ((ts, c, w), G) ((ts', c', w'), G)"

inductive_cases goal_stepE: "goal_step (s, G) (s', G')"

lemma goal_machine: "goal_step (s, G) (s', G') \<Longrightarrow> machine_step s s'"
  by (auto elim: goal_stepE intro: machine_step.intros)

definition on_track :: "u32 option \<Rightarrow> control \<Rightarrow> bool" where
  "on_track g t \<longleftrightarrow> (\<forall>k. g = Some k \<longrightarrow> answers_only k t) \<and> (\<forall>p. t = Outside (Some (Ret_event (Some p))) \<longrightarrow> is_event p)"

definition goal_inv :: "int \<times> xcb_setup_t option \<Rightarrow> machine \<times> goals \<Rightarrow> bool" where
  "goal_inv own s \<longleftrightarrow> (case s of ((ts, c, w), G) \<Rightarrow> typed own c w \<and> (\<forall>i < length ts. on_track (G i) (ts ! i)))"

lemma wants_wake [simp]: "wants (wake t) = wants t"
  by (cases t) simp_all

lemma outside_wake [simp]: "(wake t = Outside r) = (t = Outside r)"
  by (cases t) simp_all

lemma answers_waiting: "\<forall>r. t \<noteq> Outside r \<Longrightarrow> answers_only k t = (wants t = Some k)"
  by (cases t) auto

lemma on_track_wake [simp]: "on_track g (wake t) = on_track g t"
proof (cases "\<exists>r. t = Outside r")
  case False
  then show ?thesis by (simp add: on_track_def answers_waiting)
qed auto

lemma on_track_awakened:
  assumes "list_all2 awakened ts ts'" and "\<forall>i < length ts. on_track (G i) (ts ! i)"
  shows "\<forall>i < length ts'. on_track (G i) (ts' ! i)"
  using assms awakened_nth [OF assms(1)] list_all2_lengthD [OF assms(1)] by (metis on_track_wake)

lemma on_track_section:
  assumes sg: "signals cs (ts[i := Outside r]) ts'" and old: "\<forall>j < length ts. j \<noteq> i \<longrightarrow> on_track (G j) (ts ! j)"
    and new: "on_track (G i) t"
  shows "\<forall>j < length (ts'[i := t]). on_track (G j) (ts'[i := t] ! j)"
proof (intro allI impI)
  fix j assume j: "j < length (ts'[i := t])"
  note aw = signals_awakened [OF sg]
  have len: "length ts' = length ts" using list_all2_lengthD [OF aw] by simp
  show "on_track (G j) (ts'[i := t] ! j)"
  proof (cases "j = i")
    case False
    have "ts' ! j = ts ! j \<or> ts' ! j = wake (ts ! j)" using awakened_nth [OF aw, of j] j len False by simp
    with old j len False show ?thesis by auto
  qed (use new j in simp)
qed

lemma run_quick_typed:
  assumes "run_quick q c w = Some (c', w')" and "typed own c w"
  shows "typed own c' w'"
  using assms by (cases q) (auto simp: bind_eq_Some_conv2 dest!: typed_poll_for_event ty.keep_poll_reply ty.keep_xcb_discard_reply
      split: prod.split_asm)

lemma typed_signals [simp]: "typed own c (w\<lparr>os_signals := s\<rparr>) = typed own c w"
  by (rule typed_cong) simp

lemma delivers_on_track:
  "delivers own g (t, c, w) \<Longrightarrow> on_track g t" "delivers own g (t, c, w) \<Longrightarrow> typed own c w"
  by (auto simp: delivers_def on_track_def)

lemma machine_step_track:
  assumes "machine_step (ts, c, w) (ts', c', w')" and "\<forall>i < length ts. \<forall>r. ts ! i = Outside r \<longrightarrow> ts' ! i = Outside r"
    and "typed own c w" and old: "\<forall>i < length ts. on_track (G i) (ts ! i)"
  shows "typed own c' w' \<and> (\<forall>i < length ts'. on_track (G i) (ts' ! i))"
  using assms(1)
proof (cases rule: machine_step.cases)
  case (Begin i r call t ts1)
  have "typed own c' w'" using delivers_on_track(2) [OF start_delivers [OF Begin(6)]] assms(3) by simp
  moreover have "t = Outside r"
    using assms(2) Begin(1,2,3) after_index(1) [OF Begin(2,7)] by auto
  then have "on_track (G i) t" using old Begin(2,3) by auto
  ultimately show ?thesis using on_track_section [OF Begin(7), of G t] old Begin(1) by simp
next
  case (Continue i p t r ts1)
  have d: "delivers own (wants (ts ! i)) (t, c', w')" using resume_delivers [OF Continue(5)] assms(3) by simp
  have "\<forall>x. ts ! i \<noteq> Outside x" using Continue(3) by (auto simp: runnable_def)
  then have "\<forall>k. G i = Some k \<longrightarrow> wants (ts ! i) = Some k"
    using old Continue(2) answers_waiting [of "ts ! i"] by (auto simp: on_track_def)
  with delivers_on_track(1) [OF d] have "on_track (G i) t" by (auto simp: on_track_def)
  with on_track_section [OF Continue(6), of G t] old Continue(1) delivers_on_track(2) [OF d] show ?thesis by simp
next
  case (Quick q)
  have "typed own c' w'" by (rule run_quick_typed [OF Quick(1)]) (use assms(3) in simp)
  with on_track_awakened [OF signals_awakened [OF Quick(2)] old] show ?thesis by simp
next
  case (Spurious i)
  with on_track_awakened [OF spurious_awakened old] assms(3) show ?thesis by simp
next
  case (System ms rs ws ps)
  have "typed own c' w'" using System assms(3) by (simp add: typed_def)
  with System old show ?thesis by simp
qed

lemma goal_step_inv: "goal_step x y \<Longrightarrow> goal_inv own x \<Longrightarrow> goal_inv own y"
proof (induction rule: goal_step.induct)
  case (Begin i ts r call c w t c' w' ts' G)
  have d: "delivers own (call_wants call) (t, c', w')"
    using start_delivers [OF Begin.hyps(5), of own] Begin.prems by (simp add: goal_inv_def)
  have "\<forall>j < length (ts'[i := t]). on_track ((G(i := call_wants call)) j) (ts'[i := t] ! j)"
    by (rule on_track_section [OF Begin.hyps(6)]) (use Begin.prems delivers_on_track(1) [OF d] in \<open>simp_all add: goal_inv_def\<close>)
  with delivers_on_track(2) [OF d] show ?case by (simp add: goal_inv_def)
next
  case (Other ts c w ts' c' w' G)
  with machine_step_track [OF Other.hyps, of own G] show ?case by (simp add: goal_inv_def)
qed

lemma goal_reachable: "goal_step\<^sup>*\<^sup>* x y \<Longrightarrow> goal_inv own x \<Longrightarrow> goal_inv own y"
  by (induction rule: rtranclp_induct) (auto intro: goal_step_inv)

section \<open>Answers go to the threads that ask for them\<close>

text \<open>
  C5: Threads get their own answers. Any number of threads share a well-typed connection (a new one is), interleaved in any way, on any behaviour of the system and
  whatever the server sends. A thread whose last call was \<open>xcb_wait_for_reply\<close> for request
  \<open>k\<close> still waits for \<open>k\<close>, or it has returned nothing but answers to \<open>k\<close>: a reply or an error whose header has the low half of
  \<open>k\<close>, an error also with \<open>k\<close> as its full number. What \<open>xcb_wait_for_event\<close> returned is an event. And the connection stays well typed.
\<close>

theorem threads_get_their_answers:
  assumes "conn_typed c" and "others_typed (owns c) (os_others w)"
    and "goal_step\<^sup>*\<^sup>* ((replicate n (Outside None), c, w), \<lambda>i. None) ((ts, c', w'), G)"
  shows "conn_typed c' \<and> (\<forall>i < length ts. (\<forall>k. G i = Some k \<longrightarrow> answers_only k (ts ! i))
    \<and> (\<forall>p. ts ! i = Outside (Some (Ret_event (Some p))) \<longrightarrow> is_event p))"
proof -
  have "goal_inv (owns c) ((replicate n (Outside None), c, w), \<lambda>i. None)"
    using assms(1,2) by (simp add: goal_inv_def typed_def on_track_def)
  from goal_reachable [OF assms(3) this] show ?thesis by (simp add: goal_inv_def on_track_def typed_def)
qed

text \<open>A connection whose request 1 has been answered.\<close>

definition answered_conn :: xcb_connection_t where
  "answered_conn = session_conn\<lparr>c_in := zero_in\<lparr>request_read := 1, request_expected := 1, current_reply := [first_reply]\<rparr>,
     c_out := zero_out\<lparr>out_request := 1, request_written := 1\<rparr>\<rparr>"

theorem threads_get_their_answers_witness:
  "\<exists>c' w' G. goal_step\<^sup>*\<^sup>* ((replicate 1 (Outside None), answered_conn, quiet_os), \<lambda>i. None)
     (([Outside (Some (Ret_reply \<lparr>pr_reply = Some first_reply, pr_error = None\<rparr>))], c', w'), G)
   \<and> G 0 = Some 1 \<and> packet_sequence first_reply = 1"
proof -
  let ?c = "answered_conn\<lparr>c_in := (c_in answered_conn)\<lparr>current_reply := []\<rparr>\<rparr>"
  let ?w = "quiet_os\<lparr>os_next_cond := 1, os_signals := [EventCond]\<rparr>"
  let ?t = "Outside (Some (Ret_reply \<lparr>pr_reply = Some first_reply, pr_error = None\<rparr>))"
  have type: "packet32 XCB_REPLY 1 0 ! 0 \<noteq> XCB_ERROR" by (simp add: packet32_def XCB_REPLY_def XCB_ERROR_def)
  then have "start (Do_wait_for_reply 1 True) answered_conn quiet_os = Some (?t, ?c, ?w)"
    by (simp add: answered_conn_def session_conn_def sample_conn_def zero_defs run_flush_def widen_request_def
        XCB_SEQUENCE_COMPARE_def send_done_def start_reply_def run_reply_def poll_for_reply_def reply_head_def
        XCB_SEQUENCE_COMPARE_32_def split_reply_def reply_finish_def map_readers_def xcb_in_wake_up_next_reader_def os_signal_def)
  then have step: "goal_step (([Outside None], answered_conn, quiet_os), \<lambda>i. None) (([Outside None][0 := ?t], ?c, ?w), (\<lambda>i. None)(0 := Some 1))"
    using goal_step.Begin [of 0 "[Outside None]" None "Do_wait_for_reply 1 True" answered_conn quiet_os ?t ?c ?w "[Outside None]" "\<lambda>i. None"]
    by (simp add: room_def answered_conn_def signals_none)
  then have run: "goal_step\<^sup>*\<^sup>* ((replicate 1 (Outside None), answered_conn, quiet_os), \<lambda>i. None) (([?t], ?c, ?w), (\<lambda>i. None)(0 := Some 1))"
    by (simp add: r_into_rtranclp)
  have sq: "packet_sequence first_reply = 1" and "is_reply first_reply"
    by (simp_all add: packet_sequence_def is_reply_def packet_consts) (simp add: packet32_def)
  then have "conn_typed answered_conn"
    by (simp add: conn_typed_def stores_typed_def in_mailbox_def answered_conn_def session_conn_def sample_conn_def zero_defs)
  moreover have "others_typed (owns answered_conn) (os_others quiet_os)" by (simp add: quiet_os_def)
  ultimately have "answers_only 1 ?t" using threads_get_their_answers [OF _ _ run] by simp
  then have "packet_sequence first_reply = 1" by (simp add: reply_result_typed_def in_mailbox_def)
  with run show ?thesis by (intro exI [of _ ?c] exI [of _ ?w] exI [of _ "(\<lambda>i. None)(0 := Some 1)"]) simp
qed

end
