(* ===== verification/Spec2Isabelle.thy ===== *)
theory Spec2Isabelle
  imports XcbList XcbSeq XcbTypes XcbIn XcbMailbox XcbDiscard XcbExt XcbXid XcbConn XcbOut XcbRequest XcbFlush XcbWait
    XcbPopcount XcbDisplay XcbOpen XcbSetup XcbAuth XcbConnect XcbSession XcbThreads XcbMonitor XcbInterleave XcbLengths
    XcbKept XcbTyped XcbApi XcbEvents XcbLearnt XcbStream XcbPipe XcbDelivery
begin

text \<open>
  A verification development for libxcb, the C binding of the X window system protocol. It models
  the core library, the C files under \<open>src/src/\<close>, as HOL functions and proves what makes it
  correct.

  The program. A connection is a socket, a writing side and a reading side. The writing side
  (\<open>xcb_out.c\<close>) numbers requests, puts them into a queue and writes them when the queue is full,
  on \<open>xcb_flush\<close>, or when a thread waits. The reading side (\<open>xcb_in.c\<close>) takes bytes off the socket,
  cuts them into packets, widens their 16 bit sequence numbers to 64 bits and puts every packet into
  the mailbox of the request it answers or into the event queue; threads that wait take turns
  at the socket. \<open>xcb_conn.c\<close> waits for the socket on behalf of both and sets a connection up;
  \<open>xcb_ext.c\<close> caches what the server says about extensions, \<open>xcb_xid.c\<close> hands out resource
  identifiers, \<open>xcb_list.c\<close> is the map from request numbers to mailboxes, \<open>xcb_util.c\<close> reads display
  names and opens sockets, \<open>xcb_auth.c\<close> finds authorization data.

  Conventions. A function of C takes the connection (\<open>xcb_connection_t\<close>, a record with one
  record per component) and the operating system (\<open>os\<close>) and returns them updated. The system is a script: what the
  next \<open>recv\<close>, \<open>writev\<close>, \<open>poll\<close>, allocations and initialisations return, what other threads do at the next points where the
  lock is released (\<open>os_others\<close>), and what has been written (\<open>os_wire\<close>). So every statement about
  an arbitrary \<open>os\<close> is one about every behaviour of the kernel and every interleaving. The result
  is an option: \<open>None\<close> means that the call has no defined result or never returns (a failed assertion, an
  access outside of an object, an overflowing copy, a double free, an endless wait). Integers have their
  C width (\<open>u16\<close>, \<open>u32\<close>, \<open>u64\<close>) wherever wrap-around matters.

  The theories:
  \<^item> \<open>XcbPrelude\<close>: words, byte order, named collections of facts.
  \<^item> \<open>XcbList\<close> (\<open>xcb_list.c\<close>): the list with its tail pointer, in a heap of nodes; it refines an
    association list, and deletion frees every value and node once.
  \<^item> \<open>XcbSeq\<close> (macros of \<open>xcbint.h\<close>, \<open>xcb.h\<close>): comparison and padding macros, widening of sequence
    numbers and why 16 and 32 bits are enough.
  \<^item> \<open>XcbTypes\<close>: the records of a connection and the model of the system.
  \<^item> \<open>XcbIn\<close>, \<open>XcbMailbox\<close>, \<open>XcbDiscard\<close>, \<open>XcbWait\<close> (\<open>xcb_in.c\<close>): reading packets and sorting them
    into mailboxes and events, with an invariant of the reply stores; discarded
    replies never arrive; waiting for replies and events.
  \<^item> \<open>XcbConn\<close> (\<open>xcb_conn.c\<close>, \<open>_xcb_out_send\<close>): waiting for the socket and sending vectors, in
    order and without loss, and completely when the socket makes progress.
  \<^item> \<open>XcbOut\<close>, \<open>XcbRequest\<close>, \<open>XcbFlush\<close> (\<open>xcb_out.c\<close>): encoding, numbering and queueing
    requests, sync requests that keep 16 bit numbers unambiguous, flushing, handing the socket to an
    external owner and back.
  \<^item> \<open>XcbExt\<close> (\<open>xcb_ext.c\<close>) and \<open>XcbXid\<close> (\<open>xcb_xid.c\<close>): the extension cache as a map, identifiers
    that are unique and stay in the range granted.
  \<^item> \<open>XcbPopcount\<close>, \<open>XcbDisplay\<close>, \<open>XcbOpen\<close> (\<open>xcb_util.c\<close>): counting bits, display names and their
    round trip, opening sockets without losing descriptors.
  \<^item> \<open>XcbSetup\<close> (\<open>xcb_conn.c\<close>): the setup request and its answer, connecting and disconnecting.
  \<^item> \<open>XcbAuth\<close> (\<open>xcb_auth.c\<close>): authorization data, with every block of memory accounted for.
  \<^item> \<open>XcbConnect\<close> (\<open>xcb_util.c\<close>): connecting to a display, from the name to the connection.
  \<^item> \<open>XcbThreads\<close>, \<open>XcbMonitor\<close>, \<open>XcbInterleave\<close> (\<open>_xcb_conn_wait\<close> and its callers): the blocking calls cut
    where the lock is released, threads as a step relation with condition variables and signals, and an
    invariant of all interleavings: one writer, no stale reader, no lost wake-up.
  \<^item> \<open>XcbSession\<close>: any sequence of requests, flushes and polls on one connection, as a step
    relation; the connection refines a pipe.
  \<^item> \<open>XcbPipe\<close>: the same for all interleavings of threads, with a log of the requests as the pipe.
  \<^item> \<open>XcbStream\<close> (\<open>xcb_in.c\<close>): the packets a server sends as a list, their bytes cut anywhere; a thread that
    waits for a reply in the list gets it.
  \<^item> \<open>XcbLengths\<close> (\<open>xcb_in.c\<close>): what the lengths a server announces can do; the one kind of packet that
    overruns its buffer.
  \<^item> \<open>XcbKept\<close>: what every operation keeps, as a contract: a property of the stores of a connection that receiving bytes,
    reading one packet, looking a reply up, discarding one and learning an answer keep is kept by all public calls.
  \<^item> \<open>XcbTyped\<close>, \<open>XcbApi\<close>: the types of the packets a connection stores and hands out, kept by every
    operation, and under which request number they lie; all public calls as one type, and what holds
    of any sequence of them.
  \<^item> \<open>XcbEvents\<close>: the events a client gets over any sequence of calls stand in the bytes of the server, in that order
    (\<open>drawn\<close>), and without an error the bytes read are packets without a gap of which no event is left out (\<open>framed\<close>).
  \<^item> \<open>XcbLearnt\<close> (\<open>xcb_ext.c\<close>, \<open>xcb_out.c\<close>): what the server has answered once is neither asked again nor changed.
  \<^item> \<open>XcbDelivery\<close>: in every interleaving a thread gets only answers to the request it waits for.

  This theory adds the statement about a connection from connecting to disconnecting.

  Names are those of the sources without a leading underscore; \<open>_xcb_parse_display\<close> is
  \<open>xcb_parse_display_full\<close> since there is also \<open>xcb_parse_display\<close>. A loop that reads or sends ends because every
  round uses up a part of the script, so no fuel is needed; a script that has run out means
  that the peer has closed the connection or that a call fails.

  Interfaces are locales: the reply map, a queue of events, a mailbox that is polled, an opener of
  descriptors and others are stated by their laws, proved about once, and
  interpreted on the definitions of the component that provides them. The contract of \<open>XcbKept\<close> is interpreted
  three times, for the types of packets, for the order of events and for what is known about the server.

  Not modelled. The functions generated from the protocol description and the layouts of the
  structures that come with them are not in the repository: the functions the library calls are
  parameters (\<open>generated\<close>, \<open>setup_reasons\<close>), the layouts are those of the protocol. \<open>getaddrinfo\<close>,
  \<open>XauGetBestAuthByAddr\<close> and \<open>XdmcpWrap\<close> are parameters. The variants for Windows, \<open>select\<close>, DECnet and
  launchd are compiled out, as on a Linux system (the DECnet variant declares and defines
  \<open>_xcb_open_decnet\<close> with different types and does not compile). When \<open>poll\<close> fails, the code sets
  the error flag before it takes the lock again, the model after it. Destroying mutexes and condition variables has no
  effect in the model. Buffers handed to a vector are values, so an application that changes a
  buffer while another thread writes it is outside of the model; lists and strings have fewer than
  \<open>2^31\<close> entries. Setup data of 20 to 27 bytes counts as undefined although only a later
  call reads beyond it. The sum of \<open>X_TCP_PORT\<close> and the display number, an \<open>int\<close> that the code stores in 16 bits, is
  taken modulo \<open>2 ^ 16\<close> also where it overflows the \<open>int\<close> (displays above \<open>2 ^ 31 - 6001\<close>). Whether \<open>realloc\<close> moves a
  block is a field of the system (\<open>a_moves\<close>). The code generator \<open>c_client.py\<close> and the tests are not modelled.
\<close>

section \<open>The life of a connection\<close>

lemma free_reply_list_all [simp]: "free_reply_list ps = ps"
  by (induction ps) simp_all

text \<open>What \<open>xcb_disconnect\<close> frees: the replies in the mailboxes, then the events.\<close>

lemma disconnect_frees:
  assumes "conn_typed c"
  shows "\<exists>stored. fst (fst (xcb_disconnect (Conn c) s)) = stored @ events (c_in c) \<and> (\<forall>p \<in> set stored. \<exists>k. in_mailbox k p)"
proof -
  let ?stored = "current_reply (c_in c) @ concat (map (free_reply_list \<circ> snd) (replies (c_in c)))"
  have "\<forall>p \<in> set ?stored. \<exists>k. in_mailbox k p" using assms by (auto simp: conn_typed_def stores_typed_def)
  then show ?thesis by (intro exI [of _ ?stored]) (simp add: xcb_disconnect_def xcb_in_destroy_def Let_def)
qed

text \<open>
  C17: From connecting to disconnecting. When \<open>xcb_connect_to_fd\<close> has made a connection of a
  descriptor and the application has then called whatever public functions it likes, from one thread, every
  packet it got has the type its pointer claims, the setup data is still that of the server, the
  connection still has its descriptor, and \<open>xcb_disconnect\<close> closes that one, once, and no other. It frees
  answers to requests and then the events left; the events the application got and those
  freed are together those the connection had at first and events that stand in the bytes sent since then, in order. Unless
  the connection is in error, nothing is missing: the bytes read since then are packets without a gap, and every one of them
  that is not a reply or an error is among these events.
\<close>

theorem client_lifetime:
  assumes "xcb_connect_to_fd answers f auth_info w s = Some (Conn c, w1, s1)" and "os_others w = []"
    and "gen_typed gen" and "gen_complete gen" and "perform_all gen ks c w1 = Some (rs, c', w2)"
  shows "list_all2 result_typed ks rs \<and> c_setup c' = c_setup c \<and> conn_typed c'
    \<and> sys_open (snd (xcb_disconnect (Conn c') s1)) = remove1 f (sys_open s)
    \<and> (\<exists>stored left. fst (fst (xcb_disconnect (Conn c') s1)) = stored @ left \<and> (\<forall>p \<in> set stored. \<exists>k. in_mailbox k p)
         \<and> (\<exists>new. concat (map got_event rs) @ left = events (c_in c) @ new \<and> drawn (instream c w1) new (instream c' w2)
              \<and> (\<not> has_error c' \<longrightarrow> framed (instream c w1) new (instream c' w2))))"
proof -
  from connect_outcome [OF assms(1,2)] have made: "sys_open s1 = sys_open s" "fd c = f" "os_others w1 = []"
    by (simp_all add: fresh_conn_def alone_def)
  with connect_typed [OF assms(1,2)] have "typed (owns c) c w1" by (simp add: typed_def)
  note kept = perform_all_typed [OF assms(3,5) this]
  have "in_order True [] (events (c_in c)) (instream c w1) c w1" using made by (simp add: in_order_start)
  from perform_all_in_order [OF assms(4) [unfolded gen_complete_def] assms(5) this]
  have "\<exists>new. concat (map got_event rs) @ events (c_in c') = events (c_in c) @ new \<and> drawn (instream c w1) new (instream c' w2)
      \<and> (\<not> has_error c' \<longrightarrow> framed (instream c w1) new (instream c' w2))"
    by (auto simp: in_order_def)
  with disconnect_frees [of c' s1] kept made show ?thesis
    by (auto simp: typed_def owns_def xcb_disconnect_def sys_close_def log_call_def)
qed

theorem client_lifetime_witness:
  "\<exists>c w1 s1. xcb_connect_to_fd sample_reasons 3 None (server_os sample_answer) ((sample_sys [] [])\<lparr>sys_open := [3]\<rparr>) = Some (Conn c, w1, s1)
     \<and> perform_all sample_gen [Call_get_setup] c w1 = Some ([Setup (decode_setup sample_answer)], c, w1)
     \<and> sys_open (snd (xcb_disconnect (Conn c) s1)) = []"
proof -
  let ?s = "(sample_sys [] [])\<lparr>sys_open := [3]\<rparr>"
  have "sys_fcntls ?s = []" by (simp add: sample_sys_def)
  then obtain c w1 s1 where run: "xcb_connect_to_fd sample_reasons 3 None (server_os sample_answer) ?s = Some (Conn c, w1, s1)"
    and c: "c_setup c = decode_setup sample_answer" "\<not> has_error c"
    using connect_to_fd_runs [OF server_os_ok(1-3) _ setup_parts_none server_os_ok(5-8,4) sample_answer_ok] by blast
  then have calls: "perform_all sample_gen [Call_get_setup] c w1 = Some ([Setup (decode_setup sample_answer)], c, w1)"
    by (simp add: xcb_get_setup_def)
  have "sys_open (snd (xcb_disconnect (Conn c) s1)) = []"
    using client_lifetime [OF run server_os_ok(1) sample_gen_typed sample_gen_complete calls] by simp
  with run calls show ?thesis by blast
qed

end
